(* ===== verification/Prelude.thy ===== *)
theory Prelude
  imports Main "HOL-Library.Word"
begin

unbundle bit_operations_syntax

text \<open>
  Shared vocabulary of the FastSync development: the machine types of the LP64 little-endian
  targets the program is built for, the native byte encoding that \<open>memcpy\<close> of an integer
  produces, C strings, the allocator, and the contract of a byte-level encoder/decoder pair
  together with the facts every counted sequence of such records inherits from it.
\<close>

section \<open>Machine types and limits\<close>

type_synonym byte = "8 word"
type_synonym u32 = "32 word"
type_synonym u64 = "64 word"
type_synonym buffer = "byte list"

definition UINT32_MAX :: nat where
  "UINT32_MAX = 4294967295"

definition UINT64_MAX :: nat where
  "UINT64_MAX = 18446744073709551615"

text \<open>\<open>size_t\<close> is 64 bits wide on the supported targets.\<close>

definition SIZE_MAX :: nat where
  "SIZE_MAX = 18446744073709551615"

definition INT_MAX :: int where
  "INT_MAX = 2147483647"

text \<open>
  \<open>malloc\<close>, \<open>calloc\<close> and \<open>realloc\<close> may refuse any request. An allocator says which request
  sizes (in bytes) are granted; every function of the program that allocates takes one and has a
  branch for the refusal.
\<close>

type_synonym allocator = "nat \<Rightarrow> bool"

named_theorems limits \<open>the numeric limits of the program, unfolded together\<close>

lemmas [limits] = UINT32_MAX_def UINT64_MAX_def SIZE_MAX_def INT_MAX_def

section \<open>Native integer encoding\<close>

text \<open>\<open>memcpy(buf, &v, n)\<close> of an unsigned value: its n bytes, least significant first.\<close>

primrec le_bytes :: "nat \<Rightarrow> nat \<Rightarrow> buffer" where
  "le_bytes 0 v = []"
| "le_bytes (Suc n) v = word_of_nat (v mod 256) # le_bytes n (v div 256)"

text \<open>\<open>memcpy(&v, buf, n)\<close>: the value those bytes denote.\<close>

primrec le_nat :: "buffer \<Rightarrow> nat" where
  "le_nat [] = 0"
| "le_nat (b # bs) = unat b + 256 * le_nat bs"

lemma Some_eq_map_option [simp]: "Some y = map_option f x \<longleftrightarrow> (\<exists>z. x = Some z \<and> y = f z)"
  by (cases x) auto

lemma ring_inj:
  assumes "i < (c :: nat)" and "j < c"
  shows "(f + i) mod c = (f + j) mod c \<longleftrightarrow> i = j"
proof
  assume "(f + i) mod c = (f + j) mod c"
  then have "i mod c = j mod c" by (simp add: nat_mod_eq_iff)
  with assms show "i = j" by simp
qed simp

lemma unat_byte_less [simp]: "unat (b :: byte) < 256"
  using unsigned_less [where ?'a = nat, of b] by simp

lemma unat_u32_less [simp]: "unat (w :: u32) < 4294967296"
  using unsigned_less [where ?'a = nat, of w] by simp

lemma unat_u64_less [simp]: "unat (w :: u64) < 18446744073709551616"
  using unsigned_less [where ?'a = nat, of w] by simp

lemma length_le_bytes [simp]: "length (le_bytes n v) = n"
  by (induction n arbitrary: v) auto

lemma le_nat_bound: "le_nat bs < 256 ^ length bs"
proof (induction bs)
  case Nil
  then show ?case by simp
next
  case (Cons b bs)
  have "unat b + 256 * le_nat bs < 256 * 256 ^ length bs"
    using unat_byte_less [of b] Cons by linarith
  then show ?case by simp
qed

lemma le_nat_le_bytes_mod: "le_nat (le_bytes n v) = v mod 256 ^ n"
proof (induction n arbitrary: v)
  case 0
  then show ?case by simp
next
  case (Suc n)
  have "v mod 256 + 256 * (v div 256 mod 256 ^ n) = v mod (256 * 256 ^ n)"
    by (metis mod_mult2_eq add.commute)
  with Suc show ?case by (simp add: unat_of_nat)
qed

lemma le_nat_le_bytes [simp]: "v < 256 ^ n \<Longrightarrow> le_nat (le_bytes n v) = v"
  by (simp add: le_nat_le_bytes_mod)

lemma le_bytes_le_nat [simp]: "length bs = n \<Longrightarrow> le_bytes n (le_nat bs) = bs"
proof (induction bs arbitrary: n)
  case Nil
  then show ?case by simp
next
  case (Cons b bs)
  have "unat b < 256" by simp
  then have "(unat b + 256 * le_nat bs) mod 256 = unat b"
    and "(unat b + 256 * le_nat bs) div 256 = le_nat bs"
    by simp_all
  with Cons show ?case by auto
qed

text \<open>The widths the program uses: fields of 32 and 64 bits.\<close>

definition enc_u32 :: "u32 \<Rightarrow> buffer" where
  "enc_u32 w = le_bytes 4 (unat w)"

definition dec_u32 :: "buffer \<Rightarrow> u32" where
  "dec_u32 bs = word_of_nat (le_nat (take 4 bs))"

definition enc_u64 :: "u64 \<Rightarrow> buffer" where
  "enc_u64 w = le_bytes 8 (unat w)"

definition dec_u64 :: "buffer \<Rightarrow> u64" where
  "dec_u64 bs = word_of_nat (le_nat (take 8 bs))"

lemma length_enc [simp]: "length (enc_u32 w) = 4" "length (enc_u64 v) = 8"
  by (simp_all add: enc_u32_def enc_u64_def)

lemma dec_enc_u32 [simp]: "dec_u32 (enc_u32 w @ rest) = w"
  by (simp add: enc_u32_def dec_u32_def)

lemma dec_enc_u64 [simp]: "dec_u64 (enc_u64 w @ rest) = w"
  by (simp add: enc_u64_def dec_u64_def)

lemma drop_enc [simp]:
  "drop 4 (enc_u32 w @ rest) = rest" "drop 8 (enc_u64 v @ rest) = rest"
  by simp_all

lemma enc_dec_u32: "4 \<le> length bs \<Longrightarrow> enc_u32 (dec_u32 bs) = take 4 bs"
  using le_nat_bound [of "take 4 bs"]
  by (simp add: enc_u32_def dec_u32_def unat_of_nat min_absorb2)

lemma enc_dec_u64: "8 \<le> length bs \<Longrightarrow> enc_u64 (dec_u64 bs) = take 8 bs"
  using le_nat_bound [of "take 8 bs"]
  by (simp add: enc_u64_def dec_u64_def unat_of_nat min_absorb2)

lemma enc_dec_u32_append: "4 \<le> length bs \<Longrightarrow> enc_u32 (dec_u32 bs) @ drop 4 bs = bs"
  by (simp add: enc_dec_u32)

lemma enc_dec_u64_append: "8 \<le> length bs \<Longrightarrow> enc_u64 (dec_u64 bs) @ drop 8 bs = bs"
  by (simp add: enc_dec_u64)

text \<open>Checked readers: the value at the front of the unread bytes, and the bytes behind it.\<close>

definition get_u32 :: "buffer \<Rightarrow> (u32 \<times> buffer) option" where
  "get_u32 bs = (if length bs < 4 then None else Some (dec_u32 bs, drop 4 bs))"

definition get_u64 :: "buffer \<Rightarrow> (u64 \<times> buffer) option" where
  "get_u64 bs = (if length bs < 8 then None else Some (dec_u64 bs, drop 8 bs))"

text \<open>\<open>memcpy(dst, buf, n)\<close> of a run of bytes.\<close>

definition get_bytes :: "nat \<Rightarrow> buffer \<Rightarrow> (buffer \<times> buffer) option" where
  "get_bytes n bs = (if length bs < n then None else Some (take n bs, drop n bs))"

section \<open>Encoder/decoder contracts\<close>

text \<open>
  A record codec: the decoder applied to an encoded record followed by anything returns the record
  and what follows. A strict codec also accepts nothing but encodings.
\<close>

primrec decode_n ::
  "(buffer \<Rightarrow> ('a \<times> buffer) option) \<Rightarrow> nat \<Rightarrow> buffer \<Rightarrow> ('a list \<times> buffer) option" where
  "decode_n dec 0 bs = Some ([], bs)"
| "decode_n dec (Suc n) bs =
     (case dec bs of None \<Rightarrow> None
      | Some (x, bs') \<Rightarrow>
          (case decode_n dec n bs' of None \<Rightarrow> None
           | Some (xs, rest) \<Rightarrow> Some (x # xs, rest)))"

lemma decode_n_length: "decode_n dec n bs = Some (xs, rest) \<Longrightarrow> length xs = n"
  by (induction n arbitrary: bs xs) (auto split: option.splits)

locale codec =
  fixes enc :: "'a \<Rightarrow> buffer"
    and dec :: "buffer \<Rightarrow> ('a \<times> buffer) option"
    and valid :: "'a \<Rightarrow> bool"
  assumes dec_enc: "valid x \<Longrightarrow> dec (enc x @ rest) = Some (x, rest)"
begin

lemma decode_n_enc:
  "list_all valid xs \<Longrightarrow>
   decode_n dec (length xs) (concat (map enc xs) @ rest) = Some (xs, rest)"
  by (induction xs) (auto simp: dec_enc)

lemma enc_prefix_free:
  assumes "valid x" and "valid y" and "enc x @ r = enc y @ s"
  shows "x = y \<and> r = s"
proof -
  have "Some (x, r) = dec (enc x @ r)" by (rule dec_enc [OF assms(1), symmetric])
  also have "\<dots> = Some (y, s)" unfolding assms(3) by (rule dec_enc [OF assms(2)])
  finally show ?thesis by simp
qed

end

locale strict_codec = codec +
  assumes dec_sound: "dec bs = Some (x, rest) \<Longrightarrow> valid x \<and> bs = enc x @ rest"
begin

lemma decode_n_sound:
  "decode_n dec n bs = Some (xs, rest) \<Longrightarrow>
   length xs = n \<and> list_all valid xs \<and> bs = concat (map enc xs) @ rest"
proof (induction n arbitrary: bs xs)
  case 0
  then show ?case by simp
next
  case (Suc n)
  then obtain x bs' xs' where d: "dec bs = Some (x, bs')"
    and n: "decode_n dec n bs' = Some (xs', rest)" and xs: "xs = x # xs'"
    by (auto split: option.splits)
  from dec_sound [OF d] Suc.IH [OF n] xs show ?case by auto
qed

lemma dec_iff: "dec bs = Some (x, rest) \<longleftrightarrow> valid x \<and> bs = enc x @ rest"
  using dec_sound dec_enc by blast

end

interpretation u32: strict_codec enc_u32 get_u32 "\<lambda>_. True"
  by unfold_locales (auto simp: get_u32_def enc_dec_u32_append split: if_splits)

interpretation u64: strict_codec enc_u64 get_u64 "\<lambda>_. True"
  by unfold_locales (auto simp: get_u64_def enc_dec_u64_append split: if_splits)

lemma get_bytes_append [simp]: "n = length xs \<Longrightarrow> get_bytes n (xs @ rest) = Some (xs, rest)"
  by (simp add: get_bytes_def)

lemma get_bytes_Some: "get_bytes n bs = Some (xs, rest) \<longleftrightarrow> length xs = n \<and> bs = xs @ rest"
  by (auto simp: get_bytes_def)

lemma get_u32_enc [simp]: "get_u32 (enc_u32 w @ rest) = Some (w, rest)"
  by (rule u32.dec_enc) simp

lemma get_u64_enc [simp]: "get_u64 (enc_u64 w @ rest) = Some (w, rest)"
  by (rule u64.dec_enc) simp

lemma get_u32_enc_end [simp]: "get_u32 (enc_u32 w) = Some (w, [])"
  using get_u32_enc [of w "[]"] by simp

lemma get_u64_enc_end [simp]: "get_u64 (enc_u64 w) = Some (w, [])"
  using get_u64_enc [of w "[]"] by simp

lemma get_u32_length: "get_u32 bs = Some (w, rest) \<Longrightarrow> length bs = 4 + length rest"
  by (auto simp: get_u32_def split: if_splits)

lemma get_u64_length: "get_u64 bs = Some (w, rest) \<Longrightarrow> length bs = 8 + length rest"
  by (auto simp: get_u64_def split: if_splits)

section \<open>C strings\<close>

text \<open>
  A C string is the list of its characters before the terminating NUL; \<open>strlen\<close> is \<open>length\<close>,
  \<open>strcmp = 0\<close> is equality, and the byte read past the last character is NUL.
\<close>

definition byte_of_char :: "char \<Rightarrow> byte" where
  "byte_of_char c = word_of_nat (of_char c)"

definition char_of_byte :: "byte \<Rightarrow> char" where
  "char_of_byte b = char_of (unat b)"

definition NUL :: char where
  "NUL = CHR 0x00"

definition cstring :: "string \<Rightarrow> bool" where
  "cstring s \<longleftrightarrow> NUL \<notin> set s"

text \<open>\<open>s[i]\<close> for an index up to and including the terminator.\<close>

definition char_at :: "string \<Rightarrow> nat \<Rightarrow> char" where
  "char_at s i = (if i < length s then s ! i else NUL)"

lemma char_of_byte_of_char [simp]: "char_of_byte (byte_of_char c) = c"
proof -
  have "(of_char c :: nat) < 256" by simp
  then show ?thesis by (simp add: char_of_byte_def byte_of_char_def unat_of_nat)
qed

lemma byte_of_char_of_byte [simp]: "byte_of_char (char_of_byte b) = b"
  by (simp add: char_of_byte_def byte_of_char_def)

lemma byte_of_char_inject [simp]: "byte_of_char c = byte_of_char d \<longleftrightarrow> c = d"
  by (metis char_of_byte_of_char)

lemma map_char_byte [simp]: "map (char_of_byte \<circ> byte_of_char) s = s"
  by (simp add: comp_def)

lemma byte_of_char_NUL [simp]: "byte_of_char NUL = 0"
  by (simp add: byte_of_char_def NUL_def)

lemma byte_of_char_eq_0 [simp]: "byte_of_char c = 0 \<longleftrightarrow> c = NUL"
  by (metis byte_of_char_NUL byte_of_char_inject)

end
