(* ===== verification/Adler.thy ===== *)
theory Adler
  imports Prelude
begin

text \<open>
  The weak checksum of the delta transfer (\<open>src/src/shared/delta.c\<close>): the Adler-32 sum of a block
  (\<open>delta_adler32\<close>) and the constant-time update that \<open>delta_compute_seeded\<close> applies when its
  window slides by one byte. The update is shown to agree with the sum of the new window, on 32-bit
  words, with the intermediate sums and differences the code writes.
\<close>

section \<open>Definitions\<close>

definition DELTA_ADLER32_MODULUS :: nat where
  "DELTA_ADLER32_MODULUS = 65521"

text \<open>One iteration of the checksum loop, on the pair \<open>(s1, s2)\<close>.\<close>

definition adler_step :: "u32 \<times> u32 \<Rightarrow> byte \<Rightarrow> u32 \<times> u32" where
  "adler_step s p =
     (let s1 = (fst s + ucast p) mod word_of_nat DELTA_ADLER32_MODULUS;
          s2 = (snd s + s1) mod word_of_nat DELTA_ADLER32_MODULUS
      in (s1, s2))"

definition adler_sums :: "buffer \<Rightarrow> u32 \<times> u32" where
  "adler_sums data = foldl adler_step (1, 0) data"

text \<open>\<open>(s2 << 16) | s1\<close>\<close>

definition adler_pack :: "u32 \<times> u32 \<Rightarrow> u32" where
  "adler_pack s = (push_bit 16 (snd s) OR fst s)"

definition delta_adler32 :: "buffer \<Rightarrow> u32" where
  "delta_adler32 data = adler_pack (adler_sums data)"

text \<open>
  The rolling update: \<open>old_byte\<close> leaves the window of \<open>block_size\<close> bytes and \<open>new_byte\<close> enters it.
  The product is taken in 64 bits and truncated after the reduction.
\<close>

definition adler_roll :: "nat \<Rightarrow> u32 \<times> u32 \<Rightarrow> byte \<Rightarrow> byte \<Rightarrow> u32 \<times> u32" where
  "adler_roll block_size s old_byte new_byte =
     (let m = word_of_nat DELTA_ADLER32_MODULUS;
          s1 = (fst s + m - ucast old_byte + ucast new_byte) mod m;
          s2 = (snd s + m - word_of_nat ((block_size * unat old_byte) mod DELTA_ADLER32_MODULUS)
                + s1 - 1) mod m
      in (s1, s2))"

section \<open>The sums over the natural numbers\<close>

text \<open>The same sums without reduction, the reference the word arithmetic is compared with.\<close>

definition adler_a :: "buffer \<Rightarrow> nat" where
  "adler_a xs = 1 + sum_list (map unat xs)"

fun adler_b :: "buffer \<Rightarrow> nat" where
  "adler_b [] = 0"
| "adler_b (x # xs) = adler_b xs + Suc (length xs) * unat x + 1"

lemma adler_a_Cons: "adler_a (x # xs) = adler_a xs + unat x"
  by (simp add: adler_a_def)

lemma adler_a_snoc: "adler_a (xs @ [x]) = adler_a xs + unat x"
  by (simp add: adler_a_def)

lemma adler_b_snoc: "adler_b (xs @ [x]) = adler_b xs + adler_a (xs @ [x])"
  by (induction xs) (simp_all add: adler_a_def algebra_simps)

definition represents :: "u32 \<times> u32 \<Rightarrow> nat \<Rightarrow> nat \<Rightarrow> bool" where
  "represents s a b \<longleftrightarrow>
     unat (fst s) = a mod DELTA_ADLER32_MODULUS \<and> unat (snd s) = b mod DELTA_ADLER32_MODULUS"

lemma represents_unique:
  assumes "represents s a b" and "represents t a b"
  shows "s = t"
  using assms by (simp add: represents_def prod_eq_iff word_unat_eq_iff)

lemma unat_adler_modulus [simp]:
  "unat (word_of_nat DELTA_ADLER32_MODULUS :: u32) = DELTA_ADLER32_MODULUS"
  by (simp add: DELTA_ADLER32_MODULUS_def)

lemma unat_small_add:
  "unat (x :: u32) + unat y < 4294967296 \<Longrightarrow> unat (x + y) = unat x + unat y"
  by (simp add: unat_word_ariths)

lemma unat_small_diff: "unat (y :: u32) \<le> unat x \<Longrightarrow> unat (x - y) = unat x - unat y"
  by (simp add: unat_sub word_le_nat_alt)

lemma unat_ucast_byte [simp]: "unat (ucast (p :: byte) :: u32) = unat p"
proof -
  have "unat p < 2 ^ 32" by (rule less_trans [OF unat_byte_less]) simp
  then show ?thesis by (simp add: unsigned_ucast_eq take_bit_nat_eq_self)
qed

lemma unat_add_byte:
  "unat (x :: u32) < 4294967040 \<Longrightarrow> unat (x + ucast (p :: byte)) = unat x + unat p"
  using unat_small_add [of x "ucast p"] unat_byte_less [of p]
  by (simp only: unat_ucast_byte)

lemma represents_bounds:
  assumes "represents s a b"
  shows "unat (fst s) < 65521" and "unat (snd s) < 65521"
  using assms by (simp_all add: represents_def DELTA_ADLER32_MODULUS_def)

lemma adler_step_represents:
  assumes rep: "represents s a b"
  shows "represents (adler_step s p) (a + unat p) (b + (a + unat p))"
proof -
  let ?M = "DELTA_ADLER32_MODULUS"
  note bounds = represents_bounds [OF rep] unat_byte_less [of p]
  let ?s1 = "(fst s + ucast p) mod word_of_nat ?M"
  have "unat (fst s + ucast p) = unat (fst s) + unat p"
    using bounds by (intro unat_add_byte) linarith
  then have s1: "unat ?s1 = (a + unat p) mod ?M"
    using rep by (simp add: represents_def unat_mod mod_add_left_eq)
  then have lt: "unat ?s1 < 65521"
    by (simp add: DELTA_ADLER32_MODULUS_def)
  have "unat (snd s + ?s1) = unat (snd s) + unat ?s1"
    using bounds lt by (intro unat_small_add) linarith
  then have "unat ((snd s + ?s1) mod word_of_nat ?M) = (b mod ?M + (a + unat p) mod ?M) mod ?M"
    using rep s1 by (simp add: represents_def unat_mod)
  with s1 show ?thesis
    by (simp add: adler_step_def represents_def Let_def mod_simps)
qed

lemma adler_sums_represents: "represents (adler_sums xs) (adler_a xs) (adler_b xs)"
proof (induction xs rule: rev_induct)
  case Nil
  then show ?case
    by (simp add: adler_sums_def represents_def adler_a_def DELTA_ADLER32_MODULUS_def)
next
  case (snoc x xs)
  from adler_step_represents [OF snoc, of x] show ?case
    by (simp add: adler_sums_def adler_a_snoc adler_b_snoc)
qed

lemma mod_diff_nat:
  fixes a b c m :: nat
  assumes "0 < m" and "a mod m = (b + c) mod m"
  shows "(a mod m + m - c mod m) mod m = b mod m"
proof -
  have "c mod m \<le> m" using assms(1) by (simp add: less_imp_le)
  then have "int (a mod m + m - c mod m) = int a mod int m + int m - int c mod int m"
    by (simp add: zmod_int)
  moreover have "(int a mod int m + int m - int c mod int m) mod int m = (int a - int c) mod int m"
    by (metis (no_types) add.commute add_diff_eq mod_add_self1 mod_diff_eq mod_mod_trivial)
  moreover have "(int a - int c) mod int m = int b mod int m"
  proof -
    have "int a mod int m = int (b + c) mod int m"
      using assms(2) by (metis zmod_int)
    then have "(int a - int c) mod int m = (int (b + c) - int c) mod int m"
      by (rule mod_diff_cong) simp
    then show ?thesis by simp
  qed
  ultimately show ?thesis
    by (metis of_nat_eq_iff zmod_int)
qed

lemma mod_pred_cong:
  fixes a b m :: nat
  assumes "a mod m = (b + 1) mod m" and "1 \<le> a"
  shows "(a - 1) mod m = b mod m"
proof -
  from assms(2) obtain c where "a = c + 1" by (metis le_add_diff_inverse2)
  with assms(1) show ?thesis by (simp add: nat_mod_eq_iff)
qed

text \<open>
  The update on words computes the reduced sums of the new window: none of the intermediate
  additions wraps and none of the subtractions borrows.
\<close>

lemma adler_roll_unat:
  assumes s1: "unat (fst s) < 65521" and s2: "unat (snd s) < 65521"
  shows "unat (fst (adler_roll n s x y)) = (unat (fst s) + 65521 - unat x + unat y) mod 65521"
    and "unat (snd (adler_roll n s x y)) =
      (unat (snd s) + 65521 - (n * unat x) mod 65521 + unat (fst (adler_roll n s x y)) - 1) mod 65521"
proof -
  let ?m = "word_of_nat DELTA_ADLER32_MODULUS :: u32"
  let ?s1 = "fst (adler_roll n s x y)"
  have m: "unat ?m = 65521" by (simp add: DELTA_ADLER32_MODULUS_def)
  note bx = unat_byte_less [of x] unat_byte_less [of y]
  have a: "unat (fst s + ?m) = unat (fst s) + 65521"
    using s1 m by (subst unat_small_add) linarith+
  have b: "unat (fst s + ?m - ucast x) = unat (fst s) + 65521 - unat x"
    using a bx unat_ucast_byte [of x] by (subst unat_small_diff) linarith+
  have c: "unat (fst s + ?m - ucast x + ucast y) = unat (fst s) + 65521 - unat x + unat y"
    using b s1 bx by (subst unat_add_byte) linarith+
  have eq1: "?s1 = (fst s + ?m - ucast x + ucast y) mod ?m"
    by (simp add: adler_roll_def Let_def)
  show r1: "unat ?s1 = (unat (fst s) + 65521 - unat x + unat y) mod 65521"
    unfolding eq1 unat_mod m c ..
  have lt: "unat ?s1 < 65521" unfolding r1 by simp
  let ?q = "(n * unat x) mod 65521"
  have q: "?q < 65521" by simp
  then have qw: "unat (word_of_nat ?q :: u32) = ?q" by (simp add: unat_of_nat)
  have d: "unat (snd s + ?m) = unat (snd s) + 65521"
    using s2 m by (subst unat_small_add) linarith+
  have e: "unat (snd s + ?m - word_of_nat ?q) = unat (snd s) + 65521 - ?q"
    using d q qw by (subst unat_small_diff) linarith+
  have f: "unat (snd s + ?m - word_of_nat ?q + ?s1) = unat (snd s) + 65521 - ?q + unat ?s1"
    using e q s2 lt by (subst unat_small_add) linarith+
  have g: "unat (snd s + ?m - word_of_nat ?q + ?s1 - 1) = unat (snd s) + 65521 - ?q + unat ?s1 - 1"
    using f q unat_small_diff [of 1 "snd s + ?m - word_of_nat ?q + ?s1"] by simp
  have eq2: "snd (adler_roll n s x y) = (snd s + ?m - word_of_nat ?q + ?s1 - 1) mod ?m"
    by (simp add: adler_roll_def Let_def DELTA_ADLER32_MODULUS_def)
  show "unat (snd (adler_roll n s x y)) = (unat (snd s) + 65521 - ?q + unat ?s1 - 1) mod 65521"
    unfolding eq2 unat_mod m g ..
qed

lemma adler_roll_represents:
  assumes rep: "represents s (adler_a (x # ys)) (adler_b (x # ys))" and n: "n = Suc (length ys)"
  shows "represents (adler_roll n s x y) (adler_a (ys @ [y])) (adler_b (ys @ [y]))"
proof -
  let ?M = "65521 :: nat"
  let ?r = "adler_roll n s x y"
  note [simp] = DELTA_ADLER32_MODULUS_def
  note roll = adler_roll_unat [OF represents_bounds [OF rep], of n x y]
  have xs: "unat x mod ?M = unat x" by (rule mod_less) (rule less_trans [OF unat_byte_less], simp)
  have "(adler_a (x # ys) mod ?M + ?M - unat x mod ?M) mod ?M = adler_a ys mod ?M"
    by (rule mod_diff_nat) (simp_all add: adler_a_Cons)
  then have "(adler_a (x # ys) mod ?M + ?M - unat x + unat y) mod ?M = (adler_a ys + unat y) mod ?M"
    unfolding xs by (rule mod_add_cong) simp
  then have s1: "unat (fst ?r) = adler_a (ys @ [y]) mod ?M"
    using roll(1) rep by (simp add: represents_def adler_a_snoc)
  let ?q = "(n * unat x) mod ?M"
  have "(adler_b (x # ys) mod ?M + ?M - ?q) mod ?M = (adler_b ys + 1) mod ?M"
    by (rule mod_diff_nat) (simp_all add: n)
  then have "(adler_b (x # ys) mod ?M + ?M - ?q + unat (fst ?r)) mod ?M
      = (adler_b ys + 1 + adler_a (ys @ [y])) mod ?M"
    unfolding s1 by (rule mod_add_cong) simp
  then have eq: "(adler_b (x # ys) mod ?M + ?M - ?q + unat (fst ?r)) mod ?M
      = (adler_b ys + adler_a (ys @ [y]) + 1) mod ?M"
    by (simp only: ac_simps)
  have "?q < ?M" by simp
  then have "1 \<le> adler_b (x # ys) mod ?M + ?M - ?q + unat (fst ?r)" by linarith
  then have "(adler_b (x # ys) mod ?M + ?M - ?q + unat (fst ?r) - 1) mod ?M
      = (adler_b ys + adler_a (ys @ [y])) mod ?M"
    by (rule mod_pred_cong [OF eq])
  then have "unat (snd ?r) = adler_b (ys @ [y]) mod ?M"
    using roll(2) rep by (simp add: represents_def adler_b_snoc)
  with s1 show ?thesis by (simp add: represents_def)
qed

lemma adler_roll_sums:
  "n = Suc (length ys) \<Longrightarrow> adler_roll n (adler_sums (x # ys)) x y = adler_sums (ys @ [y])"
  by (rule represents_unique [OF adler_roll_represents adler_sums_represents])
    (rule adler_sums_represents)


section \<open>Properties\<close>

text \<open>C6: Rolling the weak checksum one byte on equals computing it afresh: for a window \<open>x # ys\<close> of
  \<open>n\<close> bytes, the 32-bit wrap-around update with the leaving byte \<open>x\<close> and the entering byte \<open>y\<close>
  packs to the Adler-32 of the window \<open>ys @ [y]\<close>.\<close>

theorem adler_roll_correct:
  "n = Suc (length ys) \<Longrightarrow>
   adler_pack (adler_roll n (adler_sums (x # ys)) x y) = delta_adler32 (ys @ [y])"
  by (simp add: adler_roll_sums delta_adler32_def)

theorem adler_roll_correct_witness:
  "adler_pack (adler_roll 3 (adler_sums [250, 7, 255]) 250 9) = delta_adler32 [7, 255, 9]"
  using adler_roll_correct [of 3 "[7, 255]" 250 9] by simp

end
