(* ===== verification/Delta_Index.thy ===== *)
theory Delta_Index
  imports Adler
begin

text \<open>
  Block signatures and the lookup of a window among them (\<open>src/src/shared/delta.c\<close>): the
  signature record, the bucket index with its chains (\<open>delta_build_index\<close>), and
  \<open>delta_find_match\<close>, which walks a chain when the index could be allocated and scans the blocks
  otherwise. Both ways are shown to find the same block, the lowest one that matches.

  The index is one array, as in the source: heads, then tails, then links. The offset of the links,
  \<open>2 * bucket_count\<close>, is computed in 32 bits there and here; up to \<open>2 ^ 31 - 1\<close> buckets the three parts
  are apart (\<open>index_parts\<close>), which is what the lookup needs. A pointer into the array is the rest of
  the list from there; a block index or a bucket content is a \<open>nat\<close>, with \<open>DELTA_NO_BLOCK\<close> for the
  all-ones word.
\<close>

section \<open>Definitions\<close>

record delta_block_sig =
  adler32 :: u32
  xxhash :: u32

text \<open>The block count is the length of the block list.\<close>

record delta_signature =
  file_size :: nat
  block_size :: nat
  blocks :: "delta_block_sig list"

abbreviation block_count :: "delta_signature \<Rightarrow> nat" where
  "block_count sig \<equiv> length (blocks sig)"

text \<open>xxHash32 is a library function: its value on the bytes and the seed is a parameter.\<close>

type_synonym xxh32 = "buffer \<Rightarrow> u32 \<Rightarrow> u32"

definition delta_xxhash32_seeded :: "xxh32 \<Rightarrow> buffer \<Rightarrow> u32 \<Rightarrow> u32" where
  "delta_xxhash32_seeded xxh data seed = xxh data seed"

definition DELTA_NO_BLOCK :: nat where
  "DELTA_NO_BLOCK = UINT32_MAX"

definition delta_adler_mix :: "u32 \<Rightarrow> u32" where
  "delta_adler_mix h =
     (let h = h XOR drop_bit 16 h;
          h = h * 0x7feb352d;
          h = h XOR drop_bit 15 h;
          h = h * 0x846ca68b;
          h = h XOR drop_bit 16 h
      in h)"

definition delta_next_pow2 :: "u32 \<Rightarrow> u32" where
  "delta_next_pow2 v =
     (let v = v - 1;
          v = v OR drop_bit 1 v;
          v = v OR drop_bit 2 v;
          v = v OR drop_bit 4 v;
          v = v OR drop_bit 8 v;
          v = v OR drop_bit 16 v
      in v + 1)"

definition bucket_of :: "u32 \<Rightarrow> u32 \<Rightarrow> nat" where
  "bucket_of bmask a = unat (delta_adler_mix a AND bmask)"

text \<open>Where the tails and the links start, counted from the base of the array.\<close>

definition tails_offset :: "u32 \<Rightarrow> nat" where
  "tails_offset bucket_count = unat bucket_count"

definition next_offset :: "u32 \<Rightarrow> nat" where
  "next_offset bucket_count = unat (2 * bucket_count)"

text \<open>The body of the insertion loop, for block \<open>j\<close>.\<close>

definition index_insert :: "u32 \<Rightarrow> delta_signature \<Rightarrow> nat \<Rightarrow> nat list \<Rightarrow> nat list" where
  "index_insert bucket_count sig j ix =
     (let b = bucket_of (bucket_count - 1) (adler32 (blocks sig ! j));
          ix = (if ix ! b = DELTA_NO_BLOCK then ix[b := j]
                else ix[next_offset bucket_count + ix ! (tails_offset bucket_count + b) := j]);
          ix = ix[tails_offset bucket_count + b := j]
      in ix[next_offset bucket_count + j := DELTA_NO_BLOCK])"

text \<open>
  The links are not initialised by the allocation; every link is written when its block is
  inserted. Any content does, zeros are taken.
\<close>

definition index_init :: "nat \<Rightarrow> nat \<Rightarrow> nat list" where
  "index_init bucket_count n = replicate (2 * bucket_count) DELTA_NO_BLOCK @ replicate n 0"

definition delta_build_index ::
  "allocator \<Rightarrow> delta_signature \<Rightarrow> u32 \<Rightarrow> nat list option" where
  "delta_build_index mem sig bucket_count =
     (if block_count sig = 0 \<or> bucket_count = 0 then None
      else let entries = 2 * unat bucket_count + block_count sig in
        if SIZE_MAX div 4 < entries then None
        else if \<not> mem (entries * 4) then None
        else Some (fold (index_insert bucket_count sig) [0..<block_count sig]
                    (index_init (unat bucket_count) (block_count sig))))"

text \<open>
  The chain walk of \<open>delta_find_match\<close>. It has no bound of its own: \<open>None\<close> stands for a walk that
  has not ended after \<open>fuel\<close> links.
\<close>

fun chain_walk ::
  "nat \<Rightarrow> delta_signature \<Rightarrow> nat list \<Rightarrow> u32 \<Rightarrow> u32 \<Rightarrow> nat \<Rightarrow> nat option" where
  "chain_walk 0 sig lnk adler window_xxh j = None"
| "chain_walk (Suc fuel) sig lnk adler window_xxh j =
     (if j = DELTA_NO_BLOCK then Some DELTA_NO_BLOCK
      else if adler32 (blocks sig ! j) \<noteq> adler
        then chain_walk fuel sig lnk adler window_xxh (lnk ! j)
      else if window_xxh = xxhash (blocks sig ! j) then Some j
      else chain_walk fuel sig lnk adler window_xxh (lnk ! j))"

text \<open>The linear scan, from block \<open>j\<close> on.\<close>

fun linear_scan :: "delta_block_sig list \<Rightarrow> u32 \<Rightarrow> u32 \<Rightarrow> nat \<Rightarrow> nat" where
  "linear_scan [] adler window_xxh j = DELTA_NO_BLOCK"
| "linear_scan (b # bs) adler window_xxh j =
     (if adler32 b = adler \<and> window_xxh = xxhash b then j
      else linear_scan bs adler window_xxh (Suc j))"

text \<open>\<open>index\<close> holds the pointers \<open>heads\<close> and \<open>next\<close>, which are null together.\<close>

definition delta_find_match ::
  "xxh32 \<Rightarrow> buffer \<Rightarrow> u32 \<Rightarrow> bool \<Rightarrow> delta_signature \<Rightarrow> (nat list \<times> nat list) option \<Rightarrow> u32 \<Rightarrow> u32 \<Rightarrow> nat option"
where
  "delta_find_match xxh window adler full_window sig index bmask seed =
     (if \<not> full_window \<or> block_count sig = 0 then Some DELTA_NO_BLOCK
      else let window_xxh = delta_xxhash32_seeded xxh window seed in
        (case index of
           Some (hds, nxt) \<Rightarrow>
             chain_walk (Suc (block_count sig)) sig nxt adler window_xxh
               (hds ! bucket_of bmask adler)
         | None \<Rightarrow> Some (linear_scan (blocks sig) adler window_xxh 0)))"

section \<open>The parts of the index\<close>

record delta_index =
  heads :: "nat list"
  tails :: "nat list"
  links :: "nat list"

definition index_parts :: "nat \<Rightarrow> nat list \<Rightarrow> delta_index" where
  "index_parts n ix = \<lparr>heads = take n ix, tails = take n (drop n ix), links = drop (2 * n) ix\<rparr>"

definition parts_insert :: "u32 \<Rightarrow> delta_signature \<Rightarrow> nat \<Rightarrow> delta_index \<Rightarrow> delta_index" where
  "parts_insert bmask sig j ix =
     (let b = bucket_of bmask (adler32 (blocks sig ! j));
          ix' = (if heads ix ! b = DELTA_NO_BLOCK
                 then ix\<lparr>heads := (heads ix)[b := j]\<rparr>
                 else ix\<lparr>links := (links ix)[tails ix ! b := j]\<rparr>)
      in ix'\<lparr>tails := (tails ix')[b := j], links := (links ix')[j := DELTA_NO_BLOCK]\<rparr>)"

lemma index_parts_update:
  "k < n \<Longrightarrow> index_parts n (ix[k := v]) = (index_parts n ix)\<lparr>heads := (heads (index_parts n ix))[k := v]\<rparr>"
  "k < n \<Longrightarrow> index_parts n (ix[n + k := v]) = (index_parts n ix)\<lparr>tails := (tails (index_parts n ix))[k := v]\<rparr>"
  "index_parts n (ix[2 * n + k := v]) = (index_parts n ix)\<lparr>links := (links (index_parts n ix))[k := v]\<rparr>"
  by (simp_all add: index_parts_def take_update_swap drop_update_swap list_update_beyond mult_2)

lemma index_parts_nth:
  "k < n \<Longrightarrow> heads (index_parts n ix) ! k = ix ! k"
  "k < n \<Longrightarrow> 2 * n \<le> length ix \<Longrightarrow> tails (index_parts n ix) ! k = ix ! (n + k)"
  by (simp_all add: index_parts_def)

text \<open>With fewer than \<open>2 ^ 31\<close> buckets the offsets do not wrap, and an insertion works on the parts.\<close>

lemma next_offset_eq: "unat bucket_count < 2 ^ 31 \<Longrightarrow> next_offset bucket_count = 2 * unat bucket_count"
  by (simp add: next_offset_def unat_word_ariths)

lemma index_insert_length [simp]: "length (index_insert bucket_count sig j ix) = length ix"
  by (simp add: index_insert_def Let_def)

lemma bucket_of_less: "bucket_count \<noteq> 0 \<Longrightarrow> bucket_of (bucket_count - 1) a < unat bucket_count"
proof -
  assume "bucket_count \<noteq> 0"
  then have "unat (bucket_count - 1) < unat bucket_count" by (simp add: unat_minus_one unat_gt_0)
  moreover have "bucket_of (bucket_count - 1) a \<le> unat (bucket_count - 1)"
    unfolding bucket_of_def by (simp add: word_and_le1 flip: word_le_nat_alt)
  ultimately show ?thesis by simp
qed

lemma index_insert_parts:
  assumes "bucket_count \<noteq> 0" and "unat bucket_count < 2 ^ 31" and "2 * unat bucket_count \<le> length ix"
  shows "index_parts (unat bucket_count) (index_insert bucket_count sig j ix) =
    parts_insert (bucket_count - 1) sig j (index_parts (unat bucket_count) ix)"
proof -
  define b where "b = bucket_of (bucket_count - 1) (adler32 (blocks sig ! j))"
  have b: "b < unat bucket_count" unfolding b_def by (rule bucket_of_less [OF assms(1)])
  show ?thesis
    unfolding index_insert_def parts_insert_def Let_def b_def [symmetric] next_offset_eq [OF assms(2)] tails_offset_def
    using index_parts_nth [OF b, of ix] assms(3) by (simp add: index_parts_update b)
qed

lemma index_fold_parts:
  assumes "bucket_count \<noteq> 0" and "unat bucket_count < 2 ^ 31" and "2 * unat bucket_count \<le> length ix"
  shows "index_parts (unat bucket_count) (fold (index_insert bucket_count sig) js ix) =
    fold (parts_insert (bucket_count - 1) sig) js (index_parts (unat bucket_count) ix)"
  using assms(3) by (induction js arbitrary: ix) (simp_all add: index_insert_parts [OF assms(1,2)])

section \<open>The chains of a bucket\<close>

text \<open>\<open>chain lnk h ks\<close>: following the links from \<open>h\<close> visits exactly \<open>ks\<close>.\<close>

fun chain :: "nat list \<Rightarrow> nat \<Rightarrow> nat list \<Rightarrow> bool" where
  "chain lnk h [] \<longleftrightarrow> h = DELTA_NO_BLOCK"
| "chain lnk h (k # ks) \<longleftrightarrow> h = k \<and> k \<noteq> DELTA_NO_BLOCK \<and> chain lnk (lnk ! k) ks"

lemma chain_cong: "chain lnk h ks \<Longrightarrow> (\<And>k. k \<in> set ks \<Longrightarrow> lnk' ! k = lnk ! k) \<Longrightarrow> chain lnk' h ks"
  by (induction ks arbitrary: h) auto

lemma chain_snoc:
  assumes "chain lnk h ks" and "ks \<noteq> []" and "distinct ks" and "j \<notin> set ks"
    and "j \<noteq> DELTA_NO_BLOCK" and "last ks < length lnk" and "j < length lnk"
  shows "chain (lnk[last ks := j, j := DELTA_NO_BLOCK]) h (ks @ [j])"
  using assms
proof (induction ks arbitrary: h)
  case Nil
  then show ?case by simp
next
  case (Cons k ks)
  show ?case
  proof (cases "ks = []")
    case True
    with Cons.prems show ?thesis by auto
  next
    case False
    then have l: "last (k # ks) = last ks" and "last ks \<in> set ks" by auto
    with Cons.prems have "k \<noteq> last ks" and "k \<noteq> j" by auto
    moreover from False Cons have
      "chain (lnk[last ks := j, j := DELTA_NO_BLOCK]) (lnk ! k) (ks @ [j])" by auto
    ultimately show ?thesis using Cons.prems l by simp
  qed
qed

text \<open>
  What the index holds after the blocks below \<open>n\<close> have been inserted: every bucket's chain lists
  its blocks in ascending order.
\<close>

definition bucket_blocks :: "u32 \<Rightarrow> delta_signature \<Rightarrow> nat \<Rightarrow> nat \<Rightarrow> nat list" where
  "bucket_blocks bmask sig n b =
     filter (\<lambda>k. bucket_of bmask (adler32 (blocks sig ! k)) = b) [0..<n]"

definition index_inv :: "u32 \<Rightarrow> delta_signature \<Rightarrow> nat \<Rightarrow> delta_index \<Rightarrow> bool" where
  "index_inv bmask sig n ix \<longleftrightarrow>
     length (heads ix) = Suc (unat bmask) \<and> length (tails ix) = Suc (unat bmask) \<and>
     length (links ix) = block_count sig \<and>
     (\<forall>b \<le> unat bmask.
        chain (links ix) (heads ix ! b) (bucket_blocks bmask sig n b) \<and>
        (bucket_blocks bmask sig n b \<noteq> [] \<longrightarrow> tails ix ! b = last (bucket_blocks bmask sig n b)))"

lemma index_inv_lengths:
  "index_inv bmask sig n ix \<Longrightarrow> length (heads ix) = Suc (unat bmask) \<and>
     length (tails ix) = Suc (unat bmask) \<and> length (links ix) = block_count sig"
  by (simp add: index_inv_def)

lemma index_inv_chain:
  "index_inv bmask sig n ix \<Longrightarrow> b \<le> unat bmask \<Longrightarrow>
     chain (links ix) (heads ix ! b) (bucket_blocks bmask sig n b)"
  by (simp add: index_inv_def)

lemma index_inv_tail:
  "index_inv bmask sig n ix \<Longrightarrow> b \<le> unat bmask \<Longrightarrow> bucket_blocks bmask sig n b \<noteq> [] \<Longrightarrow>
     tails ix ! b = last (bucket_blocks bmask sig n b)"
  by (simp add: index_inv_def)

lemma bucket_of_le: "bucket_of bmask a \<le> unat bmask"
  unfolding bucket_of_def by (simp add: word_and_le1 flip: word_le_nat_alt)

lemma bucket_blocks_Suc:
  "bucket_blocks bmask sig (Suc n) b =
     bucket_blocks bmask sig n b @
     (if bucket_of bmask (adler32 (blocks sig ! n)) = b then [n] else [])"
  by (simp add: bucket_blocks_def)

lemma bucket_blocks_less: "k \<in> set (bucket_blocks bmask sig n b) \<Longrightarrow> k < n"
  by (simp add: bucket_blocks_def)

lemma bucket_blocks_distinct: "distinct (bucket_blocks bmask sig n b)"
  by (simp add: bucket_blocks_def)

lemma bucket_blocks_disjoint:
  "k \<in> set (bucket_blocks bmask sig n b) \<Longrightarrow> k \<in> set (bucket_blocks bmask sig n c) \<Longrightarrow> b = c"
  by (simp add: bucket_blocks_def)

lemma parts_insert_inv:
  assumes inv: "index_inv bmask sig n ix" and n: "n < block_count sig"
    and small: "block_count sig \<le> DELTA_NO_BLOCK"
  shows "index_inv bmask sig (Suc n) (parts_insert bmask sig n ix)"
proof -
  define b where "b = bucket_of bmask (adler32 (blocks sig ! n))"
  let ?ks = "bucket_blocks bmask sig n"
  let ?ix = "parts_insert bmask sig n ix"
  have b: "b \<le> unat bmask" unfolding b_def by (rule bucket_of_le)
  have nn: "n \<noteq> DELTA_NO_BLOCK" using n small by simp
  note lens = index_inv_lengths [OF inv]
  note tail = index_inv_tail [OF inv b]
  have empty: "heads ix ! b = DELTA_NO_BLOCK \<longleftrightarrow> ?ks b = []"
    using index_inv_chain [OF inv b] by (cases "?ks b") auto
  have ins: "?ix = (if ?ks b = [] then
        ix\<lparr>heads := (heads ix)[b := n], tails := (tails ix)[b := n],
           links := (links ix)[n := DELTA_NO_BLOCK]\<rparr>
      else ix\<lparr>tails := (tails ix)[b := n],
              links := (links ix)[last (?ks b) := n, n := DELTA_NO_BLOCK]\<rparr>)"
    using tail by (simp add: parts_insert_def Let_def empty flip: b_def)
  have Suc_ks: "bucket_blocks bmask sig (Suc n) c = ?ks c @ (if c = b then [n] else [])" for c
    by (auto simp: bucket_blocks_Suc b_def)
  have new: "chain (links ?ix) (heads ?ix ! b) (?ks b @ [n]) \<and> tails ?ix ! b = n"
  proof (cases "?ks b = []")
    case True
    then show ?thesis using lens b n nn by (simp add: ins)
  next
    case False
    then have "last (?ks b) < n" by (meson bucket_blocks_less last_in_set)
    moreover have "n \<notin> set (?ks b)" using bucket_blocks_less by blast
    ultimately have
      "chain ((links ix)[last (?ks b) := n, n := DELTA_NO_BLOCK]) (heads ix ! b) (?ks b @ [n])"
      using False n nn lens
      by (intro chain_snoc index_inv_chain [OF inv b] bucket_blocks_distinct) auto
    with False lens b show ?thesis by (simp add: ins)
  qed
  have old: "chain (links ?ix) (heads ?ix ! c) (?ks c) \<and> tails ?ix ! c = tails ix ! c"
    if c: "c \<le> unat bmask" "c \<noteq> b" for c
  proof -
    have "links ?ix ! k = links ix ! k" if k: "k \<in> set (?ks c)" for k
    proof -
      have "k \<noteq> n" using k bucket_blocks_less by blast
      moreover have "k \<noteq> last (?ks b)" if "?ks b \<noteq> []"
        using k c(2) bucket_blocks_disjoint last_in_set [OF that] by blast
      ultimately show ?thesis by (cases "?ks b = []") (simp_all add: ins)
    qed
    then have "chain (links ?ix) (heads ix ! c) (?ks c)"
      by (rule chain_cong [OF index_inv_chain [OF inv c(1)]])
    moreover have "heads ?ix ! c = heads ix ! c" "tails ?ix ! c = tails ix ! c"
      using c(2) by (simp_all add: ins)
    ultimately show ?thesis by simp
  qed
  have "chain (links ?ix) (heads ?ix ! c) (bucket_blocks bmask sig (Suc n) c) \<and>
      (bucket_blocks bmask sig (Suc n) c \<noteq> [] \<longrightarrow>
       tails ?ix ! c = last (bucket_blocks bmask sig (Suc n) c))" if "c \<le> unat bmask" for c
    using new old [OF that] index_inv_tail [OF inv that] by (cases "c = b") (simp_all add: Suc_ks)
  moreover have "length (heads ?ix) = Suc (unat bmask)" "length (tails ?ix) = Suc (unat bmask)"
    "length (links ?ix) = block_count sig"
    using lens by (simp_all add: ins)
  ultimately show ?thesis unfolding index_inv_def by blast
qed

lemma index_init_inv:
  "bucket_count \<noteq> 0 \<Longrightarrow>
   index_inv (bucket_count - 1) sig 0 (index_parts (unat bucket_count) (index_init (unat bucket_count) (block_count sig)))"
proof -
  assume nz: "bucket_count \<noteq> 0"
  define m where "m = unat (bucket_count - 1)"
  with nz have "unat bucket_count = Suc m"
    by (simp add: unat_minus_one unat_gt_0)
  then show ?thesis
    unfolding index_inv_def index_init_def index_parts_def bucket_blocks_def m_def [symmetric]
    by (simp add: nth_append nth_Cons' del: replicate.simps)
qed

lemma index_fold_inv:
  assumes "index_inv bmask sig 0 ix" and "n \<le> block_count sig" and "block_count sig \<le> DELTA_NO_BLOCK"
  shows "index_inv bmask sig n (fold (parts_insert bmask sig) [0..<n] ix)"
  using assms(2) by (induction n) (use assms in \<open>auto intro: parts_insert_inv\<close>)

text \<open>What a usable index is: absent, or with parts that list the blocks of this signature.\<close>

definition index_ok :: "delta_signature \<Rightarrow> (nat list \<times> nat list) option \<Rightarrow> u32 \<Rightarrow> bool" where
  "index_ok sig index bmask \<longleftrightarrow>
     (case index of
        None \<Rightarrow> True
      | Some (hds, nxt) \<Rightarrow>
          nxt = links (index_parts (Suc (unat bmask)) hds) \<and>
          index_inv bmask sig (block_count sig) (index_parts (Suc (unat bmask)) hds))"

lemma delta_build_index_ok:
  assumes "delta_build_index mem sig bucket_count = Some ix" and "block_count sig \<le> DELTA_NO_BLOCK"
    and "unat bucket_count < 2 ^ 31"
  shows "index_ok sig (Some (ix, drop (next_offset bucket_count) ix)) (bucket_count - 1)"
proof -
  have nz: "bucket_count \<noteq> 0" and ix: "ix = fold (index_insert bucket_count sig) [0..<block_count sig]
      (index_init (unat bucket_count) (block_count sig))"
    using assms(1) by (auto simp: delta_build_index_def Let_def split: if_splits)
  have n: "Suc (unat (bucket_count - 1)) = unat bucket_count" using nz by (simp add: unat_minus_one unat_gt_0)
  have "index_inv (bucket_count - 1) sig (block_count sig) (index_parts (unat bucket_count) ix)"
    unfolding ix by (subst index_fold_parts [OF nz assms(3)])
      (simp_all add: index_init_def index_fold_inv [OF index_init_inv [OF nz, unfolded index_init_def] order_refl assms(2)])
  then show ?thesis by (simp add: index_ok_def n next_offset_eq [OF assms(3)] index_parts_def)
qed

section \<open>Equivalence of the two lookups\<close>

definition block_matches :: "delta_signature \<Rightarrow> u32 \<Rightarrow> u32 \<Rightarrow> nat \<Rightarrow> bool" where
  "block_matches sig adler window_xxh k \<longleftrightarrow>
     adler32 (blocks sig ! k) = adler \<and> window_xxh = xxhash (blocks sig ! k)"

definition lowest_match :: "delta_signature \<Rightarrow> u32 \<Rightarrow> u32 \<Rightarrow> nat" where
  "lowest_match sig adler window_xxh =
     (case find (block_matches sig adler window_xxh) [0..<block_count sig] of
        None \<Rightarrow> DELTA_NO_BLOCK | Some k \<Rightarrow> k)"

lemma chain_walk_find:
  assumes "chain lnk h ks" and "length ks < fuel"
  shows "chain_walk fuel sig lnk adler window_xxh h =
    Some (case find (block_matches sig adler window_xxh) ks of None \<Rightarrow> DELTA_NO_BLOCK | Some k \<Rightarrow> k)"
  using assms
proof (induction ks arbitrary: h fuel)
  case Nil
  then show ?case by (cases fuel) auto
next
  case (Cons k ks)
  then show ?case by (cases fuel) (auto simp: block_matches_def)
qed

lemma linear_scan_find:
  "linear_scan bs adler window_xxh j =
     (case find (\<lambda>k. adler32 (bs ! (k - j)) = adler \<and> window_xxh = xxhash (bs ! (k - j)))
        [j..<j + length bs] of None \<Rightarrow> DELTA_NO_BLOCK | Some k \<Rightarrow> k)"
proof (induction bs arbitrary: j)
  case Nil
  then show ?case by simp
next
  case (Cons b bs)
  have up: "[j..<j + length (b # bs)] = j # [Suc j..<Suc j + length bs]"
    by (simp add: upt_conv_Cons del: upt_Suc)
  have "find (\<lambda>k. adler32 ((b # bs) ! (k - j)) = adler \<and> window_xxh = xxhash ((b # bs) ! (k - j)))
      [Suc j..<Suc j + length bs]
    = find (\<lambda>k. adler32 (bs ! (k - Suc j)) = adler \<and> window_xxh = xxhash (bs ! (k - Suc j)))
      [Suc j..<Suc j + length bs]"
    by (rule find_cong) (auto simp: nth_Cons')
  with Cons [of "Suc j"] show ?case unfolding up by simp
qed

lemma linear_scan_lowest: "linear_scan (blocks sig) adler window_xxh 0 = lowest_match sig adler window_xxh"
  by (simp add: linear_scan_find lowest_match_def block_matches_def [abs_def])

lemma find_filter_absorb:
  "(\<And>k. k \<in> set ks \<Longrightarrow> P k \<Longrightarrow> Q k) \<Longrightarrow> find P (filter Q ks) = find P ks"
  by (induction ks) auto

lemma bucket_find:
  "find (block_matches sig adler window_xxh) (bucket_blocks bmask sig n (bucket_of bmask adler)) =
   find (block_matches sig adler window_xxh) [0..<n]"
  unfolding bucket_blocks_def by (rule find_filter_absorb) (simp add: block_matches_def)

lemma chain_walk_lowest:
  assumes "index_ok sig (Some (hds, nxt)) bmask"
  shows "chain_walk (Suc (block_count sig)) sig nxt adler window_xxh
    (hds ! bucket_of bmask adler) = Some (lowest_match sig adler window_xxh)"
proof -
  let ?ks = "bucket_blocks bmask sig (block_count sig) (bucket_of bmask adler)"
  let ?ix = "index_parts (Suc (unat bmask)) hds"
  have "chain (links ?ix) (heads ?ix ! bucket_of bmask adler) ?ks"
    using assms bucket_of_le by (intro index_inv_chain) (simp_all add: index_ok_def)
  then have "chain nxt (hds ! bucket_of bmask adler) ?ks"
    using assms bucket_of_le [of bmask adler] by (simp add: index_ok_def index_parts_nth(1))
  moreover have "length ?ks < Suc (block_count sig)"
    unfolding bucket_blocks_def using length_filter_le [of _ "[0..<block_count sig]"]
    by (simp add: less_Suc_eq_le)
  ultimately show ?thesis
    by (simp add: chain_walk_find bucket_find lowest_match_def del: chain_walk.simps)
qed

lemma delta_find_match_eq:
  assumes "index_ok sig index bmask"
  shows "delta_find_match xxh window adler full_window sig index bmask seed =
    Some (if full_window then lowest_match sig adler (xxh window seed) else DELTA_NO_BLOCK)"
proof (cases "full_window \<and> block_count sig \<noteq> 0")
  case True
  with assms show ?thesis
    by (auto simp: delta_find_match_def delta_xxhash32_seeded_def chain_walk_lowest
        linear_scan_lowest Let_def simp del: chain_walk.simps split: option.splits)
next
  case False
  then show ?thesis by (auto simp: delta_find_match_def lowest_match_def)
qed

lemma lowest_match_Some:
  assumes "lowest_match sig adler window_xxh \<noteq> DELTA_NO_BLOCK"
  shows "lowest_match sig adler window_xxh < block_count sig"
    and "adler32 (blocks sig ! lowest_match sig adler window_xxh) = adler"
    and "xxhash (blocks sig ! lowest_match sig adler window_xxh) = window_xxh"
proof -
  from assms obtain k where k: "find (block_matches sig adler window_xxh) [0..<block_count sig] = Some k"
    by (auto simp: lowest_match_def split: option.splits)
  then have m: "k < block_count sig" "block_matches sig adler window_xxh k"
    by (auto simp: find_Some_iff)
  have eq: "lowest_match sig adler window_xxh = k"
    using k by (simp add: lowest_match_def)
  show "lowest_match sig adler window_xxh < block_count sig"
    and "adler32 (blocks sig ! lowest_match sig adler window_xxh) = adler"
    and "xxhash (blocks sig ! lowest_match sig adler window_xxh) = window_xxh"
    unfolding eq using m unfolding block_matches_def by blast+
qed


text \<open>The bucket count the program asks for.\<close>

lemma small_word: "w < 2 ^ 28 \<longleftrightarrow> take_bit 28 w = (w :: u32)"
proof -
  have "w < 2 ^ 28 \<longleftrightarrow> unat w < 2 ^ 28" by (simp add: word_less_nat_alt)
  also have "\<dots> \<longleftrightarrow> unat (take_bit 28 w) = unat w" by (simp only: take_bit_nat_eq_self_iff unsigned_take_bit_eq)
  also have "\<dots> \<longleftrightarrow> take_bit 28 w = w" by (metis unsigned_word_eqI)
  finally show ?thesis .
qed

lemma small_or: "v < 2 ^ 28 \<Longrightarrow> (v :: u32) OR drop_bit k v < 2 ^ 28"
proof -
  assume "v < 2 ^ 28"
  then have hi: "n < 28" if "bit v n" for n
    using that unfolding small_word by (metis bit_take_bit_iff)
  show ?thesis
    unfolding small_word
    by (intro bit_eqI) (use hi in \<open>force simp: bit_take_bit_iff bit_or_iff bit_drop_bit_eq\<close>)
qed

lemma delta_next_pow2_small:
  assumes "0 < n" and "n \<le> 2 ^ 28"
  shows "unat (delta_next_pow2 (word_of_nat n)) \<le> 2 ^ 28"
proof -
  have n: "unat (word_of_nat n :: u32) = n" using assms by (simp add: unat_of_nat)
  with assms have "word_of_nat n \<noteq> (0 :: u32)" by (metis unat_0 less_irrefl)
  then have "unat (word_of_nat n - 1 :: u32) = n - 1" by (simp add: unat_minus_one n)
  then have v: "(word_of_nat n - 1 :: u32) < 2 ^ 28" using assms by (simp add: word_less_nat_alt)
  define v :: u32 where "v = word_of_nat n - 1"
  define w where "w = (let v = v OR drop_bit 1 v; v = v OR drop_bit 2 v; v = v OR drop_bit 4 v; v = v OR drop_bit 8 v
    in v OR drop_bit 16 v)"
  have w: "w < 2 ^ 28" unfolding w_def Let_def by (intro small_or) (use v in \<open>simp add: v_def\<close>)
  have "delta_next_pow2 (word_of_nat n) = w + 1" by (simp add: delta_next_pow2_def w_def v_def Let_def)
  moreover have "unat (w + 1) \<le> unat w + 1" unfolding unat_word_ariths(1) unat_1 by (rule mod_less_eq_dividend)
  moreover have "unat w < 2 ^ 28" using w by (simp add: word_less_nat_alt)
  ultimately show ?thesis by (metis Suc_eq_plus1 Suc_leI order_trans)
qed

section \<open>Properties\<close>

text \<open>C7: The bucket index is invisible. Whenever the index can be built, for fewer than \<open>2 ^ 31\<close> buckets
  (the program asks for at most \<open>2 ^ 28\<close>), looking a window up through it ends and returns the same block as the linear scan used when it cannot be built: the
  lowest-numbered block whose two checksums agree, or none.\<close>

theorem delta_index_transparent:
  assumes "delta_build_index mem sig bucket_count = Some ix" and "block_count sig \<le> DELTA_NO_BLOCK"
    and "unat bucket_count < 2 ^ 31"
  shows "delta_find_match xxh window adler full_window sig (Some (ix, drop (next_offset bucket_count) ix))
        (bucket_count - 1) seed =
      delta_find_match xxh window adler full_window sig None 0 seed \<and>
    delta_find_match xxh window adler full_window sig None 0 seed =
      Some (if full_window then lowest_match sig adler (xxh window seed) else DELTA_NO_BLOCK)"
proof -
  have "index_ok sig (Some (ix, drop (next_offset bucket_count) ix)) (bucket_count - 1)"
    by (rule delta_build_index_ok [OF assms])
  moreover have "index_ok sig None 0" by (simp add: index_ok_def)
  ultimately show ?thesis by (simp add: delta_find_match_eq)
qed

theorem delta_index_transparent_witness:
  "let sig = \<lparr>file_size = 5, block_size = 2, blocks = [\<lparr>adler32 = 7, xxhash = 1\<rparr>,
        \<lparr>adler32 = 7, xxhash = 2\<rparr>, \<lparr>adler32 = 9, xxhash = 2\<rparr>]\<rparr>
   in \<exists>ix. delta_build_index (\<lambda>_. True) sig 4 = Some ix \<and>
     delta_find_match (\<lambda>d s. 2) [0, 0] 7 True sig (Some (ix, drop 8 ix)) 3 0 = Some 1"
proof -
  let ?sig = "\<lparr>file_size = 5, block_size = 2, blocks = [\<lparr>adler32 = 7, xxhash = 1\<rparr>,
        \<lparr>adler32 = 7, xxhash = 2\<rparr>, \<lparr>adler32 = 9, xxhash = 2\<rparr>]\<rparr>"
  obtain ix where ix: "delta_build_index (\<lambda>_. True) ?sig 4 = Some ix"
    by (simp add: delta_build_index_def SIZE_MAX_def UINT64_MAX_def)
  have "block_count ?sig \<le> DELTA_NO_BLOCK" by (simp add: DELTA_NO_BLOCK_def UINT32_MAX_def)
  note t = delta_index_transparent [OF ix this, simplified, of "\<lambda>d s. 2" "[0, 0]" 7 True 0]
  have "lowest_match ?sig 7 2 = 1" by (simp add: lowest_match_def block_matches_def upt_rec)
  with t have "delta_find_match (\<lambda>d s. 2) [0, 0] 7 True ?sig (Some (ix, drop 8 ix)) 3 0 = Some 1"
    by (simp add: next_offset_def del: One_nat_def)
  with ix show ?thesis unfolding Let_def by blast
qed

end
