(* ===== verification/Delta.thy ===== *)
theory Delta
  imports Delta_Index
begin

text \<open>
  The delta transfer (\<open>src/src/shared/delta.c\<close>): the receiver's block signature, its wire form, the
  sender's instruction stream (\<open>delta_compute_seeded\<close>), the stream's wire form, and its application
  on the receiver (\<open>delta_apply\<close>). The theorems compose them: whatever the sender computes from a
  signature, sent over the wire and applied to the old file, gives the new file, as long as the
  checksum pair does not collide on the two files at hand; and a hostile stream never makes the
  receiver read or write out of range.

  Sizes and counts are \<open>nat\<close>; the ranges of the C types are part of the validity predicates. A
  literal's pointer and length are the list of its bytes. \<open>mem\<close> is the verdict of
  \<open>protocol_alloc\<close> on a request size, with the sizes of the C structs written out.
\<close>

section \<open>Definitions\<close>

definition MAX_DELTA_BLOCKS :: nat where
  "MAX_DELTA_BLOCKS = 1048576"

definition MAX_DELTA_INSTRUCTIONS :: nat where
  "MAX_DELTA_INSTRUCTIONS = 1048576"

definition DELTA_BLOCK_SIZE_MAX :: nat where
  "DELTA_BLOCK_SIZE_MAX = 65536"

definition DELTA_MAX_FILE_SIZE :: nat where
  "DELTA_MAX_FILE_SIZE = 268435456"

lemmas [limits] = MAX_DELTA_BLOCKS_def MAX_DELTA_INSTRUCTIONS_def DELTA_BLOCK_SIZE_MAX_def
  DELTA_MAX_FILE_SIZE_def DELTA_NO_BLOCK_def

subsection \<open>Signatures\<close>

definition block_sig :: "xxh32 \<Rightarrow> buffer \<Rightarrow> u32 \<Rightarrow> delta_block_sig" where
  "block_sig xxh data seed =
     \<lparr>adler32 = delta_adler32 data, xxhash = delta_xxhash32_seeded xxh data seed\<rparr>"

definition delta_signature_create_seeded ::
  "allocator \<Rightarrow> xxh32 \<Rightarrow> buffer \<Rightarrow> nat \<Rightarrow> u32 \<Rightarrow> delta_signature option" where
  "delta_signature_create_seeded mem xxh old bs seed =
     (let size = length old in
      if size = 0 \<or> bs = 0 then None
      else if DELTA_MAX_FILE_SIZE < size \<or> DELTA_BLOCK_SIZE_MAX < bs \<or> UINT32_MAX * bs < size
      then None
      else let count = (size + bs - 1) div bs in
        if \<not> mem 24 then None
        else if count = 0 then None
        else if \<not> mem (count * 8) then None
        else Some \<lparr>file_size = size, block_size = bs,
          blocks = map (\<lambda>i. let offset = i * bs;
                               len = (if size - offset < bs then size - offset else bs)
                           in block_sig xxh (take len (drop offset old)) seed) [0..<count]\<rparr>)"

definition delta_signature_create ::
  "allocator \<Rightarrow> xxh32 \<Rightarrow> buffer \<Rightarrow> nat \<Rightarrow> delta_signature option" where
  "delta_signature_create mem xxh old bs = delta_signature_create_seeded mem xxh old bs 0"

definition enc_block_sig :: "delta_block_sig \<Rightarrow> buffer" where
  "enc_block_sig b = enc_u32 (adler32 b) @ enc_u32 (xxhash b)"

definition dec_block_sig :: "buffer \<Rightarrow> (delta_block_sig \<times> buffer) option" where
  "dec_block_sig bs =
     (case get_u32 bs of None \<Rightarrow> None
      | Some (a, bs) \<Rightarrow>
          (case get_u32 bs of None \<Rightarrow> None
           | Some (x, bs) \<Rightarrow> Some (\<lparr>adler32 = a, xxhash = x\<rparr>, bs)))"

definition delta_signature_serialize :: "allocator \<Rightarrow> delta_signature \<Rightarrow> buffer option" where
  "delta_signature_serialize mem sig =
     (let block_bytes = block_count sig * 8;
          total = 16 + block_bytes
      in if UINT64_MAX - 16 < block_bytes \<or> SIZE_MAX < total then None
         else if \<not> mem total then None
         else if \<not> mem 32 then None
         else Some (le_bytes 8 (file_size sig) @ le_bytes 4 (block_size sig) @
                    le_bytes 4 (block_count sig) @ concat (map enc_block_sig (blocks sig))))"

definition delta_signature_deserialize :: "allocator \<Rightarrow> buffer \<Rightarrow> delta_signature option" where
  "delta_signature_deserialize mem data =
     (if length data < 16 then None
      else if \<not> mem 24 then None
      else let fsize = le_nat (take 8 data);
               bsize = le_nat (take 4 (drop 8 data));
               count = le_nat (take 4 (drop 12 data))
        in if MAX_DELTA_BLOCKS < count then None
           else if bsize = 0 \<or> DELTA_BLOCK_SIZE_MAX < bsize \<or> DELTA_MAX_FILE_SIZE < fsize \<or>
                   fsize = 0 \<or> (fsize + bsize - 1) div bsize \<noteq> count then None
           else if length data < 16 + count * 8 then None
           else if SIZE_MAX < count * 8 then None
           else if \<not> mem (count * 8) then None
           else (case decode_n dec_block_sig count (drop 16 data) of
                   None \<Rightarrow> None
                 | Some (bl, rest) \<Rightarrow> Some \<lparr>file_size = fsize, block_size = bsize, blocks = bl\<rparr>))"

subsection \<open>Instruction streams\<close>

datatype delta_instr =
    BLOCK_MATCH (block_index: nat) (block_offset: nat) (match_length: nat)
  | LITERAL (literal: buffer)

record delta =
  new_file_size :: nat
  instructions :: "delta_instr list"
  delta_size :: nat

definition ensure_capacity :: "allocator \<Rightarrow> nat \<Rightarrow> nat \<Rightarrow> nat option" where
  "ensure_capacity mem capacity count =
     (if count < capacity then Some capacity
      else if MAX_DELTA_INSTRUCTIONS div 2 < capacity then None
      else let new_cap = capacity * 2 in
        if \<not> mem (new_cap * 24) then None else Some new_cap)"

text \<open>The instruction array, its capacity and its count are the list and the capacity.\<close>

definition flush_literal ::
  "allocator \<Rightarrow> delta_instr list \<Rightarrow> nat \<Rightarrow> buffer \<Rightarrow> nat \<Rightarrow> nat \<Rightarrow> (delta_instr list \<times> nat) option" where
  "flush_literal mem instrs capacity data start end_pos =
     (if end_pos \<le> start then Some (instrs, capacity)
      else if UINT32_MAX < end_pos - start \<or> MAX_DELTA_INSTRUCTIONS \<le> length instrs then None
      else let lit_len = end_pos - start in
        (case ensure_capacity mem capacity (length instrs) of
           None \<Rightarrow> None
         | Some capacity' \<Rightarrow>
             if \<not> mem lit_len then None
             else Some (instrs @ [LITERAL (take lit_len (drop start data))], capacity')))"

record compute_state =
  instrs :: "delta_instr list"
  capacity :: nat
  pos :: nat
  literal_start :: nat
  has_literal :: bool
  sums :: "u32 \<times> u32"
  rolling_valid :: bool

text \<open>The weak checksum of the window at \<open>pos\<close>, rolled on or computed afresh, and the new
  \<open>rolling_valid\<close>.\<close>

definition window_sums :: "buffer \<Rightarrow> nat \<Rightarrow> compute_state \<Rightarrow> nat \<Rightarrow> (u32 \<times> u32) \<times> bool" where
  "window_sums new_data bs st window_len =
     (let i = pos st; full_window = (window_len = bs) in
      if rolling_valid st \<and> full_window
      then (adler_roll bs (sums st) (new_data ! (i - 1)) (new_data ! (i + bs - 1)), True)
      else (adler_sums (take window_len (drop i new_data)), full_window))"

definition emit_match ::
  "allocator \<Rightarrow> buffer \<Rightarrow> compute_state \<Rightarrow> nat \<Rightarrow> nat \<Rightarrow> (delta_instr list \<times> nat) option" where
  "emit_match mem new_data st match_block window_len =
     (case (if has_literal st
            then flush_literal mem (instrs st) (capacity st) new_data (literal_start st) (pos st)
            else Some (instrs st, capacity st)) of
        None \<Rightarrow> None
      | Some (ins, cap) \<Rightarrow>
          (case ensure_capacity mem cap (length ins) of
             None \<Rightarrow> None
           | Some cap' \<Rightarrow> Some (ins @ [BLOCK_MATCH match_block 0 window_len], cap')))"

text \<open>One iteration of the main loop of \<open>delta_compute_seeded\<close>.\<close>

definition delta_compute_step ::
  "allocator \<Rightarrow> xxh32 \<Rightarrow> buffer \<Rightarrow> delta_signature \<Rightarrow> nat \<Rightarrow> (nat list \<times> nat list) option \<Rightarrow> u32 \<Rightarrow> u32 \<Rightarrow>
   compute_state \<Rightarrow> compute_state option" where
  "delta_compute_step mem xxh new_data sig bs index bmask seed st =
     (let i = pos st;
          left = length new_data - i;
          window_len = (if left < bs then left else bs);
          window = take window_len (drop i new_data);
          (s, rv) = window_sums new_data bs st window_len
      in (case delta_find_match xxh window (adler_pack s) (window_len = bs) sig index bmask seed of
            None \<Rightarrow> None
          | Some match_block \<Rightarrow>
              if match_block \<noteq> DELTA_NO_BLOCK then
                (case emit_match mem new_data st match_block window_len of
                   None \<Rightarrow> None
                 | Some (ins, cap) \<Rightarrow>
                     Some (st\<lparr>instrs := ins, capacity := cap, pos := i + window_len,
                             has_literal := False, sums := s, rolling_valid := False\<rparr>))
              else Some (st\<lparr>pos := i + 1,
                           literal_start := (if has_literal st then literal_start st else i),
                           has_literal := True, sums := s, rolling_valid := rv\<rparr>)))"

text \<open>The loop. Running out of \<open>fuel\<close> is \<open>None\<close>; \<open>length new_data\<close> iterations are enough.\<close>

fun delta_compute_loop ::
  "nat \<Rightarrow> (compute_state \<Rightarrow> compute_state option) \<Rightarrow> nat \<Rightarrow> compute_state \<Rightarrow> compute_state option" where
  "delta_compute_loop fuel stp len st =
     (if len \<le> pos st then Some st
      else (case fuel of 0 \<Rightarrow> None
            | Suc fuel' \<Rightarrow>
                (case stp st of None \<Rightarrow> None
                 | Some st' \<Rightarrow> delta_compute_loop fuel' stp len st')))"

text \<open>The accumulation of \<open>delta_size\<close>, with its overflow checks.\<close>

fun delta_size_sum :: "nat \<Rightarrow> delta_instr list \<Rightarrow> nat option" where
  "delta_size_sum acc [] = Some acc"
| "delta_size_sum acc (BLOCK_MATCH k off l # is) =
     (if acc = UINT64_MAX then None
      else if UINT64_MAX - 12 < acc + 1 then None
      else delta_size_sum (acc + 1 + 12) is)"
| "delta_size_sum acc (LITERAL d # is) =
     (if acc = UINT64_MAX then None
      else let extra = 4 + length d in
        if UINT64_MAX - extra < acc + 1 then None
        else delta_size_sum (acc + 1 + extra) is)"

definition initial_state :: compute_state where
  "initial_state = \<lparr>instrs = [], capacity = 64, pos = 0, literal_start = 0, has_literal = False,
                   sums = (1, 0), rolling_valid = False\<rparr>"

text \<open>The index and the links in it (\<open>chain_next\<close>), and the mask.\<close>

definition compute_index :: "allocator \<Rightarrow> delta_signature \<Rightarrow> (nat list \<times> nat list) option \<times> u32" where
  "compute_index mem sig =
     (if 0 < block_count sig then
        let bucket_count = delta_next_pow2 (word_of_nat (block_count sig)) in
        (case delta_build_index mem sig bucket_count of
           None \<Rightarrow> (None, 0)
         | Some ix \<Rightarrow> (Some (ix, drop (next_offset bucket_count) ix), bucket_count - 1))
      else (None, 0))"

definition delta_compute_seeded ::
  "allocator \<Rightarrow> xxh32 \<Rightarrow> buffer \<Rightarrow> delta_signature \<Rightarrow> nat \<Rightarrow> u32 \<Rightarrow> delta option" where
  "delta_compute_seeded mem xxh new_data sig bs seed =
     (let size = length new_data in
      if size = 0 \<or> bs = 0 \<or> DELTA_BLOCK_SIZE_MAX < bs \<or> block_size sig \<noteq> bs then None
      else if \<not> mem (64 * 24) then None
      else let (index, bmask) = compute_index mem sig in
        (case delta_compute_loop size (delta_compute_step mem xxh new_data sig bs index bmask seed)
                size initial_state of
           None \<Rightarrow> None
         | Some st \<Rightarrow>
             (case (if has_literal st
                    then flush_literal mem (instrs st) (capacity st) new_data (literal_start st) size
                    else Some (instrs st, capacity st)) of
                None \<Rightarrow> None
              | Some (ins, cap) \<Rightarrow>
                  if \<not> mem 32 then None
                  else (case delta_size_sum 0 ins of
                          None \<Rightarrow> None
                        | Some n \<Rightarrow>
                            Some \<lparr>new_file_size = size, instructions = ins, delta_size = n\<rparr>))))"

definition delta_compute ::
  "allocator \<Rightarrow> xxh32 \<Rightarrow> buffer \<Rightarrow> delta_signature \<Rightarrow> nat \<Rightarrow> delta option" where
  "delta_compute mem xxh new_data sig bs = delta_compute_seeded mem xxh new_data sig bs 0"


subsection \<open>The wire form and its application\<close>

definition enc_instr :: "delta_instr \<Rightarrow> buffer" where
  "enc_instr ins =
     (case ins of
        BLOCK_MATCH k off l \<Rightarrow> [1] @ le_bytes 4 k @ le_bytes 4 off @ le_bytes 4 l
      | LITERAL d \<Rightarrow> [2] @ le_bytes 4 (length d) @ d)"

definition delta_serialize :: "allocator \<Rightarrow> delta \<Rightarrow> buffer option" where
  "delta_serialize mem d =
     (let total = 8 + 4 + delta_size d in
      if UINT64_MAX - 12 < delta_size d \<or> SIZE_MAX < total then None
      else if \<not> mem total then None
      else if \<not> mem 32 then None
      else Some (le_bytes 8 (new_file_size d) @ le_bytes 4 (length (instructions d)) @
                 concat (map enc_instr (instructions d))))"

text \<open>One turn of the decoding loop. A literal of length 0 is allocated as 1 byte.\<close>

definition dec_instr :: "allocator \<Rightarrow> buffer \<Rightarrow> (delta_instr \<times> buffer) option" where
  "dec_instr mem bs =
     (case bs of
        [] \<Rightarrow> None
      | t # rest \<Rightarrow>
          if t = 1 then
            (if length rest < 12 then None
             else Some (BLOCK_MATCH (le_nat (take 4 rest)) (le_nat (take 4 (drop 4 rest)))
                          (le_nat (take 4 (drop 8 rest))), drop 12 rest))
          else if t = 2 then
            (if length rest < 4 then None
             else let lit_len = le_nat (take 4 rest); data = drop 4 rest in
               if length data < lit_len then None
               else if \<not> mem (if lit_len = 0 then 1 else lit_len) then None
               else Some (LITERAL (take lit_len data), drop lit_len data))
          else None)"

definition instr_size :: "delta_instr \<Rightarrow> nat" where
  "instr_size ins = (case ins of BLOCK_MATCH k off l \<Rightarrow> 13 | LITERAL d \<Rightarrow> 1 + 4 + length d)"

definition delta_deserialize :: "allocator \<Rightarrow> buffer \<Rightarrow> delta option" where
  "delta_deserialize mem data =
     (if length data < 12 then None
      else if \<not> mem 32 then None
      else let size = le_nat (take 8 data);
               count = le_nat (take 4 (drop 8 data))
        in if MAX_DELTA_INSTRUCTIONS < count then None
           else if 0 < count \<and> \<not> mem (count * 24) then None
           else (case decode_n (dec_instr mem) count (drop 12 data) of
                   None \<Rightarrow> None
                 | Some (is, rest) \<Rightarrow>
                     Some \<lparr>new_file_size = size, instructions = is,
                           delta_size = sum_list (map instr_size is)\<rparr>))"

text \<open>The application loop; \<open>out\<close> is the written prefix of the output buffer (\<open>out_pos\<close> bytes).\<close>

fun apply_instrs :: "buffer \<Rightarrow> nat \<Rightarrow> nat \<Rightarrow> delta_instr list \<Rightarrow> buffer \<Rightarrow> buffer option" where
  "apply_instrs old new_size bs [] out = (if length out \<noteq> new_size then None else Some out)"
| "apply_instrs old new_size bs (BLOCK_MATCH k off l # is) out =
     (let src = k * bs in
      if UINT64_MAX - off < src then None
      else let src' = src + off in
        if length old < src' \<or> length old - src' < l \<or>
           new_size < length out \<or> new_size - length out < l then None
        else apply_instrs old new_size bs is (out @ take l (drop src' old)))"
| "apply_instrs old new_size bs (LITERAL d # is) out =
     (if new_size < length out \<or> new_size - length out < length d then None
      else apply_instrs old new_size bs is (out @ d))"

definition delta_apply :: "allocator \<Rightarrow> buffer \<Rightarrow> delta \<Rightarrow> nat \<Rightarrow> buffer option" where
  "delta_apply mem old d bs =
     (if (0 < new_file_size d \<and> instructions d = []) \<or> (instructions d \<noteq> [] \<and> bs = 0) \<or>
         DELTA_MAX_FILE_SIZE < new_file_size d \<or> SIZE_MAX < new_file_size d then None
      else if \<not> mem (if new_file_size d = 0 then 1 else new_file_size d) then None
      else apply_instrs old (new_file_size d) bs (instructions d) [])"


section \<open>Wire formats\<close>

lemma length_enc_block_sig [simp]: "length (enc_block_sig b) = 8"
  by (simp add: enc_block_sig_def)

interpretation block_sig: strict_codec enc_block_sig dec_block_sig "\<lambda>_. True"
proof
  fix b rest
  show "dec_block_sig (enc_block_sig b @ rest) = Some (b, rest)"
    by (simp add: enc_block_sig_def dec_block_sig_def)
next
  fix bs b rest
  assume "dec_block_sig bs = Some (b, rest)"
  then show "True \<and> bs = enc_block_sig b @ rest"
    by (auto simp: dec_block_sig_def enc_block_sig_def u32.dec_iff split: option.splits)
qed

definition valid_instr :: "allocator \<Rightarrow> delta_instr \<Rightarrow> bool" where
  "valid_instr mem ins =
     (case ins of
        BLOCK_MATCH k off l \<Rightarrow> k \<le> UINT32_MAX \<and> off \<le> UINT32_MAX \<and> l \<le> UINT32_MAX
      | LITERAL d \<Rightarrow> length d \<le> UINT32_MAX \<and> mem (if length d = 0 then 1 else length d))"

lemma le_nat_take4: "le_nat (take 4 bs) \<le> UINT32_MAX"
proof -
  have "le_nat (take 4 bs) < 256 ^ length (take 4 bs)" by (rule le_nat_bound)
  also have "\<dots> \<le> 256 ^ 4" by (rule power_increasing) simp_all
  finally show ?thesis by (simp add: limits)
qed

lemma le_nat_take8: "le_nat (take 8 bs) \<le> UINT64_MAX"
proof -
  have "le_nat (take 8 bs) < 256 ^ length (take 8 bs)" by (rule le_nat_bound)
  also have "\<dots> \<le> 256 ^ 8" by (rule power_increasing) simp_all
  finally show ?thesis by (simp add: limits)
qed

lemma le_bytes_4_take: "4 \<le> length bs \<Longrightarrow> le_bytes 4 (le_nat (take 4 bs)) = take 4 bs"
  by simp

lemma dec_instr_match:
  assumes "12 \<le> length rest"
  shows "le_bytes 4 (le_nat (take 4 rest)) @ le_bytes 4 (le_nat (take 4 (drop 4 rest))) @
           le_bytes 4 (le_nat (take 4 (drop 8 rest))) @ drop 12 rest = rest"
proof -
  have "drop 8 rest = drop 4 (drop 4 rest)" and "drop 12 rest = drop 4 (drop 4 (drop 4 rest))"
    by simp_all
  with assms show ?thesis by (simp del: drop_drop)
qed

interpretation instr: strict_codec enc_instr "dec_instr mem" "valid_instr mem" for mem
proof
  fix ins rest
  assume "valid_instr mem ins"
  then show "dec_instr mem (enc_instr ins @ rest) = Some (ins, rest)"
    by (cases ins) (auto simp: enc_instr_def dec_instr_def valid_instr_def limits Let_def)
next
  fix bs ins rest
  assume d: "dec_instr mem bs = Some (ins, rest)"
  then obtain t tl where bs: "bs = t # tl" by (auto simp: dec_instr_def split: list.splits)
  consider (match) "t = 1" | (lit) "t = 2"
    using d bs by (auto simp: dec_instr_def split: if_splits)
  then show "valid_instr mem ins \<and> bs = enc_instr ins @ rest"
  proof cases
    case match
    with d bs have tl: "12 \<le> length tl" and rest: "rest = drop 12 tl"
      and ins: "ins = BLOCK_MATCH (le_nat (take 4 tl)) (le_nat (take 4 (drop 4 tl)))
                        (le_nat (take 4 (drop 8 tl)))"
      by (auto simp: dec_instr_def split: if_splits)
    have "enc_instr ins @ rest = 1 # tl"
      using dec_instr_match [OF tl] unfolding ins rest enc_instr_def delta_instr.case by simp
    then show ?thesis using match bs by (simp add: ins valid_instr_def le_nat_take4)
  next
    case lit
    define n where "n = le_nat (take 4 tl)"
    from lit d bs have tl: "4 \<le> length tl" and "n \<le> length (drop 4 tl)"
      and ins: "ins = LITERAL (take n (drop 4 tl))" and rest: "rest = drop n (drop 4 tl)"
      and m: "mem (if n = 0 then 1 else n)"
      by (auto simp: dec_instr_def n_def Let_def split: if_splits)
    then have len: "length (take n (drop 4 tl)) = n" by simp
    have "le_bytes 4 n = take 4 tl" using tl by (simp add: n_def)
    then have "enc_instr ins @ rest = 2 # tl"
      unfolding ins rest enc_instr_def delta_instr.case len by (simp del: drop_drop)
    moreover have "n \<le> UINT32_MAX" by (simp add: n_def le_nat_take4)
    ultimately show ?thesis
      using lit bs m unfolding ins valid_instr_def delta_instr.case len by simp
  qed
qed

lemma length_enc_instr: "length (enc_instr ins) = instr_size ins"
  by (simp add: enc_instr_def instr_size_def split: delta_instr.splits)

lemma length_enc_instrs: "length (concat (map enc_instr is)) = sum_list (map instr_size is)"
  by (induction "is") (simp_all add: length_enc_instr)

lemma instr_size_pos: "5 \<le> instr_size ins"
  by (simp add: instr_size_def split: delta_instr.splits)

lemma delta_size_sum_eq:
  "acc \<le> UINT64_MAX \<Longrightarrow> delta_size_sum acc is =
     (if acc + sum_list (map instr_size is) \<le> UINT64_MAX
      then Some (acc + sum_list (map instr_size is)) else None)"
proof (induction acc "is" rule: delta_size_sum.induct)
  case (1 acc)
  then show ?case by simp
next
  case (2 acc k off l "is")
  then show ?case
    by (cases "acc + 13 \<le> UINT64_MAX") (auto simp: instr_size_def limits)
next
  case (3 acc d "is")
  then show ?case
    by (cases "acc + 1 + (4 + length d) \<le> UINT64_MAX")
      (auto simp: instr_size_def limits Let_def)
qed


section \<open>Computing and applying\<close>

text \<open>The reference reading of a stream: the bytes each instruction stands for.\<close>

definition instr_out :: "buffer \<Rightarrow> nat \<Rightarrow> delta_instr \<Rightarrow> buffer" where
  "instr_out old bs ins =
     (case ins of BLOCK_MATCH k off l \<Rightarrow> take l (drop (k * bs + off) old) | LITERAL d \<Rightarrow> d)"

definition instr_ok :: "buffer \<Rightarrow> nat \<Rightarrow> delta_instr \<Rightarrow> bool" where
  "instr_ok old bs ins =
     (case ins of BLOCK_MATCH k off l \<Rightarrow> k * bs \<le> UINT64_MAX - off \<and> k * bs + off + l \<le> length old
      | LITERAL d \<Rightarrow> True)"

definition stream_out :: "buffer \<Rightarrow> nat \<Rightarrow> delta_instr list \<Rightarrow> buffer" where
  "stream_out old bs is = concat (map (instr_out old bs) is)"

lemma stream_out_simps [simp]:
  "stream_out old bs [] = []"
  "stream_out old bs (is @ [ins]) = stream_out old bs is @ instr_out old bs ins"
  by (simp_all add: stream_out_def)

text \<open>The application loop accepts exactly the in-range streams of the announced length, and
  returns the reference reading.\<close>

lemma apply_instrs_eq:
  assumes "length out \<le> n"
  shows "apply_instrs old n bs is out =
    (if list_all (instr_ok old bs) is \<and> length out + length (stream_out old bs is) = n
     then Some (out @ stream_out old bs is) else None)"
  using assms
proof (induction "is" arbitrary: out)
  case Nil
  then show ?case by simp
next
  case (Cons ins rest)
  show ?case
  proof (cases ins)
    case (BLOCK_MATCH k off l)
    show ?thesis
    proof (cases "instr_ok old bs ins \<and> length out + l \<le> n")
      case True
      then have "length (out @ take l (drop (k * bs + off) old)) \<le> n" by (auto simp: min_def)
      from Cons.IH [OF this] True BLOCK_MATCH Cons.prems show ?thesis
        by (auto simp: instr_ok_def instr_out_def stream_out_def Let_def min_absorb2)
    next
      case False
      with BLOCK_MATCH Cons.prems show ?thesis
        by (auto simp: instr_ok_def instr_out_def stream_out_def Let_def limits)
    qed
  next
    case (LITERAL d)
    show ?thesis
    proof (cases "length out + length d \<le> n")
      case True
      then have "length (out @ d) \<le> n" by simp
      from Cons.IH [OF this] True LITERAL Cons.prems show ?thesis
        by (auto simp: instr_ok_def instr_out_def stream_out_def)
    next
      case False
      with LITERAL show ?thesis by (auto simp: instr_out_def stream_out_def)
    qed
  qed
qed

lemma delta_apply_eq:
  "delta_apply mem old d bs =
     (if (instructions d \<noteq> [] \<longrightarrow> bs \<noteq> 0) \<and> new_file_size d \<le> DELTA_MAX_FILE_SIZE \<and>
         mem (max 1 (new_file_size d)) \<and> list_all (instr_ok old bs) (instructions d) \<and>
         length (stream_out old bs (instructions d)) = new_file_size d
      then Some (stream_out old bs (instructions d)) else None)"
  by (cases "new_file_size d = 0") (auto simp: delta_apply_def apply_instrs_eq limits max_def)

subsection \<open>The signature of the old file\<close>

definition old_block :: "buffer \<Rightarrow> nat \<Rightarrow> nat \<Rightarrow> buffer" where
  "old_block old bs k = take bs (drop (k * bs) old)"

definition num_blocks :: "buffer \<Rightarrow> nat \<Rightarrow> nat" where
  "num_blocks old bs = (length old + bs - 1) div bs"

definition signature_of :: "xxh32 \<Rightarrow> buffer \<Rightarrow> nat \<Rightarrow> u32 \<Rightarrow> delta_signature" where
  "signature_of xxh old bs seed =
     \<lparr>file_size = length old, block_size = bs,
      blocks = map (\<lambda>k. block_sig xxh (old_block old bs k) seed) [0..<num_blocks old bs]\<rparr>"

lemma take_short: "take (if length xs < n then length xs else n) xs = take n xs"
  by simp

lemma delta_signature_create_eq:
  "delta_signature_create_seeded mem xxh old bs seed =
     (if 0 < length old \<and> 0 < bs \<and> length old \<le> DELTA_MAX_FILE_SIZE \<and> bs \<le> DELTA_BLOCK_SIZE_MAX \<and>
         mem 24 \<and> mem (num_blocks old bs * 8)
      then Some (signature_of xxh old bs seed) else None)"
proof -
  have blk: "take (if length old - k * bs < bs then length old - k * bs else bs) (drop (k * bs) old)
      = old_block old bs k" for k
    using take_short [of "drop (k * bs) old" bs] by (simp add: old_block_def)
  have "0 < bs \<Longrightarrow> length old \<le> DELTA_MAX_FILE_SIZE \<Longrightarrow> length old \<le> UINT32_MAX * bs"
    by (cases bs) (auto simp: limits)
  moreover have "old \<noteq> [] \<Longrightarrow> \<not> length old + bs - Suc 0 < bs" by (cases old) auto
  ultimately show ?thesis
    by (auto simp: delta_signature_create_seeded_def signature_of_def num_blocks_def Let_def
        blk div_eq_0_iff not_less)
qed


subsection \<open>The loop invariant\<close>

text \<open>
  The weak and the strong checksum do not collide between a full window of the new file and a block
  of the old file. It is the hypothesis under which a delta is right; the protocol relies on it and
  the receiver's whole-file check guards it.
\<close>

definition no_collision :: "xxh32 \<Rightarrow> u32 \<Rightarrow> nat \<Rightarrow> buffer \<Rightarrow> buffer \<Rightarrow> bool" where
  "no_collision xxh seed bs old new_data =
     list_all (\<lambda>i. list_all (\<lambda>k.
         (let w = take bs (drop i new_data); b = old_block old bs k in
          delta_adler32 w = delta_adler32 b \<and> xxh w seed = xxh b seed \<longrightarrow> w = b))
       [0..<num_blocks old bs]) [0..<length new_data + 1 - bs]"

definition base :: "compute_state \<Rightarrow> nat" where
  "base st = (if has_literal st then literal_start st else pos st)"

definition instr_fits :: "delta_instr \<Rightarrow> bool" where
  "instr_fits = valid_instr (\<lambda>_. True)"

definition compute_inv :: "buffer \<Rightarrow> buffer \<Rightarrow> nat \<Rightarrow> compute_state \<Rightarrow> bool" where
  "compute_inv old new_data bs st \<longleftrightarrow>
     base st \<le> pos st \<and> pos st \<le> length new_data \<and>
     (has_literal st \<longrightarrow> literal_start st < pos st) \<and>
     stream_out old bs (instrs st) = take (base st) new_data \<and>
     list_all (instr_ok old bs) (instrs st) \<and> list_all instr_fits (instrs st) \<and>
     length (instrs st) * bs \<le> 2 * base st \<and>
     (rolling_valid st \<longrightarrow> 0 < pos st \<and> pos st - 1 + bs \<le> length new_data \<and>
        sums st = adler_sums (take bs (drop (pos st - 1) new_data)))"

lemma window_roll:
  assumes "0 < i" and "0 < bs" and "i + bs \<le> length xs"
  shows "adler_roll bs (adler_sums (take bs (drop (i - 1) xs))) (xs ! (i - 1)) (xs ! (i + bs - 1))
       = adler_sums (take bs (drop i xs))"
proof -
  from assms obtain j m where i: "i = Suc j" and bs: "bs = Suc m"
    by (meson gr0_implies_Suc)
  have head: "take bs (drop (i - 1) xs) = xs ! (i - 1) # take m (drop i xs)"
    using assms by (simp add: i bs Cons_nth_drop_Suc [symmetric])
  have rear: "take bs (drop i xs) = take m (drop i xs) @ [xs ! (i + bs - 1)]"
    using assms by (simp add: bs take_Suc_conv_app_nth)
  have "bs = Suc (length (take m (drop i xs)))" using assms by (simp add: bs)
  from adler_roll_sums [OF this] show ?thesis unfolding head rear .
qed

lemma window_sums_eq:
  assumes inv: "compute_inv old new_data bs st" and "0 < bs" and "pos st < length new_data"
    and wl: "window_len = min (length new_data - pos st) bs"
  obtains rv where "window_sums new_data bs st window_len =
      (adler_sums (take window_len (drop (pos st) new_data)), rv)" and "rv \<longrightarrow> window_len = bs"
proof (cases "rolling_valid st \<and> window_len = bs")
  case True
  then have fits: "pos st + bs \<le> length new_data" using wl assms(3) by linarith
  from True inv have "0 < pos st" and
    s: "sums st = adler_sums (take bs (drop (pos st - 1) new_data))"
    by (simp_all add: compute_inv_def)
  from window_roll [OF this(1) assms(2) fits] True show ?thesis
    by (intro that [of True]) (simp_all add: window_sums_def s)
next
  case False
  then show ?thesis by (intro that [of "window_len = bs"]) (auto simp: window_sums_def)
qed

lemma signature_of_simps [simp]:
  "block_count (signature_of xxh old bs seed) = num_blocks old bs"
  "block_size (signature_of xxh old bs seed) = bs"
  "file_size (signature_of xxh old bs seed) = length old"
  "k < num_blocks old bs \<Longrightarrow>
     blocks (signature_of xxh old bs seed) ! k = block_sig xxh (old_block old bs k) seed"
  by (simp_all add: signature_of_def)

lemma lowest_match_block:
  assumes nc: "no_collision xxh seed bs old new_data" and i: "i + bs \<le> length new_data"
    and w: "w = take bs (drop i new_data)"
    and m: "m = lowest_match (signature_of xxh old bs seed) (delta_adler32 w) (xxh w seed)"
    and "m \<noteq> DELTA_NO_BLOCK"
  shows "m < num_blocks old bs" and "old_block old bs m = w"
proof -
  from assms(5) have "lowest_match (signature_of xxh old bs seed) (delta_adler32 w) (xxh w seed)
    \<noteq> DELTA_NO_BLOCK" by (simp add: m)
  from lowest_match_Some [OF this, folded m] show lt: "m < num_blocks old bs"
    by simp
  from lowest_match_Some(2,3) [OF \<open>lowest_match _ _ _ \<noteq> _\<close>, folded m] lt
  have "delta_adler32 w = delta_adler32 (old_block old bs m)"
    and "xxh w seed = xxh (old_block old bs m) seed"
    by (simp_all add: block_sig_def delta_xxhash32_seeded_def)
  moreover have "i \<in> set [0..<length new_data + 1 - bs]" and "m \<in> set [0..<num_blocks old bs]"
    using i lt by auto
  ultimately show "old_block old bs m = w"
    using nc unfolding no_collision_def list_all_iff Let_def w by metis
qed

lemma old_block_full:
  assumes "length (old_block old bs k) = bs" and "0 < bs"
  shows "k * bs + bs \<le> length old"
  using assms by (simp add: old_block_def)


subsection \<open>One iteration\<close>

definition pending :: "buffer \<Rightarrow> compute_state \<Rightarrow> delta_instr list" where
  "pending new_data st =
     (if has_literal st
      then [LITERAL (take (pos st - literal_start st) (drop (literal_start st) new_data))] else [])"

lemma stream_out_append [simp]:
  "stream_out old bs (is @ js) = stream_out old bs is @ stream_out old bs js"
  by (simp add: stream_out_def)

lemma pending_props:
  assumes "compute_inv old new_data bs st"
  shows "stream_out old bs (instrs st @ pending new_data st) = take (pos st) new_data"
    and "list_all (instr_ok old bs) (pending new_data st)"
    and "length (pending new_data st) = (if has_literal st then 1 else 0)"
proof -
  have "take (literal_start st) new_data @
      take (pos st - literal_start st) (drop (literal_start st) new_data) = take (pos st) new_data"
    if "has_literal st"
    using assms that take_add [of "literal_start st" "pos st - literal_start st" new_data]
    by (simp add: compute_inv_def base_def)
  with assms show "stream_out old bs (instrs st @ pending new_data st) = take (pos st) new_data"
    by (auto simp: compute_inv_def base_def pending_def instr_out_def stream_out_def)
qed (auto simp: pending_def instr_ok_def)

lemma flush_pending:
  assumes "compute_inv old new_data bs st" and "has_literal st"
  shows "flush_literal mem (instrs st) (capacity st) new_data (literal_start st) (pos st) =
    (if list_all instr_fits (pending new_data st) \<and> length (instrs st) < MAX_DELTA_INSTRUCTIONS \<and>
        mem (pos st - literal_start st)
     then map_option (\<lambda>cap. (instrs st @ pending new_data st, cap))
            (ensure_capacity mem (capacity st) (length (instrs st)))
     else None)"
proof -
  have "literal_start st < pos st" "pos st \<le> length new_data"
    using assms by (simp_all add: compute_inv_def)
  with assms(2) show ?thesis
    by (auto simp: flush_literal_def pending_def instr_fits_def valid_instr_def Let_def
        split: option.splits)
qed

lemma emit_match_Some:
  assumes inv: "compute_inv old new_data bs st"
    and em: "emit_match mem new_data st m window_len = Some (ins, cap)"
  shows "ins = instrs st @ pending new_data st @ [BLOCK_MATCH m 0 window_len]"
    and "list_all instr_fits (pending new_data st)"
  using em flush_pending [OF inv, of mem]
  by (auto simp: emit_match_def pending_def split: option.splits if_splits)

lemma window_len_min: "(if a < b then a else b) = min a (b :: nat)"
  by (simp add: min_def)

lemma delta_compute_step_cases:
  fixes xxh :: xxh32 and seed :: u32
  assumes inv: "compute_inv old new_data bs st" and bs: "0 < bs" and p: "pos st < length new_data"
    and ix: "index_ok sig index bmask"
  defines "wl \<equiv> min (length new_data - pos st) bs"
  defines "w \<equiv> take wl (drop (pos st) new_data)"
  defines "m \<equiv> if wl = bs then lowest_match sig (delta_adler32 w) (xxh w seed) else DELTA_NO_BLOCK"
  obtains rv where "rv \<longrightarrow> wl = bs" and
    "delta_compute_step mem xxh new_data sig bs index bmask seed st =
      (if m \<noteq> DELTA_NO_BLOCK
       then map_option (\<lambda>(ins, cap). st\<lparr>instrs := ins, capacity := cap, pos := pos st + wl,
              has_literal := False, sums := adler_sums w, rolling_valid := False\<rparr>)
            (emit_match mem new_data st m wl)
       else Some (st\<lparr>pos := pos st + 1, literal_start := base st, has_literal := True,
              sums := adler_sums w, rolling_valid := rv\<rparr>))"
proof -
  obtain rv where ws: "window_sums new_data bs st wl = (adler_sums w, rv)" and rv: "rv \<longrightarrow> wl = bs"
    using window_sums_eq [OF inv bs p, of wl] unfolding wl_def w_def by blast
  have "adler_pack (adler_sums w) = delta_adler32 w" by (simp add: delta_adler32_def)
  then show ?thesis
    by (intro that [OF rv], unfold delta_compute_step_def Let_def window_len_min
        wl_def [symmetric] w_def [symmetric] ws prod.case delta_find_match_eq [OF ix])
      (auto simp: m_def base_def split: option.splits)
qed


text \<open>What the run of \<open>delta_compute_seeded\<close> against a signature of \<open>old\<close> takes for granted.\<close>

definition delta_sizes :: "buffer \<Rightarrow> nat \<Rightarrow> bool" where
  "delta_sizes old bs \<longleftrightarrow> 0 < bs \<and> bs \<le> DELTA_BLOCK_SIZE_MAX \<and> 0 < length old \<and>
     length old \<le> DELTA_MAX_FILE_SIZE"

lemma num_blocks_le: "0 < bs \<Longrightarrow> num_blocks old bs \<le> length old"
proof (cases bs; cases old)
  fix b x xs
  assume bs: "bs = Suc b" and old: "old = x # xs"
  have "length old + bs - 1 < Suc (length old) * bs" unfolding bs old by simp
  then have "num_blocks old bs < Suc (length old)" unfolding num_blocks_def
    by (simp only: less_mult_imp_div_less)
  then show ?thesis by simp
qed (simp_all add: num_blocks_def)

lemma match_instr:
  assumes sz: "delta_sizes old bs" and m: "m < num_blocks old bs" "old_block old bs m = w"
    and w: "length w = bs"
  shows "instr_ok old bs (BLOCK_MATCH m 0 bs)" and "instr_fits (BLOCK_MATCH m 0 bs)"
    and "instr_out old bs (BLOCK_MATCH m 0 bs) = w"
proof -
  have "m * bs + bs \<le> length old" using old_block_full [of old bs m] m w sz
    by (simp add: delta_sizes_def)
  moreover have "m \<le> length old" using num_blocks_le [of bs old] m sz by (simp add: delta_sizes_def)
  ultimately show "instr_ok old bs (BLOCK_MATCH m 0 bs)" and "instr_fits (BLOCK_MATCH m 0 bs)"
    using sz by (auto simp: instr_ok_def instr_fits_def valid_instr_def delta_sizes_def limits)
qed (use m in \<open>simp add: instr_out_def old_block_def\<close>)

lemma delta_compute_step_inv:
  assumes inv: "compute_inv old new_data bs st" and p: "pos st < length new_data"
    and sz: "delta_sizes old bs" and nc: "no_collision xxh seed bs old new_data"
    and ix: "index_ok (signature_of xxh old bs seed) index bmask"
    and st': "delta_compute_step mem xxh new_data (signature_of xxh old bs seed) bs index bmask seed st
              = Some st'"
  shows "compute_inv old new_data bs st' \<and> pos st < pos st'"
proof -
  define wl where "wl = min (length new_data - pos st) bs"
  define w where "w = take wl (drop (pos st) new_data)"
  define m where "m = (if wl = bs then lowest_match (signature_of xxh old bs seed) (delta_adler32 w)
    (xxh w seed) else DELTA_NO_BLOCK)"
  have bs: "0 < bs" using sz by (simp add: delta_sizes_def)
  obtain rv where rv: "rv \<longrightarrow> wl = bs" and step:
    "delta_compute_step mem xxh new_data (signature_of xxh old bs seed) bs index bmask seed st =
      (if m \<noteq> DELTA_NO_BLOCK
       then map_option (\<lambda>(ins, cap). st\<lparr>instrs := ins, capacity := cap, pos := pos st + wl,
              has_literal := False, sums := adler_sums w, rolling_valid := False\<rparr>)
            (emit_match mem new_data st m wl)
       else Some (st\<lparr>pos := pos st + 1, literal_start := base st, has_literal := True,
              sums := adler_sums w, rolling_valid := rv\<rparr>))"
    using delta_compute_step_cases [OF inv bs p ix, of mem xxh seed]
    unfolding m_def w_def wl_def by blast
  show ?thesis
  proof (cases "m = DELTA_NO_BLOCK")
    case True
    have "wl = bs \<longrightarrow> pos st + bs \<le> length new_data" using p wl_def by linarith
    with True step st' inv rv p show ?thesis
      by (auto simp: compute_inv_def base_def w_def)
  next
    case False
    then have wl: "wl = bs" and m: "m = lowest_match (signature_of xxh old bs seed)
        (delta_adler32 w) (xxh w seed)" by (auto simp: m_def split: if_splits)
    have fits: "pos st + bs \<le> length new_data" using wl p wl_def by linarith
    have w: "w = take bs (drop (pos st) new_data)" by (simp add: w_def wl)
    have lw: "length w = bs" using fits by (simp add: w)
    note blk = lowest_match_block [OF nc fits w m False]
    note mi = match_instr [OF sz blk lw]
    from False step st' obtain ins cap where em: "emit_match mem new_data st m bs = Some (ins, cap)"
      and s': "st' = st\<lparr>instrs := ins, capacity := cap, pos := pos st + bs,
              has_literal := False, sums := adler_sums w, rolling_valid := False\<rparr>"
      by (auto simp: wl)
    note ins = emit_match_Some [OF inv em]
    note pend = pending_props [OF inv]
    have "stream_out old bs ins = take (pos st + bs) new_data"
      using pend(1) mi(3) by (simp add: ins(1) stream_out_def take_add w)
    moreover have "length ins * bs \<le> 2 * (pos st + bs)"
    proof -
      have "length ins \<le> length (instrs st) + 2" by (simp add: ins(1) pend(3))
      then have "length ins * bs \<le> (length (instrs st) + 2) * bs" by (rule mult_le_mono1)
      also have "\<dots> \<le> 2 * (pos st + bs)" using inv by (simp add: compute_inv_def algebra_simps)
      finally show ?thesis .
    qed
    ultimately show ?thesis using inv fits bs mi(1,2) ins(2) pend(2)
      by (simp add: s' compute_inv_def base_def) (simp add: ins(1))
  qed
qed


subsection \<open>The loop returns\<close>

definition capacity_ok :: "nat \<Rightarrow> nat \<Rightarrow> bool" where
  "capacity_ok cap count \<longleftrightarrow> count \<le> cap \<and> (\<exists>e\<le>14. cap = 64 * 2 ^ e)"

lemma ensure_capacity_progress:
  assumes "capacity_ok cap count" and "count < MAX_DELTA_INSTRUCTIONS" and mem: "\<And>n. mem n"
  obtains cap' where "ensure_capacity mem cap count = Some cap'" and "capacity_ok cap' (Suc count)"
proof (cases "count < cap")
  case True
  with assms show ?thesis by (intro that [of cap]) (auto simp: ensure_capacity_def capacity_ok_def)
next
  case False
  from assms(1) obtain e where e: "e \<le> 14" and cap: "cap = 64 * 2 ^ e" by (auto simp: capacity_ok_def)
  have c: "count = cap" using False assms(1) by (simp add: capacity_ok_def)
  have "e \<noteq> 14" using assms(2) by (auto simp: c cap limits)
  with e have "e \<le> 13" by simp
  then have "(2 :: nat) ^ e \<le> 2 ^ 13" by (rule power_increasing) simp
  then have "cap \<le> MAX_DELTA_INSTRUCTIONS div 2" by (simp add: cap limits)
  then have "ensure_capacity mem cap count = Some (cap * 2)"
    using False mem by (simp add: ensure_capacity_def)
  moreover have "capacity_ok (cap * 2) (Suc count)"
    using \<open>e \<le> 13\<close> unfolding capacity_ok_def c
    by (intro conjI exI [of _ "Suc e"]) (simp_all add: cap Suc_le_eq)
  ultimately show ?thesis by (rule that)
qed

lemma pending_fits:
  assumes "compute_inv old new_data bs st" and "length new_data \<le> DELTA_MAX_FILE_SIZE"
  shows "list_all instr_fits (pending new_data st)"
  using assms by (auto simp: pending_def instr_fits_def valid_instr_def compute_inv_def limits)

lemma flush_progress:
  assumes inv: "compute_inv old new_data bs st" and cap: "capacity_ok (capacity st) (length (instrs st))"
    and n: "length new_data \<le> DELTA_MAX_FILE_SIZE" and mem: "\<And>n. mem n"
    and room: "length (instrs st) < MAX_DELTA_INSTRUCTIONS"
  obtains cap' where "(if has_literal st
      then flush_literal mem (instrs st) (capacity st) new_data (literal_start st) (pos st)
      else Some (instrs st, capacity st)) = Some (instrs st @ pending new_data st, cap')"
    and "capacity_ok cap' (length (instrs st @ pending new_data st))"
proof (cases "has_literal st")
  case True
  obtain cap' where "ensure_capacity mem (capacity st) (length (instrs st)) = Some cap'"
    and "capacity_ok cap' (Suc (length (instrs st)))"
    using ensure_capacity_progress [OF cap room mem] .
  then show ?thesis using True room mem pending_fits [OF inv n]
    by (intro that [of cap']) (simp_all add: flush_pending [OF inv True] pending_props [OF inv])
next
  case False
  then show ?thesis using cap by (intro that [of "capacity st"]) (simp_all add: pending_def)
qed

lemma delta_compute_step_progress:
  assumes inv: "compute_inv old new_data bs st" and p: "pos st < length new_data"
    and bs: "0 < bs" and ix: "index_ok sig index bmask"
    and n: "length new_data \<le> DELTA_MAX_FILE_SIZE"
    and cap: "capacity_ok (capacity st) (length (instrs st))" and mem: "\<And>n. mem n"
    and room: "2 * length new_data div bs < MAX_DELTA_INSTRUCTIONS"
  shows "\<exists>st'. delta_compute_step mem xxh new_data sig bs index bmask seed st = Some st' \<and>
    capacity_ok (capacity st') (length (instrs st'))"
proof -
  define wl where "wl = min (length new_data - pos st) bs"
  define w where "w = take wl (drop (pos st) new_data)"
  define m where "m = (if wl = bs then lowest_match sig (delta_adler32 w)
    (xxh w seed) else DELTA_NO_BLOCK)"
  obtain rv where step:
    "delta_compute_step mem xxh new_data sig bs index bmask seed st =
      (if m \<noteq> DELTA_NO_BLOCK
       then map_option (\<lambda>(ins, cap). st\<lparr>instrs := ins, capacity := cap, pos := pos st + wl,
              has_literal := False, sums := adler_sums w, rolling_valid := False\<rparr>)
            (emit_match mem new_data st m wl)
       else Some (st\<lparr>pos := pos st + 1, literal_start := base st, has_literal := True,
              sums := adler_sums w, rolling_valid := rv\<rparr>))"
    using delta_compute_step_cases [OF inv bs p ix, of mem xxh seed]
    unfolding m_def w_def wl_def by blast
  show ?thesis
  proof (cases "m = DELTA_NO_BLOCK")
    case True
    with step cap show ?thesis by simp
  next
    case False
    then have "wl = bs" by (auto simp: m_def split: if_splits)
    then have fits: "pos st + bs \<le> length new_data" using p wl_def by linarith
    have "(length (instrs st) + 2) * bs \<le> 2 * length new_data"
      using inv fits by (simp add: compute_inv_def algebra_simps)
    then have "length (instrs st) + 2 \<le> 2 * length new_data div bs"
      using bs by (simp add: less_eq_div_iff_mult_less_eq)
    with room have room': "length (instrs st) + 2 < MAX_DELTA_INSTRUCTIONS" by linarith
    then have "length (instrs st) < MAX_DELTA_INSTRUCTIONS" by simp
    from flush_progress [OF inv cap n mem this] obtain cap1 where
      f: "(if has_literal st
        then flush_literal mem (instrs st) (capacity st) new_data (literal_start st) (pos st)
        else Some (instrs st, capacity st)) = Some (instrs st @ pending new_data st, cap1)"
      and c1: "capacity_ok cap1 (length (instrs st @ pending new_data st))" .
    have "length (instrs st @ pending new_data st) < MAX_DELTA_INSTRUCTIONS"
      using room' pending_props(3) [OF inv] by simp
    from ensure_capacity_progress [OF c1 this mem] obtain cap2 where
      "ensure_capacity mem cap1 (length (instrs st @ pending new_data st)) = Some cap2"
      and "capacity_ok cap2 (Suc (length (instrs st @ pending new_data st)))" .
    with f False step show ?thesis by (simp add: emit_match_def)
  qed
qed


lemma delta_compute_loop_inv:
  assumes "delta_compute_loop fuel stp n st = Some st'" and "I st"
    and "\<And>s s'. I s \<Longrightarrow> pos s < n \<Longrightarrow> stp s = Some s' \<Longrightarrow> I s'"
  shows "I st' \<and> n \<le> pos st'"
  using assms(1,2)
proof (induction fuel arbitrary: st)
  case 0
  then show ?case by (auto split: if_splits)
next
  case (Suc fuel)
  then show ?case using assms(3) by (fastforce split: if_splits option.splits)
qed

lemma delta_compute_loop_returns:
  assumes "\<And>s. J s \<Longrightarrow> pos s < n \<Longrightarrow> \<exists>s'. stp s = Some s' \<and> J s' \<and> pos s < pos s'"
    and "J st" and "n \<le> fuel + pos st"
  shows "\<exists>st'. delta_compute_loop fuel stp n st = Some st'"
  using assms(2,3)
proof (induction fuel arbitrary: st)
  case 0
  then show ?case by simp
next
  case (Suc fuel)
  show ?case
  proof (cases "n \<le> pos st")
    case False
    with assms(1) [OF Suc.prems(1)] obtain s' where s': "stp st = Some s'" "J s'" "pos st < pos s'"
      by auto
    with Suc.IH [of s'] Suc.prems False show ?thesis by auto
  qed simp
qed

declare delta_compute_loop.simps [simp del]

lemma compute_index_ok:
  assumes "delta_sizes old bs"
  shows "index_ok (signature_of xxh old bs seed) (fst (compute_index mem (signature_of xxh old bs seed)))
    (snd (compute_index mem (signature_of xxh old bs seed)))"
proof -
  let ?sig = "signature_of xxh old bs seed"
  let ?bc = "delta_next_pow2 (word_of_nat (block_count ?sig))"
  have n: "block_count ?sig \<le> 2 ^ 28" "block_count ?sig \<le> DELTA_NO_BLOCK"
    using assms num_blocks_le [of bs old] by (simp_all add: delta_sizes_def limits)
  have "index_ok ?sig (Some (ix, drop (next_offset ?bc) ix)) (?bc - 1)"
    if "delta_build_index mem ?sig ?bc = Some ix" and "0 < block_count ?sig" for ix
    using delta_build_index_ok [OF that(1) n(2)] delta_next_pow2_small [OF that(2) n(1)]
    by (simp del: signature_of_simps)
  moreover have "index_ok ?sig None m" for m by (simp add: index_ok_def)
  ultimately show ?thesis
    by (auto simp: compute_index_def Let_def simp del: signature_of_simps split: option.splits)
qed

lemma initial_inv: "compute_inv old new_data bs initial_state"
  by (simp add: compute_inv_def initial_state_def base_def)

text \<open>Partial correctness, for every allocator.\<close>

lemma delta_compute_correct:
  assumes sz: "delta_sizes old bs" and nc: "no_collision xxh seed bs old new_data"
    and d: "delta_compute_seeded mem xxh new_data (signature_of xxh old bs seed) bs seed = Some d"
  shows "new_file_size d = length new_data" and "stream_out old bs (instructions d) = new_data"
    and "list_all (instr_ok old bs) (instructions d)" and "list_all instr_fits (instructions d)"
    and "delta_size d = sum_list (map instr_size (instructions d))"
    and "length (instructions d) * bs \<le> 2 * length new_data + bs"
proof -
  let ?sig = "signature_of xxh old bs seed"
  let ?stp = "delta_compute_step mem xxh new_data ?sig bs (fst (compute_index mem ?sig))
    (snd (compute_index mem ?sig)) seed"
  from d obtain st ins cap where
    l: "delta_compute_loop (length new_data) ?stp (length new_data) initial_state = Some st" and
    f: "(if has_literal st then flush_literal mem (instrs st) (capacity st) new_data
          (literal_start st) (length new_data) else Some (instrs st, capacity st)) = Some (ins, cap)"
    and z: "delta_size_sum 0 ins = Some (delta_size d)" and
    dd: "new_file_size d = length new_data" "instructions d = ins"
    by (auto simp: delta_compute_seeded_def Let_def case_prod_beta split: if_splits option.splits)
  have inv: "compute_inv old new_data bs st" and p: "pos st = length new_data"
  proof -
    have "compute_inv old new_data bs st \<and> length new_data \<le> pos st"
      using delta_compute_step_inv [OF _ _ sz nc compute_index_ok [OF sz]]
      by (intro delta_compute_loop_inv [OF l, where I = "compute_inv old new_data bs"] initial_inv)
        blast
    then show "compute_inv old new_data bs st" and "pos st = length new_data"
      by (auto simp: compute_inv_def)
  qed
  have ins: "ins = instrs st @ pending new_data st" "list_all instr_fits (pending new_data st)"
    using f flush_pending [OF inv, of mem] by (auto simp: p pending_def split: if_splits)
  note pend = pending_props [OF inv]
  show "new_file_size d = length new_data" by (rule dd)
  show "stream_out old bs (instructions d) = new_data"
    using pend(1) by (simp only: dd ins p take_all_iff [THEN iffD2] order_refl)
  show "list_all (instr_ok old bs) (instructions d)" and "list_all instr_fits (instructions d)"
    using inv pend(2) ins by (simp_all add: dd compute_inv_def)
  show "delta_size d = sum_list (map instr_size (instructions d))"
    using z by (simp add: dd delta_size_sum_eq split: if_splits)
  have "length ins * bs \<le> length (instrs st) * bs + bs"
    using pend(3) by (simp add: ins algebra_simps)
  also have "\<dots> \<le> 2 * length new_data + bs" using inv by (simp add: compute_inv_def p [symmetric])
  finally show "length (instructions d) * bs \<le> 2 * length new_data + bs" by (simp add: dd)
qed


lemma instr_sizes_bound:
  "sum_list (map instr_size is) \<le> 13 * length is + length (stream_out old bs is)"
proof (induction "is")
  case (Cons ins rest)
  have "instr_size ins \<le> 13 + length (instr_out old bs ins)"
    by (cases ins) (simp_all add: instr_size_def instr_out_def)
  with Cons show ?case by (simp add: stream_out_def)
qed simp

lemma delta_compute_returns:
  assumes sz: "delta_sizes old bs" and nc: "no_collision xxh seed bs old new_data"
    and n: "new_data \<noteq> []" "length new_data \<le> DELTA_MAX_FILE_SIZE"
    and room: "2 * length new_data div bs < MAX_DELTA_INSTRUCTIONS" and mem: "\<And>n. mem n"
  shows "\<exists>d. delta_compute_seeded mem xxh new_data (signature_of xxh old bs seed) bs seed = Some d"
proof -
  let ?sig = "signature_of xxh old bs seed" and ?n = "length new_data"
  let ?stp = "delta_compute_step mem xxh new_data ?sig bs (fst (compute_index mem ?sig))
    (snd (compute_index mem ?sig)) seed"
  let ?J = "\<lambda>s. compute_inv old new_data bs s \<and> capacity_ok (capacity s) (length (instrs s))"
  note ix = compute_index_ok [OF sz, of xxh seed mem]
  have bs: "0 < bs" "bs \<le> DELTA_BLOCK_SIZE_MAX" using sz by (simp_all add: delta_sizes_def)
  have stp: "\<exists>s'. ?stp s = Some s' \<and> ?J s' \<and> pos s < pos s'" if "?J s" and "pos s < ?n" for s
    using delta_compute_step_progress [where mem = mem and xxh = xxh and seed = seed,
        OF _ that(2) bs(1) ix n(2) _ mem room]
      delta_compute_step_inv [OF _ that(2) sz nc ix, of mem] that(1) by blast
  have J0: "?J initial_state"
    using initial_inv by (auto simp: capacity_ok_def initial_state_def)
  obtain st where l: "delta_compute_loop ?n ?stp ?n initial_state = Some st"
    using delta_compute_loop_returns [where J = ?J and stp = ?stp and n = ?n, OF stp J0, of ?n]
    by auto
  have "?J st \<and> ?n \<le> pos st"
    using stp by (intro delta_compute_loop_inv [OF l, where I = ?J] J0) force
  then have inv: "compute_inv old new_data bs st" and p: "pos st = ?n"
    and cap: "capacity_ok (capacity st) (length (instrs st))"
    by (auto simp: compute_inv_def)
  have "length (instrs st) * bs \<le> 2 * ?n" using inv by (simp add: compute_inv_def p)
  then have "length (instrs st) \<le> 2 * ?n div bs"
    using bs by (simp add: less_eq_div_iff_mult_less_eq)
  with room have "length (instrs st) < MAX_DELTA_INSTRUCTIONS" by linarith
  from flush_progress [OF inv cap n(2) mem this] obtain cap' where
    f: "(if has_literal st then flush_literal mem (instrs st) (capacity st) new_data
          (literal_start st) ?n else Some (instrs st, capacity st)) =
        Some (instrs st @ pending new_data st, cap')" unfolding p .
  have "sum_list (map instr_size (instrs st @ pending new_data st)) \<le> UINT64_MAX"
  proof -
    from instr_sizes_bound [of "instrs st @ pending new_data st" old bs]
    have "sum_list (map instr_size (instrs st @ pending new_data st)) \<le>
        13 * (length (instrs st) + 1) + ?n"
      using pending_props(1,3) [OF inv]
      by (auto simp: p simp del: stream_out_append map_append sum_list_append split: if_splits)
    then show ?thesis using \<open>length (instrs st) < MAX_DELTA_INSTRUCTIONS\<close> n(2)
      by (simp add: limits)
  qed
  with l f n bs mem show ?thesis
    by (simp add: delta_compute_seeded_def case_prod_beta Let_def delta_size_sum_eq)
qed

section \<open>Round trips over the wire\<close>

definition delta_valid :: "delta \<Rightarrow> bool" where
  "delta_valid d \<longleftrightarrow> new_file_size d \<le> UINT64_MAX \<and>
     length (instructions d) \<le> MAX_DELTA_INSTRUCTIONS \<and> list_all instr_fits (instructions d) \<and>
     delta_size d = sum_list (map instr_size (instructions d))"

definition delta_wire :: "delta \<Rightarrow> buffer" where
  "delta_wire d = le_bytes 8 (new_file_size d) @ le_bytes 4 (length (instructions d)) @
     concat (map enc_instr (instructions d))"

definition signature_valid :: "delta_signature \<Rightarrow> bool" where
  "signature_valid sig \<longleftrightarrow> block_count sig \<le> MAX_DELTA_BLOCKS \<and> 0 < block_size sig \<and>
     block_size sig \<le> DELTA_BLOCK_SIZE_MAX \<and> 0 < file_size sig \<and>
     file_size sig \<le> DELTA_MAX_FILE_SIZE \<and>
     (file_size sig + block_size sig - 1) div block_size sig = block_count sig"

definition signature_wire :: "delta_signature \<Rightarrow> buffer" where
  "signature_wire sig = le_bytes 8 (file_size sig) @ le_bytes 4 (block_size sig) @
     le_bytes 4 (block_count sig) @ concat (map enc_block_sig (blocks sig))"

lemma length_enc_block_sigs: "length (concat (map enc_block_sig bl)) = length bl * 8"
  by (induction bl) simp_all

lemma length_wires:
  "length (delta_wire d) = 12 + sum_list (map instr_size (instructions d))"
  "length (signature_wire sig) = 16 + block_count sig * 8"
  by (simp_all add: delta_wire_def signature_wire_def length_enc_instrs length_enc_block_sigs)

lemma delta_serialize_eq:
  "delta_serialize mem d =
     (if delta_size d \<le> UINT64_MAX - 12 \<and> mem (12 + delta_size d) \<and> mem 32
      then Some (delta_wire d) else None)"
  by (auto simp: delta_serialize_def delta_wire_def Let_def limits)

lemma delta_signature_serialize_eq:
  "block_count sig \<le> UINT32_MAX \<Longrightarrow> delta_signature_serialize mem sig =
     (if mem (16 + block_count sig * 8) \<and> mem 32 then Some (signature_wire sig) else None)"
  by (auto simp: delta_signature_serialize_def signature_wire_def Let_def limits)

lemma valid_instr_mem:
  "valid_instr mem ins \<longleftrightarrow> instr_fits ins \<and>
     (case ins of LITERAL d \<Rightarrow> mem (max 1 (length d)) | _ \<Rightarrow> True)"
  by (cases ins) (auto simp: valid_instr_def instr_fits_def max_def Suc_le_eq)


lemma delta_size_bound:
  assumes "delta_valid d" and "stream_out old bs (instructions d) = new_data"
  shows "delta_size d \<le> 13 * MAX_DELTA_INSTRUCTIONS + length new_data"
  using assms instr_sizes_bound [of "instructions d" old bs] by (simp add: delta_valid_def)

lemma delta_deserialize_wire:
  assumes v: "delta_valid d" and mem: "\<And>n. mem n"
  shows "delta_deserialize mem (delta_wire d @ rest) = Some d"
proof -
  have "decode_n (dec_instr mem) (length (instructions d))
      (concat (map enc_instr (instructions d)) @ rest) = Some (instructions d, rest)"
    using v mem by (intro instr.decode_n_enc)
      (auto simp: delta_valid_def list_all_iff valid_instr_mem split: delta_instr.splits)
  with v mem show ?thesis
    by (simp add: delta_deserialize_def delta_wire_def delta_valid_def Let_def limits)
qed

lemma delta_deserialize_sound:
  assumes "delta_deserialize mem bytes = Some d"
  shows "delta_valid d" and "\<exists>rest. bytes = delta_wire d @ rest"
proof -
  from assms obtain "is" rest where len: "12 \<le> length bytes"
    and cnt: "le_nat (take 4 (drop 8 bytes)) \<le> MAX_DELTA_INSTRUCTIONS"
    and dec: "decode_n (dec_instr mem) (le_nat (take 4 (drop 8 bytes))) (drop 12 bytes) = Some (is, rest)"
    and d: "d = \<lparr>new_file_size = le_nat (take 8 bytes), instructions = is,
                 delta_size = sum_list (map instr_size is)\<rparr>"
    by (auto simp: delta_deserialize_def Let_def split: if_splits option.splits)
  note snd = instr.decode_n_sound [OF dec]
  show "delta_valid d" using snd cnt le_nat_take8 [of bytes]
    by (auto simp: delta_valid_def d valid_instr_mem list_all_iff)
  have "bytes = take 8 bytes @ take 4 (drop 8 bytes) @ drop 4 (drop 8 bytes)"
    by (simp del: drop_drop)
  moreover have "drop 4 (drop 8 bytes) = concat (map enc_instr is) @ rest" using snd by simp
  ultimately have "bytes = delta_wire d @ rest"
    using len snd by (simp add: delta_wire_def d)
  then show "\<exists>rest. bytes = delta_wire d @ rest" ..
qed

lemma delta_signature_deserialize_wire:
  assumes v: "signature_valid sig" and mem: "\<And>n. mem n"
  shows "delta_signature_deserialize mem (signature_wire sig @ rest) = Some sig"
proof -
  have "decode_n dec_block_sig (block_count sig) (concat (map enc_block_sig (blocks sig)) @ rest) =
      Some (blocks sig, rest)"
    by (rule block_sig.decode_n_enc) (simp add: list_all_iff)
  with v mem show ?thesis
    by (simp add: delta_signature_deserialize_def signature_wire_def signature_valid_def Let_def
        length_enc_block_sigs limits)
qed

lemma delta_signature_deserialize_sound:
  assumes "delta_signature_deserialize mem bytes = Some sig"
  shows "signature_valid sig" and "\<exists>rest. bytes = signature_wire sig @ rest"
proof -
  define n where "n = le_nat (take 4 (drop 12 bytes))"
  from assms obtain bl rest where len: "16 \<le> length bytes"
    and dec: "decode_n dec_block_sig n (drop 16 bytes) = Some (bl, rest)"
    and sig: "sig = \<lparr>file_size = le_nat (take 8 bytes), block_size = le_nat (take 4 (drop 8 bytes)),
                 blocks = bl\<rparr>"
    by (auto simp: delta_signature_deserialize_def n_def Let_def split: if_splits option.splits)
  note snd = block_sig.decode_n_sound [OF dec]
  show "signature_valid sig" using assms snd
    by (auto simp: delta_signature_deserialize_def signature_valid_def n_def [symmetric] sig Let_def
        split: if_splits option.splits)
  have "bytes = take 8 bytes @ take 4 (drop 8 bytes) @ take 4 (drop 4 (drop 8 bytes)) @
      drop 4 (drop 4 (drop 8 bytes))"
    by (simp del: drop_drop)
  moreover have "drop 4 (drop 4 (drop 8 bytes)) = concat (map enc_block_sig bl) @ rest"
    using snd by simp
  moreover have "le_bytes 4 n = take 4 (drop 4 (drop 8 bytes))" using len by (simp add: n_def)
  ultimately have "bytes = signature_wire sig @ rest"
    using len snd by (simp add: signature_wire_def sig)
  then show "\<exists>rest. bytes = signature_wire sig @ rest" ..
qed

lemma signature_of_valid:
  assumes "delta_sizes old bs" and "num_blocks old bs \<le> MAX_DELTA_BLOCKS"
  shows "signature_valid (signature_of xxh old bs seed)"
  using assms by (auto simp: signature_valid_def delta_sizes_def num_blocks_def)

text \<open>What a decoder makes of the other side's encoding, under its own allocator.\<close>

lemma signature_wire_agrees:
  assumes "delta_signature_deserialize mem (signature_wire sig) = Some sig'"
    and "delta_sizes old bs" and sig: "sig = signature_of xxh old bs seed"
  shows "sig' = sig"
proof -
  have "num_blocks old bs < 256 ^ 4"
    using assms(2) num_blocks_le [of bs old] by (simp add: delta_sizes_def limits)
  then have "num_blocks old bs \<le> MAX_DELTA_BLOCKS"
    using assms(1) by (auto simp: delta_signature_deserialize_def signature_wire_def sig Let_def
        split: if_splits)
  then have "signature_valid sig" using signature_of_valid assms(2) sig by simp
  then have "delta_signature_deserialize (\<lambda>_. True) (signature_wire sig) = Some sig"
    using delta_signature_deserialize_wire [where rest = "[]"] by simp
  moreover obtain rest where "signature_wire sig = signature_wire sig' @ rest" "signature_valid sig'"
    using delta_signature_deserialize_sound [OF assms(1)] by blast
  ultimately show ?thesis using delta_signature_deserialize_wire [of sig' "\<lambda>_. True" rest] by simp
qed

lemma delta_wire_agrees:
  assumes "delta_deserialize mem (delta_wire d) = Some d'"
    and "length (instructions d) \<le> UINT32_MAX" and "new_file_size d \<le> UINT64_MAX"
    and "list_all instr_fits (instructions d)"
    and "delta_size d = sum_list (map instr_size (instructions d))"
  shows "d' = d"
proof -
  have "length (instructions d) \<le> MAX_DELTA_INSTRUCTIONS"
    using assms(1,2) by (auto simp: delta_deserialize_def delta_wire_def Let_def limits
        split: if_splits)
  then have "delta_valid d" using assms by (simp add: delta_valid_def)
  then have "delta_deserialize (\<lambda>_. True) (delta_wire d) = Some d"
    using delta_deserialize_wire [where rest = "[]"] by simp
  moreover obtain rest where "delta_wire d = delta_wire d' @ rest" "delta_valid d'"
    using delta_deserialize_sound [OF assms(1)] by blast
  ultimately show ?thesis using delta_deserialize_wire [of d' "\<lambda>_. True" rest] by simp
qed

lemma delta_compute_valid:
  assumes sz: "delta_sizes old bs" and nc: "no_collision xxh seed bs old new_data"
    and n: "length new_data \<le> DELTA_MAX_FILE_SIZE"
    and d: "delta_compute_seeded mem xxh new_data (signature_of xxh old bs seed) bs seed = Some d"
    and room: "2 * length new_data div bs < MAX_DELTA_INSTRUCTIONS"
  shows "delta_valid d"
proof -
  note c = delta_compute_correct [OF sz nc d]
  have bs: "0 < bs" using sz by (simp add: delta_sizes_def)
  have "length (instructions d) \<le> (2 * length new_data + bs) div bs"
    using c(6) bs by (simp add: less_eq_div_iff_mult_less_eq)
  moreover have "(2 * length new_data + bs) div bs = 2 * length new_data div bs + 1"
    using bs by (simp add: div_add_self2)
  ultimately have "length (instructions d) \<le> MAX_DELTA_INSTRUCTIONS" using room by linarith
  with c n show ?thesis by (simp add: delta_valid_def limits)
qed


section \<open>Properties\<close>

text \<open>C1: When memory is granted, the whole delta exchange succeeds and rebuilds the new file. The
  receiver signs its old file, sends the signature, the sender decodes it, computes a delta, sends
  it, and the receiver decodes and applies it: every step returns a result, and the last one returns
  the sender's bytes. The files are non-empty and within the size limit, the block size is in range,
  the block and instruction counts fit their limits, and the checksum pair does not collide between
  a window of the new file and a block of the old one.\<close>

theorem delta_exchange_rebuilds:
  assumes "delta_sizes old bs" and "num_blocks old bs \<le> MAX_DELTA_BLOCKS"
    and "new_data \<noteq> []" and "length new_data \<le> DELTA_MAX_FILE_SIZE"
    and "2 * length new_data div bs < MAX_DELTA_INSTRUCTIONS"
    and "no_collision xxh seed bs old new_data" and "\<And>n. mem n"
  shows "\<exists>sig sig_bytes d delta_bytes.
    delta_signature_create_seeded mem xxh old bs seed = Some sig \<and>
    delta_signature_serialize mem sig = Some sig_bytes \<and>
    delta_signature_deserialize mem sig_bytes = Some sig \<and>
    delta_compute_seeded mem xxh new_data sig bs seed = Some d \<and>
    delta_serialize mem d = Some delta_bytes \<and>
    delta_deserialize mem delta_bytes = Some d \<and>
    delta_apply mem old d bs = Some new_data"
proof -
  let ?sig = "signature_of xxh old bs seed"
  obtain d where d: "delta_compute_seeded mem xxh new_data ?sig bs seed = Some d"
    using delta_compute_returns [where mem = mem, OF assms(1,6,3,4,5,7)] by auto
  note c = delta_compute_correct [OF assms(1,6) d]
  note v = delta_compute_valid [OF assms(1,6,4) d assms(5)]
  have sv: "signature_valid ?sig" by (rule signature_of_valid [OF assms(1,2)])
  have "delta_signature_create_seeded mem xxh old bs seed = Some ?sig"
    using assms(1,7) by (simp add: delta_signature_create_eq delta_sizes_def)
  moreover have "delta_signature_serialize mem ?sig = Some (signature_wire ?sig)"
    using assms(2,7) by (simp add: delta_signature_serialize_eq limits)
  moreover have "delta_signature_deserialize mem (signature_wire ?sig) = Some ?sig"
    using delta_signature_deserialize_wire [where mem = mem and rest = "[]", OF sv assms(7)] by simp
  moreover have "delta_serialize mem d = Some (delta_wire d)"
  proof -
    have "delta_size d \<le> UINT64_MAX - 12"
      using delta_size_bound [OF v c(2)] assms(4) by (simp add: limits)
    then show ?thesis using assms(7) by (simp add: delta_serialize_eq)
  qed
  moreover have "delta_deserialize mem (delta_wire d) = Some d"
    using delta_deserialize_wire [where mem = mem and rest = "[]", OF v assms(7)] by simp
  moreover have "delta_apply mem old d bs = Some new_data"
    using c assms(1,4,7) by (simp add: delta_apply_eq delta_sizes_def)
  ultimately show ?thesis using d by blast
qed


text \<open>The strong hash of the witnesses: the value of the bytes, which is injective up to 4 bytes.\<close>

definition demo_xxh :: xxh32 where
  "demo_xxh data seed = word_of_nat (le_nat data) + seed"

lemmas demo_simps = delta_sizes_def num_blocks_def no_collision_def demo_xxh_def delta_adler32_def
  adler_pack_def adler_sums_def adler_step_def DELTA_ADLER32_MODULUS_def old_block_def Let_def
  block_sig_def delta_xxhash32_seeded_def

lemma demo_no_collision: "no_collision demo_xxh 7 2 [1, 2, 3, 4, 5] [9, 3, 4, 1, 2, 8]"
  by (simp add: demo_simps upt_rec)

theorem delta_exchange_rebuilds_witness:
  "\<exists>sig sig_bytes d delta_bytes.
    delta_signature_create_seeded (\<lambda>_. True) demo_xxh [1, 2, 3, 4, 5] 2 7 = Some sig \<and>
    delta_signature_serialize (\<lambda>_. True) sig = Some sig_bytes \<and>
    delta_signature_deserialize (\<lambda>_. True) sig_bytes = Some sig \<and>
    delta_compute_seeded (\<lambda>_. True) demo_xxh [9, 3, 4, 1, 2, 8] sig 2 7 = Some d \<and>
    delta_serialize (\<lambda>_. True) d = Some delta_bytes \<and>
    delta_deserialize (\<lambda>_. True) delta_bytes = Some d \<and>
    delta_apply (\<lambda>_. True) [1, 2, 3, 4, 5] d 2 = Some [9, 3, 4, 1, 2, 8]"
  by (rule delta_exchange_rebuilds)
    (simp_all add: demo_no_collision delta_sizes_def num_blocks_def limits)


text \<open>C2: Under any allocators of the two sides, whatever refusals they make, a delta exchange that
  returns a file returns the sender's file: no allocation failure turns into wrong bytes.\<close>

theorem delta_exchange_never_wrong:
  assumes "delta_signature_create_seeded mem1 xxh old bs seed = Some sig"
    and "delta_signature_serialize mem1 sig = Some sig_bytes"
    and "delta_signature_deserialize mem2 sig_bytes = Some sig'"
    and "delta_compute_seeded mem2 xxh new_data sig' bs seed = Some d"
    and "delta_serialize mem2 d = Some delta_bytes"
    and "delta_deserialize mem1 delta_bytes = Some d'"
    and "delta_apply mem1 old d' bs = Some out"
    and "length new_data \<le> DELTA_MAX_FILE_SIZE" and "no_collision xxh seed bs old new_data"
  shows "out = new_data"
proof -
  from assms(1) have sz: "delta_sizes old bs" and sig: "sig = signature_of xxh old bs seed"
    by (auto simp: delta_signature_create_eq delta_sizes_def split: if_splits)
  have n: "block_count sig \<le> UINT32_MAX"
    using num_blocks_le [of bs old] sz by (simp add: sig delta_sizes_def limits)
  have "sig_bytes = signature_wire sig"
    using assms(2) by (simp add: delta_signature_serialize_eq [OF n] split: if_splits)
  with assms(3) have sig': "sig' = sig" using signature_wire_agrees [OF _ sz sig] by simp
  note c = delta_compute_correct [OF sz assms(9) assms(4) [unfolded sig' sig]]
  have "length (instructions d) * 1 \<le> length (instructions d) * bs"
    using sz by (intro mult_le_mono) (simp_all add: delta_sizes_def)
  also have "\<dots> \<le> UINT32_MAX" using c(6) sz assms(8) by (simp add: delta_sizes_def limits)
  finally have "length (instructions d) \<le> UINT32_MAX" by simp
  moreover have "delta_bytes = delta_wire d"
    using assms(5) by (simp add: delta_serialize_eq split: if_splits)
  moreover have "new_file_size d \<le> UINT64_MAX" using c(1) assms(8) by (simp add: limits)
  ultimately have "d' = d" using assms(6) c(4,5) by (intro delta_wire_agrees) simp_all
  with assms(7) c(2) show ?thesis by (simp add: delta_apply_eq split: if_splits)
qed


definition demo_delta :: delta where
  "demo_delta = \<lparr>new_file_size = 3, instructions = [LITERAL [9], BLOCK_MATCH 0 0 2], delta_size = 19\<rparr>"

lemma demo_compute:
  "delta_compute_seeded (\<lambda>n. n \<le> 2000) demo_xxh [9, 1, 2] (signature_of demo_xxh [1, 2, 3] 2 7) 2 7
     = Some demo_delta"
proof -
  let ?mem = "\<lambda>n :: nat. n \<le> 2000"
  define sig where "sig = signature_of demo_xxh [1, 2, 3] 2 7"
  obtain index bmask where c: "compute_index ?mem sig = (index, bmask)" by (cases "compute_index ?mem sig")
  have "index_ok sig index bmask"
    using compute_index_ok [of "[1, 2, 3]" 2 demo_xxh 7 ?mem] c by (simp add: sig_def delta_sizes_def limits)
  note fm = delta_find_match_eq [OF this]
  have sig: "block_size sig = 2" "blocks sig = [\<lparr>adler32 = 393220, xxhash = 520\<rparr>, \<lparr>adler32 = 262148, xxhash = 10\<rparr>]"
    by (simp_all add: sig_def signature_of_def demo_simps upt_rec)
  have "delta_compute_seeded ?mem demo_xxh [9, 1, 2] sig 2 7 = Some demo_delta"
    by (simp add: demo_delta_def delta_compute_seeded_def c sig fm demo_simps delta_compute_loop.simps initial_state_def
        delta_compute_step_def window_sums_def lowest_match_def block_matches_def emit_match_def flush_literal_def
        ensure_capacity_def adler_roll_def limits upt_rec)
  then show ?thesis by (simp only: sig_def)
qed

theorem delta_exchange_never_wrong_witness: "[9, 1, 2] = ([9, 1, 2] :: buffer) \<and>
    delta_apply (\<lambda>n. n \<le> 2000) [1, 2, 3] demo_delta 2 = Some [9, 1, 2]"
proof -
  let ?mem = "\<lambda>n :: nat. n \<le> 2000" and ?sig = "signature_of demo_xxh [1, 2, 3] 2 7"
  have sz: "delta_sizes [1, 2, 3] 2" by (simp add: delta_sizes_def limits)
  have "delta_signature_create_seeded ?mem demo_xxh [1, 2, 3] 2 7 = Some ?sig"
    by (simp add: delta_signature_create_eq num_blocks_def limits)
  moreover have "delta_signature_serialize ?mem ?sig = Some (signature_wire ?sig)"
    by (simp add: delta_signature_serialize_eq num_blocks_def limits)
  moreover have "delta_signature_deserialize ?mem (signature_wire ?sig) = Some ?sig"
    by (simp add: delta_signature_deserialize_def signature_wire_def signature_of_def demo_simps
        upt_rec enc_block_sig_def dec_block_sig_def limits)
  moreover note demo_compute
  moreover have "delta_serialize ?mem demo_delta = Some (delta_wire demo_delta)"
    by (simp add: delta_serialize_eq demo_delta_def limits)
  moreover have "delta_deserialize ?mem (delta_wire demo_delta) = Some demo_delta"
    by (simp add: delta_deserialize_def delta_wire_def demo_delta_def enc_instr_def dec_instr_def
        instr_size_def limits)
  moreover have ap: "delta_apply ?mem [1, 2, 3] demo_delta 2 = Some [9, 1, 2]"
    by (simp add: delta_apply_def demo_delta_def limits)
  moreover have "length [9, 1, 2 :: byte] \<le> DELTA_MAX_FILE_SIZE" by (simp add: limits)
  moreover have "no_collision demo_xxh 7 2 [1, 2, 3] [9, 1, 2]" by (simp add: demo_simps upt_rec)
  ultimately have "[9, 1, 2] = ([9, 1, 2] :: buffer)" by (rule delta_exchange_never_wrong)
  with ap show ?thesis by simp
qed

text \<open>C3: A delta stream from an untrusted peer is applied only within bounds. If bytes decode to a
  stream and applying it to the old file returns an output, then the output has exactly the
  announced size, at most the size limit, every block copy lies inside the old file, and the output
  is the concatenation of the copied ranges and the literals.\<close>

theorem delta_apply_in_bounds:
  assumes "delta_deserialize mem bytes = Some d" and "delta_apply mem old d bs = Some out"
  shows "length out = le_nat (take 8 bytes) \<and> length out \<le> DELTA_MAX_FILE_SIZE \<and>
    (\<forall>k off l. BLOCK_MATCH k off l \<in> set (instructions d) \<longrightarrow> k * bs + off + l \<le> length old) \<and>
    out = concat (map (instr_out old bs) (instructions d))"
proof -
  have "new_file_size d = le_nat (take 8 bytes)"
    using assms(1) by (auto simp: delta_deserialize_def Let_def split: if_splits option.splits)
  with assms(2) show ?thesis
    by (fastforce simp: delta_apply_eq stream_out_def list_all_iff instr_ok_def split: if_splits)
qed

theorem delta_apply_in_bounds_witness:
  "delta_apply (\<lambda>n. n \<le> 2000) [1, 2, 3] demo_delta 2 = Some [9, 1, 2] \<and>
   length [9, 1, 2 :: byte] = le_nat (take 8 (delta_wire demo_delta))"
proof -
  have "delta_deserialize (\<lambda>n. n \<le> 2000) (delta_wire demo_delta) = Some demo_delta"
    by (simp add: delta_deserialize_def delta_wire_def demo_delta_def enc_instr_def dec_instr_def
        instr_size_def limits)
  moreover have ap: "delta_apply (\<lambda>n. n \<le> 2000) [1, 2, 3] demo_delta 2 = Some [9, 1, 2]"
    by (simp add: delta_apply_def demo_delta_def limits)
  ultimately show ?thesis using delta_apply_in_bounds by blast
qed

text \<open>C4: The delta wire format round-trips and fills its buffer exactly. For a stream within the
  format's ranges whose recorded size is the sum of its instruction sizes, serialisation returns
  \<open>12 + delta_size\<close> bytes (the size it allocated), and decoding them, whatever follows, returns the
  stream.\<close>

theorem delta_wire_roundtrip:
  assumes "delta_valid d" and "delta_size d \<le> UINT64_MAX - 12" and "\<And>n. mem n"
  shows "\<exists>bytes. delta_serialize mem d = Some bytes \<and> length bytes = 12 + delta_size d \<and>
    delta_deserialize mem (bytes @ rest) = Some d"
proof -
  have "delta_serialize mem d = Some (delta_wire d)" using assms by (simp add: delta_serialize_eq)
  moreover have "length (delta_wire d) = 12 + delta_size d"
    using assms(1) by (simp add: length_wires delta_valid_def)
  ultimately show ?thesis
    using delta_deserialize_wire [where mem = mem, OF assms(1,3)] by auto
qed

theorem delta_wire_roundtrip_witness:
  "\<exists>bytes. delta_serialize (\<lambda>_. True) demo_delta = Some bytes \<and> length bytes = 12 + 19 \<and>
    delta_deserialize (\<lambda>_. True) (bytes @ [42]) = Some demo_delta"
  using delta_wire_roundtrip [of demo_delta "\<lambda>_. True" "[42]"]
  by (simp add: delta_valid_def demo_delta_def instr_fits_def valid_instr_def instr_size_def limits)

text \<open>C5: What the decoders accept. Bytes that decode to a delta begin with the canonical encoding of that
  delta, whose counts, fields and recorded size are in range; what follows the encoding is ignored. When
  memory is granted the converse holds as well, so that a value is decoded from exactly the buffers that
  begin with its encoding. The same for signatures, whose block count also matches the file size.\<close>

theorem delta_decoders_exact:
  "(delta_deserialize mem bytes = Some d \<longrightarrow> delta_valid d \<and> (\<exists>rest. bytes = delta_wire d @ rest)) \<and>
   (delta_signature_deserialize mem bytes = Some sig \<longrightarrow>
      signature_valid sig \<and> (\<exists>rest. bytes = signature_wire sig @ rest)) \<and>
   ((\<forall>n. mem n) \<longrightarrow>
      (delta_deserialize mem bytes = Some d \<longleftrightarrow> delta_valid d \<and> (\<exists>rest. bytes = delta_wire d @ rest)) \<and>
      (delta_signature_deserialize mem bytes = Some sig \<longleftrightarrow>
         signature_valid sig \<and> (\<exists>rest. bytes = signature_wire sig @ rest)))"
proof -
  have "delta_valid d \<and> (\<exists>rest. bytes = delta_wire d @ rest)" if "delta_deserialize mem bytes = Some d"
    using delta_deserialize_sound [OF that] by auto
  moreover have "signature_valid sig \<and> (\<exists>rest. bytes = signature_wire sig @ rest)"
    if "delta_signature_deserialize mem bytes = Some sig"
    using delta_signature_deserialize_sound [OF that] by auto
  ultimately show ?thesis
    using delta_deserialize_wire [of d mem] delta_signature_deserialize_wire [of sig mem] by blast
qed

theorem delta_decoders_exact_witness:
  "delta_deserialize (\<lambda>_. True) (delta_wire demo_delta @ [42]) = Some demo_delta \<and>
   (\<exists>sig. delta_signature_deserialize (\<lambda>_. True)
      (signature_wire (signature_of demo_xxh [1, 2, 3] 2 7) @ [42]) = Some sig)"
proof -
  let ?sig = "signature_of demo_xxh [1, 2, 3] 2 7"
  have "delta_valid demo_delta"
    by (simp add: delta_valid_def demo_delta_def instr_fits_def valid_instr_def instr_size_def limits)
  moreover have "signature_valid ?sig"
    by (rule signature_of_valid) (simp_all add: delta_sizes_def num_blocks_def limits)
  ultimately show ?thesis
    using delta_decoders_exact [of "\<lambda>_. True" "delta_wire demo_delta @ [42]" demo_delta]
      delta_decoders_exact [of "\<lambda>_. True" "signature_wire ?sig @ [42]" _ ?sig] by blast
qed

text \<open>A signature the receiver creates survives the wire. When memory is granted and the block
  count is within the limit, serialising and decoding a created signature, whatever follows it,
  returns it.\<close>

lemma delta_signature_roundtrip:
  assumes "delta_signature_create_seeded mem xxh old bs seed = Some sig"
    and "block_count sig \<le> MAX_DELTA_BLOCKS" and "\<And>n. mem n"
  shows "\<exists>bytes. delta_signature_serialize mem sig = Some bytes \<and>
    length bytes = 16 + block_count sig * 8 \<and>
    delta_signature_deserialize mem (bytes @ rest) = Some sig"
proof -
  from assms(1,2) have sig: "signature_valid sig"
    by (auto simp: delta_signature_create_eq delta_sizes_def split: if_splits
        intro!: signature_of_valid)
  moreover have "delta_signature_serialize mem sig = Some (signature_wire sig)"
    using assms(2,3) by (simp add: delta_signature_serialize_eq limits)
  ultimately show ?thesis
    using delta_signature_deserialize_wire [where mem = mem, OF sig assms(3)]
    by (auto simp: length_wires)
qed

end
