(* ===== verification/Queue.thy ===== *)
theory Queue
  imports Prelude
begin

text \<open>
  The ring-buffer queue (\<open>src/src/shared/queue.c\<close>) and the growing array
  (\<open>src/src/shared/array_list.c\<close>) that carry work between the program's stages. A pointer slot is
  an \<open>option\<close> (\<open>None\<close> is \<open>NULL\<close>); the \<open>int\<close> fields are \<open>nat\<close>, their ranges are part of the
  invariant. \<open>mem\<close> is the verdict of the allocator on a request size. The sums of two such fields are
  computed in \<open>int\<close>: where one can pass \<open>INT_MAX\<close> (\<open>queue_pop\<close> and \<open>queue_destroy\<close>, on rings of more
  than \<open>2 ^ 30\<close> slots) the operation returns an option, and \<open>None\<close> is the overflow, which C leaves
  undefined. The sums \<open>rear + 1\<close> and \<open>front + 1\<close> are at most the capacity, and \<open>i + front\<close> of
  \<open>queue_double_capacity\<close> is formed only for capacities up to \<open>INT_MAX / 2\<close>.

  The contract is the locale \<open>deque_spec\<close>: what the operations do to the sequence of queued items.
  It is interpreted on the ring buffer, whose wrap-around and growth it hides.
\<close>

section \<open>Definitions\<close>

record 'a queue =
  items :: "'a option list"
  front :: nat
  rear :: nat
  qsize :: nat
  qcap :: nat

definition queue_create :: "allocator \<Rightarrow> int \<Rightarrow> 'a queue option" where
  "queue_create mem capacity =
     (if capacity \<le> 0 then None
      else if \<not> mem 32 then None
      else if \<not> mem (nat capacity * 8) then None
      else Some \<lparr>items = replicate (nat capacity) None, front = 0, rear = 0, qsize = 0,
                 qcap = nat capacity\<rparr>)"

text \<open>\<open>queue_destroy\<close>: the items handed to the destroyer, in order; the memory is then freed.\<close>

definition queue_destroy :: "'a queue \<Rightarrow> 'a option list option" where
  "queue_destroy q =
     (if list_ex (\<lambda>i. INT_MAX < int (front q) + int i) [0..<qsize q] then None
      else Some (map (\<lambda>i. items q ! ((front q + i) mod qcap q)) [0..<qsize q]))"

definition queue_is_empty :: "'a queue \<Rightarrow> bool" where
  "queue_is_empty q \<longleftrightarrow> qsize q = 0"

definition queue_is_full :: "'a queue \<Rightarrow> bool" where
  "queue_is_full q \<longleftrightarrow> qsize q = qcap q"

text \<open>The slots of the new array beyond the copied items are not initialised; \<open>None\<close> stands for
  whatever they hold.\<close>

definition queue_double_capacity :: "allocator \<Rightarrow> 'a queue \<Rightarrow> 'a queue option" where
  "queue_double_capacity mem q =
     (if INT_MAX div 2 < int (qcap q) then None
      else let new_capacity = (if qcap q * 2 \<le> 1 then 100 else qcap q * 2) in
        if \<not> mem (new_capacity * 8) then None
        else Some (q\<lparr>items := map (\<lambda>i. items q ! ((i + front q) mod qcap q)) [0..<qsize q] @
                               replicate (new_capacity - qsize q) None,
                    front := 0, rear := qsize q, qcap := new_capacity\<rparr>))"

definition queue_put :: "'a \<Rightarrow> 'a queue \<Rightarrow> 'a queue" where
  "queue_put x q = q\<lparr>items := (items q)[rear q := Some x], rear := (rear q + 1) mod qcap q,
                    qsize := qsize q + 1\<rparr>"

definition queue_enqueue :: "allocator \<Rightarrow> 'a queue \<Rightarrow> 'a option \<Rightarrow> bool \<times> 'a queue" where
  "queue_enqueue mem q item =
     (case item of
        None \<Rightarrow> (False, q)
      | Some x \<Rightarrow>
          if queue_is_full q then
            (case queue_double_capacity mem q of
               None \<Rightarrow> (False, q)
             | Some q' \<Rightarrow> (True, queue_put x q'))
          else (True, queue_put x q))"

definition queue_dequeue :: "'a queue \<Rightarrow> 'a option \<times> 'a queue" where
  "queue_dequeue q =
     (if queue_is_empty q then (None, q)
      else (items q ! front q,
            q\<lparr>items := (items q)[front q := None], front := (front q + 1) mod qcap q,
              qsize := qsize q - 1\<rparr>))"

definition queue_push :: "allocator \<Rightarrow> 'a queue \<Rightarrow> 'a option \<Rightarrow> bool \<times> 'a queue" where
  "queue_push mem q item = queue_enqueue mem q item"

definition queue_pop :: "'a queue \<Rightarrow> ('a option \<times> 'a queue) option" where
  "queue_pop q =
     (if queue_is_empty q then Some (None, q)
      else if INT_MAX < int (rear q) - 1 + int (qcap q) then None
      else let r = (rear q + qcap q - 1) mod qcap q in
        Some (items q ! r, q\<lparr>items := (items q)[r := None], rear := r, qsize := qsize q - 1\<rparr>))"

text \<open>
  The blocking operations: what one turn under the mutex does. \<open>None\<close> means the thread goes to wait
  on the condition variable; otherwise the call returns.
\<close>

definition queue_enqueue_multithreaded ::
  "allocator \<Rightarrow> 'a queue \<Rightarrow> 'a option \<Rightarrow> (bool \<times> 'a queue) option" where
  "queue_enqueue_multithreaded mem q item =
     (if queue_is_full q then None else Some (queue_enqueue mem q item))"

definition queue_enqueue_multithreaded_cancel ::
  "allocator \<Rightarrow> 'a queue \<Rightarrow> 'a option \<Rightarrow> bool \<Rightarrow> (bool \<times> 'a queue) option" where
  "queue_enqueue_multithreaded_cancel mem q item cancelled =
     (if queue_is_full q \<and> \<not> cancelled then None
      else if cancelled then Some (False, q)
      else Some (queue_enqueue mem q item))"

definition queue_dequeue_multithreaded ::
  "'a queue \<Rightarrow> bool \<Rightarrow> ('a option \<times> 'a queue) option" where
  "queue_dequeue_multithreaded q other_thread_done =
     (if queue_is_empty q \<and> \<not> other_thread_done then None
      else if queue_is_empty q \<and> other_thread_done then Some (None, q)
      else Some (queue_dequeue q))"

subsection \<open>Growing arrays\<close>

definition INITIAL_ARRAY_SIZE :: nat where
  "INITIAL_ARRAY_SIZE = 100"

record 'a array_list =
  elems :: "'a list"
  acap :: nat

text \<open>The list holds the used slots; \<open>size\<close> is its length.\<close>

definition array_list_create :: "allocator \<Rightarrow> 'a array_list option" where
  "array_list_create mem =
     (if \<not> mem 24 then None
      else if \<not> mem (INITIAL_ARRAY_SIZE * 8) then None
      else Some \<lparr>elems = [], acap = INITIAL_ARRAY_SIZE\<rparr>)"

definition array_list_extend :: "allocator \<Rightarrow> 'a array_list \<Rightarrow> 'a array_list option" where
  "array_list_extend mem l =
     (if INT_MAX div 2 < int (acap l) then None
      else let new_capacity = (if acap l * 2 = 0 then INITIAL_ARRAY_SIZE else acap l * 2) in
        if \<not> mem (new_capacity * 8) then None
        else Some (l\<lparr>acap := new_capacity\<rparr>))"

definition array_list_add :: "allocator \<Rightarrow> 'a array_list \<Rightarrow> 'a \<Rightarrow> bool \<times> 'a array_list" where
  "array_list_add mem l item =
     (if acap l = length (elems l) then
        (case array_list_extend mem l of
           None \<Rightarrow> (False, l)
         | Some l' \<Rightarrow> (True, l'\<lparr>elems := elems l' @ [item]\<rparr>))
      else (True, l\<lparr>elems := elems l @ [item]\<rparr>))"

definition array_list_to_array :: "allocator \<Rightarrow> 'a array_list \<Rightarrow> 'a list option" where
  "array_list_to_array mem l = (if \<not> mem (length (elems l) * 8) then None else Some (elems l))"

section \<open>The contract\<close>

text \<open>Runs of an operation: enqueue a list of items, and take items until there is none.\<close>

primrec enq_all :: "('q \<Rightarrow> 'a \<Rightarrow> 'q option) \<Rightarrow> 'q \<Rightarrow> 'a list \<Rightarrow> 'q option" where
  "enq_all enq q [] = Some q"
| "enq_all enq q (x # xs) = (case enq q x of None \<Rightarrow> None | Some q' \<Rightarrow> enq_all enq q' xs)"

primrec drain :: "nat \<Rightarrow> ('q \<Rightarrow> ('a \<times> 'q) option) \<Rightarrow> 'q \<Rightarrow> 'a list" where
  "drain 0 get q = []"
| "drain (Suc n) get q = (case get q of None \<Rightarrow> [] | Some (x, q') \<Rightarrow> x # drain n get q')"

text \<open>\<open>small\<close> are the states in which taking the last item is defined.\<close>

locale deque_spec =
  fixes enq :: "'q \<Rightarrow> 'a \<Rightarrow> 'q option"
    and deq :: "'q \<Rightarrow> ('a \<times> 'q) option"
    and pop :: "'q \<Rightarrow> ('a \<times> 'q) option"
    and abs :: "'q \<Rightarrow> 'a list"
    and ok :: "'q \<Rightarrow> bool"
    and small :: "'q \<Rightarrow> bool"
  assumes enq_abs: "ok q \<Longrightarrow> enq q x = Some q' \<Longrightarrow> ok q' \<and> abs q' = abs q @ [x]"
    and deq_abs: "ok q \<Longrightarrow> abs q = x # xs \<Longrightarrow> \<exists>q'. deq q = Some (x, q') \<and> ok q' \<and> abs q' = xs"
    and deq_empty: "ok q \<Longrightarrow> abs q = [] \<Longrightarrow> deq q = None"
    and pop_abs: "ok q \<Longrightarrow> small q \<Longrightarrow> abs q = xs @ [x] \<Longrightarrow> \<exists>q'. pop q = Some (x, q') \<and> ok q' \<and> small q' \<and> abs q' = xs"
    and pop_empty: "ok q \<Longrightarrow> abs q = [] \<Longrightarrow> pop q = None"
begin

lemma enq_all_abs: "ok q \<Longrightarrow> enq_all enq q xs = Some q' \<Longrightarrow> ok q' \<and> abs q' = abs q @ xs"
proof (induction xs arbitrary: q)
  case (Cons x xs)
  then obtain r where r: "enq q x = Some r" "enq_all enq r xs = Some q'" by (auto split: option.splits)
  with enq_abs [OF Cons.prems(1) r(1)] Cons.IH [of r] show ?case by simp
qed simp

lemma drain_fifo: "ok q \<Longrightarrow> length (abs q) \<le> n \<Longrightarrow> drain n deq q = abs q"
proof (induction n arbitrary: q)
  case (Suc n)
  show ?case
  proof (cases "abs q")
    case Nil
    with Suc.prems deq_empty show ?thesis by simp
  next
    case (Cons x xs)
    with deq_abs [OF Suc.prems(1) Cons] Suc show ?thesis by auto
  qed
qed simp

lemma drain_lifo: "ok q \<Longrightarrow> small q \<Longrightarrow> length (abs q) \<le> n \<Longrightarrow> drain n pop q = rev (abs q)"
proof (induction n arbitrary: q)
  case (Suc n)
  show ?case
  proof (cases "abs q" rule: rev_cases)
    case Nil
    with Suc.prems pop_empty show ?thesis by simp
  next
    case (snoc xs x)
    with pop_abs [OF Suc.prems(1,2) snoc] Suc show ?thesis by auto
  qed
qed simp

end


section \<open>The ring buffer meets the contract\<close>

definition queue_inv :: "'a queue \<Rightarrow> bool" where
  "queue_inv q \<longleftrightarrow> 0 < qcap q \<and> int (qcap q) \<le> INT_MAX \<and> length (items q) = qcap q \<and>
     front q < qcap q \<and> qsize q \<le> qcap q \<and> rear q = (front q + qsize q) mod qcap q \<and>
     (\<forall>i<qsize q. items q ! ((front q + i) mod qcap q) \<noteq> None)"

definition queue_abs :: "'a queue \<Rightarrow> 'a list" where
  "queue_abs q = map (\<lambda>i. the (items q ! ((front q + i) mod qcap q))) [0..<qsize q]"

lemma queue_abs_simps [simp]: "length (queue_abs q) = qsize q"
  by (simp add: queue_abs_def)

lemma queue_put_inv:
  assumes inv: "queue_inv q" and room: "qsize q < qcap q"
  shows "queue_inv (queue_put x q) \<and> queue_abs (queue_put x q) = queue_abs q @ [x]"
proof -
  have r: "rear q = (front q + qsize q) mod qcap q" and "rear q < length (items q)"
    using inv by (auto simp: queue_inv_def)
  then have *: "(items q)[rear q := Some x] ! ((front q + i) mod qcap q) =
      (if i = qsize q then Some x else items q ! ((front q + i) mod qcap q))" if "i \<le> qsize q" for i
    using that room ring_inj [of i "qcap q" "qsize q" "front q"] by auto
  have "Suc ((front q + qsize q) mod qcap q) mod qcap q = Suc (front q + qsize q) mod qcap q"
    by (simp add: mod_Suc_eq)
  with inv room * r show ?thesis
    by (auto simp: queue_inv_def queue_put_def queue_abs_def)
qed

lemma queue_double_inv:
  assumes inv: "queue_inv q" and full: "queue_is_full q"
    and dbl: "queue_double_capacity mem q = Some q'"
  shows "queue_inv q' \<and> queue_abs q' = queue_abs q \<and> qsize q' < qcap q' \<and> qsize q' = qsize q"
proof -
  let ?n = "qcap q * 2"
  have cap: "0 < qcap q" "int ?n \<le> INT_MAX" "qcap q * 2 > 1"
    using inv dbl by (auto simp: queue_inv_def queue_double_capacity_def INT_MAX_def split: if_splits)
  then have q': "q' = q\<lparr>items := map (\<lambda>i. items q ! ((i + front q) mod qcap q)) [0..<qsize q] @
      replicate (?n - qsize q) None, front := 0, rear := qsize q, qcap := ?n\<rparr>"
    using dbl by (auto simp: queue_double_capacity_def Let_def split: if_splits)
  have "items q' ! (i mod ?n) = items q ! ((front q + i) mod qcap q)" if "i < qsize q" for i
    using that full by (simp add: q' queue_is_full_def nth_append add.commute)
  then show ?thesis using inv full cap
    by (auto simp: queue_inv_def queue_abs_def queue_is_full_def q' add.commute)
qed

lemma queue_enqueue_inv:
  assumes "queue_inv q" and "queue_enqueue mem q (Some x) = (True, q')"
  shows "queue_inv q' \<and> queue_abs q' = queue_abs q @ [x]"
proof (cases "queue_is_full q")
  case True
  then obtain r where r: "queue_double_capacity mem q = Some r" "q' = queue_put x r"
    using assms(2) by (auto simp: queue_enqueue_def split: option.splits)
  with queue_double_inv [OF assms(1) True r(1)] queue_put_inv [of r x] show ?thesis by simp
next
  case False
  with assms have "qsize q < qcap q" "q' = queue_put x q"
    by (auto simp: queue_enqueue_def queue_is_full_def queue_inv_def)
  with queue_put_inv [OF assms(1)] show ?thesis by simp
qed

lemma queue_abs_nth: "i < qsize q \<Longrightarrow> queue_abs q ! i = the (items q ! ((front q + i) mod qcap q))"
  by (simp add: queue_abs_def)

lemma queue_item:
  "queue_inv q \<Longrightarrow> i < qsize q \<Longrightarrow> items q ! ((front q + i) mod qcap q) = Some (queue_abs q ! i)"
  by (auto simp: queue_inv_def queue_abs_nth)

text \<open>Reading the abstraction off a ring: a queue whose slots hold the items of \<open>xs\<close> in order.\<close>

lemma queue_inv_absI:
  assumes "0 < qcap q" "int (qcap q) \<le> INT_MAX" "length (items q) = qcap q" "front q < qcap q"
    and "length xs \<le> qcap q" "qsize q = length xs" "rear q = (front q + length xs) mod qcap q"
    and "\<And>i. i < length xs \<Longrightarrow> items q ! ((front q + i) mod qcap q) = Some (xs ! i)"
  shows "queue_inv q \<and> queue_abs q = xs"
  using assms by (auto simp: queue_inv_def queue_abs_def intro!: nth_equalityI)

lemma queue_dequeue_inv:
  assumes inv: "queue_inv q" and q: "queue_abs q = x # xs"
  shows "\<exists>q'. queue_dequeue q = (Some x, q') \<and> queue_inv q' \<and> queue_abs q' = xs"
proof -
  let ?q = "snd (queue_dequeue q)"
  have n: "qsize q = Suc (length xs)" using q by (metis length_Cons queue_abs_simps)
  have f: "0 < qcap q" "int (qcap q) \<le> INT_MAX" "front q < qcap q" "qsize q \<le> qcap q"
    "length (items q) = qcap q" "rear q = (front q + qsize q) mod qcap q"
    using inv by (auto simp: queue_inv_def)
  have x: "items q ! front q = Some x" using queue_item [OF inv, of 0] n f q by simp
  have *: "(items q)[front q := None] ! ((Suc (front q) mod qcap q + i) mod qcap q) = Some (xs ! i)"
    if "i < length xs" for i
  proof -
    have "(front q + Suc i) mod qcap q \<noteq> (front q + 0) mod qcap q"
      using ring_inj [of "Suc i" "qcap q" 0 "front q"] that n f by simp
    then show ?thesis using queue_item [OF inv, of "Suc i"] n f q that by (simp add: mod_add_left_eq)
  qed
  have fields: "qsize ?q = length xs" "qcap ?q = qcap q" "front ?q = Suc (front q) mod qcap q"
    "items ?q = (items q)[front q := None]" "rear ?q = rear q"
    using n by (simp_all add: queue_dequeue_def queue_is_empty_def)
  have "queue_inv ?q \<and> queue_abs ?q = xs"
    by (rule queue_inv_absI, unfold fields) (use f n * in \<open>simp_all add: mod_add_left_eq\<close>)
  moreover have "queue_dequeue q = (Some x, ?q)"
    using n x by (simp add: queue_dequeue_def queue_is_empty_def)
  ultimately show ?thesis by blast
qed

text \<open>The rings on which no index computation overflows.\<close>

definition queue_small :: "'a queue \<Rightarrow> bool" where
  "queue_small q \<longleftrightarrow> qcap q \<le> 2 ^ 30"

lemma queue_pop_inv:
  assumes inv: "queue_inv q" and q: "queue_abs q = xs @ [x]" and fits: "int (rear q) - 1 + int (qcap q) \<le> INT_MAX"
  shows "\<exists>q'. queue_pop q = Some (Some x, q') \<and> queue_inv q' \<and> queue_abs q' = xs \<and> qcap q' = qcap q"
proof -
  let ?q = "snd (the (queue_pop q))" and ?r = "(front q + length xs) mod qcap q"
  have n: "qsize q = Suc (length xs)" using q by (metis length_append_singleton queue_abs_simps)
  have f: "0 < qcap q" "int (qcap q) \<le> INT_MAX" "front q < qcap q" "qsize q \<le> qcap q"
    "length (items q) = qcap q" "rear q = (front q + qsize q) mod qcap q"
    using inv by (auto simp: queue_inv_def)
  have r: "(rear q + qcap q - 1) mod qcap q = ?r"
  proof -
    have "(rear q + qcap q - 1) mod qcap q = ((front q + qsize q) mod qcap q + (qcap q - 1)) mod qcap q"
      using f by simp
    also have "\<dots> = (front q + qsize q + (qcap q - 1)) mod qcap q" by (rule mod_add_left_eq)
    also have "front q + qsize q + (qcap q - 1) = front q + length xs + qcap q" using n f(1) by simp
    finally show ?thesis by simp
  qed
  have x: "items q ! ?r = Some x" using queue_item [OF inv, of "length xs"] n q by simp
  have *: "(items q)[?r := None] ! ((front q + i) mod qcap q) = Some (xs ! i)"
    if "i < length xs" for i
    using queue_item [OF inv, of i] ring_inj [of i "qcap q" "length xs" "front q"] that n f q
    by (simp add: nth_append)
  have pop: "queue_pop q = Some (Some x, ?q)"
    using n x fits unfolding queue_pop_def Let_def r by (simp add: queue_is_empty_def)
  have fields: "qsize ?q = length xs" "qcap ?q = qcap q" "front ?q = front q"
    "items ?q = (items q)[?r := None]" "rear ?q = ?r"
    using n fits unfolding queue_pop_def Let_def r by (simp_all add: queue_is_empty_def)
  have "queue_inv ?q \<and> queue_abs ?q = xs"
    by (rule queue_inv_absI, unfold fields) (use f n * in simp_all)
  with pop fields(2) show ?thesis by blast
qed


definition queue_enq :: "allocator \<Rightarrow> 'a queue \<Rightarrow> 'a \<Rightarrow> 'a queue option" where
  "queue_enq mem q x = (case queue_enqueue mem q (Some x) of (ok, q') \<Rightarrow> if ok then Some q' else None)"

lemma queue_small_fits: "queue_inv q \<Longrightarrow> queue_small q \<Longrightarrow> int (rear q) - 1 + int (qcap q) \<le> INT_MAX"
proof -
  assume "queue_inv q" and "queue_small q"
  then have "rear q < qcap q" "qcap q \<le> 2 ^ 30" by (auto simp: queue_inv_def queue_small_def)
  then show ?thesis by (simp add: INT_MAX_def)
qed

definition queue_get :: "('a queue \<Rightarrow> 'a option \<times> 'a queue) \<Rightarrow> 'a queue \<Rightarrow> ('a \<times> 'a queue) option" where
  "queue_get op q = (case op q of (None, _) \<Rightarrow> None | (Some x, q') \<Rightarrow> Some (x, q'))"

definition queue_take_last :: "'a queue \<Rightarrow> ('a \<times> 'a queue) option" where
  "queue_take_last q = (case queue_pop q of Some (Some x, q') \<Rightarrow> Some (x, q') | _ \<Rightarrow> None)"

interpretation ring: deque_spec "queue_enq mem" "queue_get queue_dequeue" queue_take_last
  queue_abs queue_inv queue_small for mem
proof
  fix q q' :: "'a queue" and x
  assume "queue_inv q" and "queue_enq mem q x = Some q'"
  then show "queue_inv q' \<and> queue_abs q' = queue_abs q @ [x]"
    by (auto simp: queue_enq_def queue_enqueue_inv split: prod.splits if_splits)
next
  fix q :: "'a queue" and x xs
  assume "queue_inv q" and "queue_abs q = x # xs"
  from queue_dequeue_inv [OF this]
  show "\<exists>q'. queue_get queue_dequeue q = Some (x, q') \<and> queue_inv q' \<and> queue_abs q' = xs"
    by (auto simp: queue_get_def)
next
  fix q :: "'a queue" and x xs
  assume "queue_inv q" and "queue_small q" and "queue_abs q = xs @ [x]"
  from queue_pop_inv [OF this(1,3) queue_small_fits [OF this(1,2)]] this(2)
  show "\<exists>q'. queue_take_last q = Some (x, q') \<and> queue_inv q' \<and> queue_small q' \<and> queue_abs q' = xs"
    by (auto simp: queue_take_last_def queue_small_def)
qed (auto simp: queue_get_def queue_take_last_def queue_dequeue_def queue_pop_def queue_is_empty_def queue_abs_def)

lemma queue_create_inv:
  "queue_create mem capacity = Some q \<Longrightarrow> capacity \<le> INT_MAX \<Longrightarrow> queue_inv q \<and> queue_abs q = []"
  by (auto simp: queue_create_def queue_inv_def queue_abs_def split: if_splits)

lemma queue_empty_ops:
  assumes "queue_abs q = []"
  shows "queue_dequeue q = (None, q)" and "queue_pop q = Some (None, q)"
proof -
  have "qsize q = 0" using assms queue_abs_simps [of q] by simp
  then show "queue_dequeue q = (None, q)" and "queue_pop q = Some (None, q)"
    by (simp_all add: queue_dequeue_def queue_pop_def queue_is_empty_def)
qed

text \<open>Enqueueing succeeds while the queue may still double and memory is granted.\<close>

lemma queue_enqueue_ok:
  assumes "queue_inv q" and "\<not> queue_is_full q \<or> int (qcap q) \<le> INT_MAX div 2" and "\<And>n. mem n"
  shows "\<exists>q'. queue_enqueue mem q (Some x) = (True, q')"
  using assms by (auto simp: queue_enqueue_def queue_double_capacity_def Let_def split: option.splits)

lemma queue_enqueue_fail: "queue_enqueue mem q item = (False, q') \<Longrightarrow> q' = q"
  by (auto simp: queue_enqueue_def split: option.splits if_splits)

section \<open>Properties\<close>

text \<open>C8: The ring buffer is a queue and a stack over one sequence. Each operation maps the ring's
  state (any wrap-around, any growth) to the sequence of queued items: a successful enqueue appends,
  a refused one leaves the queue as it was, dequeue takes the first item and pop the last one, and
  both report an empty queue; destroying the ring hands out the queued items in order; the ring
  invariant is kept throughout. Pop and destroy are defined on every ring of up to \<open>2 ^ 30\<close> slots; pop
  is undefined exactly when the queue is not empty and \<open>rear - 1 + capacity\<close> passes \<open>INT_MAX\<close>.\<close>

theorem queue_operations_refine:
  assumes "queue_inv q"
  shows "(\<forall>q'. queue_enqueue mem q (Some x) = (True, q') \<longrightarrow>
            queue_inv q' \<and> queue_abs q' = queue_abs q @ [x]) \<and>
    (\<forall>q'. queue_enqueue mem q (Some x) = (False, q') \<longrightarrow> q' = q) \<and>
    (\<exists>q'. queue_dequeue q = (if queue_abs q = [] then None else Some (hd (queue_abs q)), q') \<and>
       queue_inv q' \<and> queue_abs q' = tl (queue_abs q)) \<and>
    (case queue_pop q of
       None \<Rightarrow> queue_abs q \<noteq> [] \<and> INT_MAX < int (rear q) - 1 + int (qcap q)
     | Some (y, q') \<Rightarrow> y = (if queue_abs q = [] then None else Some (last (queue_abs q))) \<and>
         queue_inv q' \<and> queue_abs q' = butlast (queue_abs q)) \<and>
    (qcap q \<le> 2 ^ 30 \<longrightarrow> queue_pop q \<noteq> None \<and> queue_destroy q = Some (map Some (queue_abs q)))"
proof -
  have "\<exists>q'. queue_dequeue q = (if queue_abs q = [] then None else Some (hd (queue_abs q)), q') \<and>
       queue_inv q' \<and> queue_abs q' = tl (queue_abs q)"
  proof (cases "queue_abs q")
    case Nil
    then show ?thesis using assms queue_empty_ops(1) [OF Nil] by simp
  next
    case (Cons x xs)
    from queue_dequeue_inv [OF assms Cons] show ?thesis unfolding Cons by simp
  qed
  moreover have "case queue_pop q of
       None \<Rightarrow> queue_abs q \<noteq> [] \<and> INT_MAX < int (rear q) - 1 + int (qcap q)
     | Some (y, q') \<Rightarrow> y = (if queue_abs q = [] then None else Some (last (queue_abs q))) \<and>
         queue_inv q' \<and> queue_abs q' = butlast (queue_abs q)"
  proof (cases "queue_abs q" rule: rev_cases)
    case Nil
    then show ?thesis using assms queue_empty_ops(2) [OF Nil] by simp
  next
    case (snoc xs x)
    show ?thesis
    proof (cases "int (rear q) - 1 + int (qcap q) \<le> INT_MAX")
      case True
      from queue_pop_inv [OF assms snoc True] show ?thesis unfolding snoc by auto
    next
      case False
      have "\<not> queue_is_empty q" using queue_abs_simps [of q] by (simp add: snoc queue_is_empty_def)
      with False snoc show ?thesis by (simp add: queue_pop_def)
    qed
  qed
  moreover have "queue_pop q \<noteq> None" if "qcap q \<le> 2 ^ 30"
    using queue_small_fits [OF assms] that by (simp add: queue_pop_def queue_small_def Let_def)
  moreover have "queue_destroy q = Some (map Some (queue_abs q))" if "qcap q \<le> 2 ^ 30"
  proof -
    have "\<not> INT_MAX < int (front q) + int i" if "i < qsize q" for i
      using that \<open>qcap q \<le> 2 ^ 30\<close> assms by (simp add: queue_inv_def INT_MAX_def)
    then have "\<not> list_ex (\<lambda>i. INT_MAX < int (front q) + int i) [0..<qsize q]" by (auto simp: list_ex_iff)
    moreover have "items q ! ((front q + i) mod qcap q) = Some (queue_abs q ! i)" if "i < qsize q" for i
      using queue_item [OF assms that] .
    ultimately show ?thesis by (auto simp: queue_destroy_def intro!: nth_equalityI)
  qed
  ultimately show ?thesis
    by (intro conjI allI impI queue_enqueue_inv [OF assms] queue_enqueue_fail)
qed

definition demo_queue :: "nat queue" where
  "demo_queue = \<lparr>items = [Some 3, None, Some 1], front = 2, rear = 1, qsize = 2, qcap = 3\<rparr>"

theorem queue_operations_refine_witness:
  "queue_abs (snd (queue_enqueue (\<lambda>_. True) demo_queue (Some 7))) = [1, 3, 7] \<and>
   queue_abs (snd (queue_dequeue demo_queue)) = [3] \<and> queue_abs (snd (the (queue_pop demo_queue))) = [1] \<and>
   queue_destroy demo_queue = Some [Some 1, Some 3]"
proof -
  have inv: "queue_inv demo_queue"
    by (auto simp: demo_queue_def queue_inv_def INT_MAX_def less_2_cases_iff)
  have enq: "queue_enqueue (\<lambda>_. True) demo_queue (Some 7) = (True, queue_put 7 demo_queue)"
    by (simp add: demo_queue_def queue_enqueue_def queue_is_full_def)
  have abs: "queue_abs demo_queue = [1, 3]" by (simp add: demo_queue_def queue_abs_def upt_rec)
  have cap: "qcap demo_queue \<le> 2 ^ 30" by (simp add: demo_queue_def)
  note t = queue_operations_refine [OF inv, of "\<lambda>_. True" 7, unfolded enq abs]
  from t have "queue_abs (queue_put 7 demo_queue) = [1, 3, 7]" by simp
  moreover from t have "queue_abs (snd (queue_dequeue demo_queue)) = [3]" by auto
  moreover from t cap have "queue_abs (snd (the (queue_pop demo_queue))) = [1]" by (auto split: option.splits)
  moreover from t cap have "queue_destroy demo_queue = Some [Some 1, Some 3]" by simp
  ultimately show ?thesis by (simp add: enq)
qed

text \<open>First in, first out, and last in, first out. Items enqueued one after the other onto an
  empty ring, whatever doubling they cause, are dequeued in the same order, and popped in the
  reverse order while the ring has at most \<open>2 ^ 30\<close> slots.\<close>

lemma queue_fifo_lifo:
  assumes "queue_create mem capacity = Some q" and "capacity \<le> INT_MAX"
    and "enq_all (queue_enq mem) q xs = Some q'" and "length xs \<le> n"
  shows "drain n (queue_get queue_dequeue) q' = xs \<and>
    (qcap q' \<le> 2 ^ 30 \<longrightarrow> drain n queue_take_last q' = rev xs)"
proof -
  have q: "queue_inv q" "queue_abs q = []" using queue_create_inv [OF assms(1,2)] by auto
  have "queue_inv q'" "queue_abs q' = xs" using ring.enq_all_abs [OF q(1) assms(3)] q(2) by auto
  then show ?thesis using ring.drain_fifo [of q' n] ring.drain_lifo [of q' n] assms(4) by (simp add: queue_small_def)
qed

end
