(* ===== verification/Pipeline.thy ===== *)
theory Pipeline
  imports Queue
begin

text \<open>
  The loader-to-sender stage of the sending pipeline (\<open>src/src/shared/multiprocessing.c\<close>, driven by
  \<open>load_files_multithreaded\<close> and \<open>send_chunks_multithreaded\<close> of \<open>src/src/client/client_send.c\<close>):
  one loader thread and one sender thread over a bounded queue of chunks with a budget of payload
  bytes, a mutex and two condition variables.

  Every critical section is one step of the relation \<open>pstep\<close>. A thread parked by \<open>cnd_wait\<close> is a
  flag; \<open>cnd_signal\<close> clears it, and a spurious wake-up (in \<open>penv\<close>) may clear it at any time. Signals
  are sent exactly where the code sends them, so a lost wake-up would be a stuck state. Sending a
  chunk may load a payload that the loader left on disk (\<open>send_append\<close>): one above \<open>STREAM_THRESHOLD\<close>, or,
  with \<open>use_sendfile\<close>, one of any size. The bytes released are counted after that, as the code does.

  What the threads do not decide is in \<open>penv\<close>: spurious wake-ups, a cancellation from elsewhere, and the
  sender giving up, between two chunks (an abort or the stop deadline) or because a chunk could not be
  sent. That chunk is destroyed and its bytes are never released; it stays in \<open>sending\<close>, where the
  charge belongs.
\<close>

section \<open>Definitions\<close>

text \<open>A chunk is an identity and its entries' in-memory payload sizes (\<open>None\<close>: nothing loaded).\<close>

type_synonym chunk = "nat \<times> nat option list"

fun payload_total :: "nat \<Rightarrow> nat option list \<Rightarrow> nat" where
  "payload_total acc [] = acc"
| "payload_total acc (None # es) = payload_total acc es"
| "payload_total acc (Some n # es) =
     (if SIZE_MAX - acc < n then SIZE_MAX else payload_total (acc + n) es)"

definition sender_chunk_bytes :: "chunk \<Rightarrow> nat" where
  "sender_chunk_bytes c = payload_total 0 (snd c)"

record pipeline =
  queue_loader :: "chunk queue"
  loader_done :: bool
  queued_bytes :: nat
  max_queue_bytes :: nat
  cancelled :: bool

definition set_queue_byte_limit :: "pipeline \<Rightarrow> nat \<Rightarrow> pipeline" where
  "set_queue_byte_limit p max_bytes = p\<lparr>max_queue_bytes := max_bytes, queued_bytes := 0\<rparr>"

definition note_bytes_released :: "pipeline \<Rightarrow> nat \<Rightarrow> pipeline \<times> bool" where
  "note_bytes_released p released =
     (if max_queue_bytes p = 0 \<or> released = 0 then (p, False)
      else (p\<lparr>queued_bytes := (if queued_bytes p \<le> released then 0 else queued_bytes p - released)\<rparr>,
            True))"

definition blocked_by_budget :: "pipeline \<Rightarrow> nat \<Rightarrow> bool" where
  "blocked_by_budget p bytes =
     (if 0 < max_queue_bytes p then
        (let budget = max_queue_bytes p; used = queued_bytes p in
         if budget \<le> used then True
         else if budget - used < bytes then used \<noteq> 0
         else False)
      else False)"

text \<open>One turn of \<open>pipeline_context_sender_enqueue_chunk\<close> under the mutex; \<open>None\<close>: it waits.\<close>

definition sender_enqueue_chunk :: "allocator \<Rightarrow> pipeline \<Rightarrow> chunk \<Rightarrow> (bool \<times> pipeline) option" where
  "sender_enqueue_chunk mem p c =
     (let bytes = sender_chunk_bytes c in
      if \<not> cancelled p \<and> (queue_is_full (queue_loader p) \<or> blocked_by_budget p bytes) then None
      else if cancelled p then Some (False, p)
      else (case queue_enqueue mem (queue_loader p) (Some c) of
              (False, _) \<Rightarrow> Some (False, p)
            | (True, q) \<Rightarrow> Some (True, p\<lparr>queue_loader := q, queued_bytes := queued_bytes p + bytes\<rparr>)))"

definition pipeline_cancel :: "pipeline \<Rightarrow> pipeline" where
  "pipeline_cancel p = p\<lparr>cancelled := True, loader_done := True\<rparr>"

text \<open>The threads: what is left to load, what is being sent, what was sent, who is parked.\<close>

record threads = pipeline +
  todo :: "chunk list"
  sending :: "chunk option"
  sent :: "chunk list"
  loader_waits :: bool
  sender_waits :: bool
  finished :: bool

inductive pstep :: "allocator \<Rightarrow> threads \<Rightarrow> threads \<Rightarrow> bool" for mem where
  load_wait: "\<lbrakk>\<not> loader_waits s; todo s = c # cs;
     sender_enqueue_chunk mem (pipeline.truncate s) c = None\<rbrakk> \<Longrightarrow>
   pstep mem s (s\<lparr>loader_waits := True\<rparr>)"
| load_put: "\<lbrakk>\<not> loader_waits s; todo s = c # cs;
     sender_enqueue_chunk mem (pipeline.truncate s) c = Some (True, p)\<rbrakk> \<Longrightarrow>
   pstep mem s (s\<lparr>queue_loader := queue_loader p, queued_bytes := queued_bytes p, todo := cs,
                 sender_waits := False\<rparr>)"
| load_fail: "\<lbrakk>\<not> loader_waits s; todo s = c # cs;
     sender_enqueue_chunk mem (pipeline.truncate s) c = Some (False, p)\<rbrakk> \<Longrightarrow>
   pstep mem s (s\<lparr>cancelled := True, loader_done := True, todo := [], sender_waits := False\<rparr>)"
| load_end: "\<lbrakk>\<not> loader_waits s; todo s = []; \<not> loader_done s\<rbrakk> \<Longrightarrow>
   pstep mem s (s\<lparr>loader_done := True, sender_waits := False\<rparr>)"
| send_wait: "\<lbrakk>\<not> sender_waits s; \<not> finished s; sending s = None;
     queue_dequeue_multithreaded (queue_loader s) (loader_done s) = None\<rbrakk> \<Longrightarrow>
   pstep mem s (s\<lparr>sender_waits := True\<rparr>)"
| send_take: "\<lbrakk>\<not> sender_waits s; \<not> finished s; sending s = None;
     queue_dequeue_multithreaded (queue_loader s) (loader_done s) = Some (Some c, q)\<rbrakk> \<Longrightarrow>
   pstep mem s (s\<lparr>queue_loader := q, sending := Some c, loader_waits := False\<rparr>)"
| send_end: "\<lbrakk>\<not> sender_waits s; \<not> finished s; sending s = None;
     queue_dequeue_multithreaded (queue_loader s) (loader_done s) = Some (None, q)\<rbrakk> \<Longrightarrow>
   pstep mem s (s\<lparr>finished := True\<rparr>)"
| send_load: "\<lbrakk>\<not> finished s; sending s = Some (k, es); i < length es; es ! i = None\<rbrakk> \<Longrightarrow>
   pstep mem s (s\<lparr>sending := Some (k, es[i := Some n])\<rparr>)"
| send_release: "\<lbrakk>\<not> finished s; sending s = Some c;
     note_bytes_released (pipeline.truncate s) (sender_chunk_bytes c) = (p, signalled)\<rbrakk> \<Longrightarrow>
   pstep mem s (s\<lparr>queued_bytes := queued_bytes p, sending := None, sent := sent s @ [c],
                 loader_waits := (loader_waits s \<and> \<not> signalled)\<rparr>)"

inductive penv :: "threads \<Rightarrow> threads \<Rightarrow> bool" where
  wake_loader: "penv s (s\<lparr>loader_waits := False\<rparr>)"
| wake_sender: "penv s (s\<lparr>sender_waits := False\<rparr>)"
| cancel: "penv s (s\<lparr>cancelled := True, loader_done := True, loader_waits := False,
                     sender_waits := False\<rparr>)"
| send_stop: "\<lbrakk>\<not> sender_waits s; \<not> finished s; sending s = None\<rbrakk> \<Longrightarrow>
   penv s (s\<lparr>cancelled := True, loader_done := True, loader_waits := False, finished := True\<rparr>)"
| send_fail: "\<lbrakk>\<not> finished s; sending s = Some c\<rbrakk> \<Longrightarrow>
   penv s (s\<lparr>cancelled := True, loader_done := True, loader_waits := False, finished := True\<rparr>)"

definition pinit :: "chunk queue \<Rightarrow> nat \<Rightarrow> chunk list \<Rightarrow> threads" where
  "pinit q limit cs = \<lparr>queue_loader = q, loader_done = False, queued_bytes = 0,
     max_queue_bytes = limit, cancelled = False, todo = cs, sending = None, sent = [],
     loader_waits = False, sender_waits = False, finished = False\<rparr>"

inductive reachable :: "allocator \<Rightarrow> threads \<Rightarrow> threads \<Rightarrow> bool" for mem s0 where
  start: "reachable mem s0 s0"
| step: "reachable mem s0 s \<Longrightarrow> pstep mem s s' \<Longrightarrow> reachable mem s0 s'"
| wake: "reachable mem s0 s \<Longrightarrow> penv s s' \<Longrightarrow> reachable mem s0 s'"

inductive_cases pstepE: "pstep mem s s'"
inductive_cases penvE: "penv s s'"


section \<open>The invariant\<close>

definition payload :: "nat option list \<Rightarrow> nat" where
  "payload es = sum_list (map (\<lambda>e. case e of None \<Rightarrow> 0 | Some n \<Rightarrow> n) es)"

lemma payload_total_eq: "acc \<le> SIZE_MAX \<Longrightarrow> payload_total acc es = min SIZE_MAX (acc + payload es)"
  by (induction acc es rule: payload_total.induct) (auto simp: payload_def min_def)

lemma sender_chunk_bytes_eq: "sender_chunk_bytes c = min SIZE_MAX (payload (snd c))"
  by (simp add: sender_chunk_bytes_def payload_total_eq)

lemma payload_load:
  assumes "i < length es" and "es ! i = None"
  shows "payload (es[i := Some n]) = payload es + n"
proof -
  let ?f = "\<lambda>e :: nat option. case e of None \<Rightarrow> 0 | Some n \<Rightarrow> n"
  have "(map ?f es) ! i = 0" using assms by simp
  then show ?thesis using assms
    by (simp add: payload_def map_update sum_list_update)
qed

lemma sender_chunk_bytes_load:
  "i < length es \<Longrightarrow> es ! i = None \<Longrightarrow>
   sender_chunk_bytes (k, es) \<le> sender_chunk_bytes (k, es[i := Some n])"
  by (auto simp: sender_chunk_bytes_eq payload_load min_def)

definition held :: "threads \<Rightarrow> chunk list" where
  "held s = (case sending s of None \<Rightarrow> [] | Some c \<Rightarrow> [c]) @ queue_abs (queue_loader s)"

definition charged :: "chunk list \<Rightarrow> nat" where
  "charged cs = sum_list (map sender_chunk_bytes cs)"

text \<open>The loader, if parked, is parked for a reason that still holds; the sender likewise.\<close>

definition parked_ok :: "threads \<Rightarrow> bool" where
  "parked_ok s \<longleftrightarrow>
     (loader_waits s \<longrightarrow> \<not> cancelled s \<and> (\<exists>c cs. todo s = c # cs \<and>
        (queue_is_full (queue_loader s) \<or>
         blocked_by_budget (pipeline.truncate s) (sender_chunk_bytes c)))) \<and>
     (sender_waits s \<longrightarrow> queue_abs (queue_loader s) = [] \<and> \<not> loader_done s \<and> sending s = None)"

definition bytes_ok :: "threads \<Rightarrow> bool" where
  "bytes_ok s \<longleftrightarrow> (0 < max_queue_bytes s \<longrightarrow> queued_bytes s \<le> charged (held s) \<and>
     (queued_bytes s \<le> max_queue_bytes s \<or>
        (\<exists>c\<in>set (held s). queued_bytes s \<le> sender_chunk_bytes c)))"

definition order_ok :: "chunk list \<Rightarrow> threads \<Rightarrow> bool" where
  "order_ok cs s \<longleftrightarrow>
     (\<not> cancelled s \<longrightarrow> map fst (sent s @ held s @ todo s) = map fst cs \<and>
        (loader_done s \<longrightarrow> todo s = [])) \<and>
     (cancelled s \<longrightarrow> loader_done s) \<and>
     (finished s \<longrightarrow> loader_done s \<and> (\<not> cancelled s \<longrightarrow> held s = []))"

definition queue_ok :: "nat \<Rightarrow> nat \<Rightarrow> threads \<Rightarrow> bool" where
  "queue_ok cap limit s \<longleftrightarrow> queue_inv (queue_loader s) \<and> qcap (queue_loader s) = cap \<and>
     max_queue_bytes s = limit"

lemmas pinv_defs = parked_ok_def bytes_ok_def order_ok_def queue_ok_def

lemma queue_is_empty_abs: "queue_is_empty q \<longleftrightarrow> queue_abs q = []"
  by (metis length_0_conv queue_abs_simps queue_is_empty_def)

lemma truncate_simps [simp]:
  "queue_loader (pipeline.truncate s) = queue_loader s"
  "loader_done (pipeline.truncate s) = loader_done s"
  "queued_bytes (pipeline.truncate s) = queued_bytes s"
  "max_queue_bytes (pipeline.truncate s) = max_queue_bytes s"
  "cancelled (pipeline.truncate s) = cancelled s"
  by (simp_all add: pipeline.defs)


subsection \<open>What the critical sections do to the queued sequence\<close>

lemma enqueue_chunk_None:
  "sender_enqueue_chunk mem p c = None \<longleftrightarrow>
   \<not> cancelled p \<and> (queue_is_full (queue_loader p) \<or> blocked_by_budget p (sender_chunk_bytes c))"
  by (auto simp: sender_enqueue_chunk_def Let_def split: prod.splits bool.splits)

lemma enqueue_chunk_True:
  assumes inv: "queue_inv (queue_loader p)" and e: "sender_enqueue_chunk mem p c = Some (True, p')"
  shows "\<not> cancelled p" and "\<not> blocked_by_budget p (sender_chunk_bytes c)"
    and "queue_inv (queue_loader p')" and "queue_abs (queue_loader p') = queue_abs (queue_loader p) @ [c]"
    and "qcap (queue_loader p') = qcap (queue_loader p)"
    and "queued_bytes p' = queued_bytes p + sender_chunk_bytes c"
proof -
  have nf: "\<not> queue_is_full (queue_loader p)"
    using e by (auto simp: sender_enqueue_chunk_def Let_def split: if_splits)
  then have q: "queue_enqueue mem (queue_loader p) (Some c) = (True, queue_put c (queue_loader p))"
    by (simp add: queue_enqueue_def)
  from queue_enqueue_inv [OF inv q] e q nf
  show "\<not> cancelled p" and "\<not> blocked_by_budget p (sender_chunk_bytes c)"
    and "queue_inv (queue_loader p')" and "queue_abs (queue_loader p') = queue_abs (queue_loader p) @ [c]"
    and "qcap (queue_loader p') = qcap (queue_loader p)"
    and "queued_bytes p' = queued_bytes p + sender_chunk_bytes c"
    by (auto simp: sender_enqueue_chunk_def Let_def queue_put_def split: if_splits)
qed

lemma enqueue_chunk_False:
  "sender_enqueue_chunk mem p c = Some (False, p') \<Longrightarrow> cancelled p"
  by (auto simp: sender_enqueue_chunk_def queue_enqueue_def Let_def split: if_splits)

lemma dequeue_mt_None:
  "queue_dequeue_multithreaded q fin = None \<longleftrightarrow> queue_abs q = [] \<and> \<not> fin"
  by (simp add: queue_dequeue_multithreaded_def queue_is_empty_abs)

lemma queue_dequeue_qcap: "qcap (snd (queue_dequeue q)) = qcap q"
  by (simp add: queue_dequeue_def)

lemma dequeue_mt_Some:
  assumes inv: "queue_inv q" and d: "queue_dequeue_multithreaded q fin = Some (Some c, q')"
  shows "queue_abs q = c # queue_abs q' \<and> queue_inv q' \<and> qcap q' = qcap q"
proof (cases "queue_abs q")
  case Nil
  with d show ?thesis by (auto simp: queue_dequeue_multithreaded_def queue_is_empty_abs split: if_splits)
next
  case (Cons x xs)
  obtain r where r: "queue_dequeue q = (Some x, r)" "queue_inv r" "queue_abs r = xs"
    using queue_dequeue_inv [OF inv Cons] by blast
  have "(Some c, q') = queue_dequeue q"
    using d Cons by (auto simp: queue_dequeue_multithreaded_def queue_is_empty_abs split: if_splits)
  with r Cons queue_dequeue_qcap [of q] show ?thesis by auto
qed

lemma dequeue_mt_end:
  assumes inv: "queue_inv q" and d: "queue_dequeue_multithreaded q fin = Some (None, q')"
  shows "queue_abs q = [] \<and> fin"
proof (cases "queue_abs q")
  case Nil
  with d show ?thesis by (auto simp: queue_dequeue_multithreaded_def queue_is_empty_abs split: if_splits)
next
  case (Cons x xs)
  from queue_dequeue_inv [OF inv Cons] d Cons show ?thesis
    by (auto simp: queue_dequeue_multithreaded_def queue_is_empty_abs split: if_splits)
qed

lemmas pipeline_sections = enqueue_chunk_None enqueue_chunk_True enqueue_chunk_False dequeue_mt_None
  dequeue_mt_Some dequeue_mt_end

subsection \<open>Every step keeps the invariant\<close>

lemma pstep_queue_ok: "pstep mem s s' \<Longrightarrow> queue_ok cap limit s \<Longrightarrow> queue_ok cap limit s'"
  by (erule pstepE) (auto simp: queue_ok_def dest: enqueue_chunk_True(3,5) [rotated] dequeue_mt_Some [rotated])

lemma blocked_cong:
  "max_queue_bytes p = max_queue_bytes q \<Longrightarrow> queued_bytes p = queued_bytes q \<Longrightarrow>
   blocked_by_budget p = blocked_by_budget q"
  by (intro ext) (simp add: blocked_by_budget_def)

lemma pstep_parked_ok:
  assumes st: "pstep mem s s'" and "parked_ok s" and "queue_ok cap limit s"
  shows "parked_ok s'"
  using st
proof cases
  case (load_wait c cs)
  have "blocked_by_budget (pipeline.truncate (s\<lparr>loader_waits := True\<rparr>)) =
      blocked_by_budget (pipeline.truncate s)" by (rule blocked_cong) simp_all
  with load_wait assms show ?thesis by (auto simp: parked_ok_def enqueue_chunk_None)
next
  case (send_release c p signalled)
  show ?thesis
  proof (cases signalled)
    case True
    with send_release assms show ?thesis by (auto simp: parked_ok_def)
  next
    case False
    with send_release have "p = pipeline.truncate s"
      by (auto simp: note_bytes_released_def split: if_splits)
    moreover have "blocked_by_budget (pipeline.truncate s') = blocked_by_budget (pipeline.truncate s)"
      by (rule blocked_cong) (use send_release calculation in simp_all)
    ultimately show ?thesis using False send_release assms by (auto simp: parked_ok_def)
  qed
next
  case (send_wait)
  have "blocked_by_budget (pipeline.truncate (s\<lparr>sender_waits := True\<rparr>)) =
      blocked_by_budget (pipeline.truncate s)" by (rule blocked_cong) simp_all
  with send_wait assms show ?thesis by (auto simp: parked_ok_def dequeue_mt_None)
next
  case (send_end q)
  have "blocked_by_budget (pipeline.truncate (s\<lparr>finished := True\<rparr>)) =
      blocked_by_budget (pipeline.truncate s)" by (rule blocked_cong) simp_all
  with send_end assms show ?thesis by (auto simp: parked_ok_def)
next
  case (send_load k es i n)
  have "blocked_by_budget (pipeline.truncate (s\<lparr>sending := Some (k, es[i := Some n])\<rparr>)) =
      blocked_by_budget (pipeline.truncate s)" by (rule blocked_cong) simp_all
  with send_load assms show ?thesis by (auto simp: parked_ok_def)
qed (use assms in \<open>auto simp: parked_ok_def\<close>)


lemma charged_simps [simp]:
  "charged [] = 0" "charged (c # cs) = sender_chunk_bytes c + charged cs"
  "charged (cs @ ds) = charged cs + charged ds"
  by (simp_all add: charged_def)

lemma admitted:
  assumes "\<not> blocked_by_budget p b" and "0 < max_queue_bytes p"
  shows "queued_bytes p + b \<le> max_queue_bytes p \<or> queued_bytes p = 0"
  using assms by (auto simp: blocked_by_budget_def Let_def split: if_splits)

lemma pstep_bytes_ok:
  assumes st: "pstep mem s s'" and b: "bytes_ok s" and q: "queue_ok cap limit s"
  shows "bytes_ok s'"
  using st
proof cases
  case (load_put c cs p)
  have inv: "queue_inv (queue_loader (pipeline.truncate s))" using q by (simp add: queue_ok_def)
  note e = enqueue_chunk_True [OF inv load_put(4)]
  have h: "held s' = held s @ [c]" using load_put e by (simp add: held_def split: option.splits)
  from admitted [OF e(2)] show ?thesis using load_put e(6) h b
    by (auto simp: bytes_ok_def)
next
  case (send_take c r)
  have "queue_inv (queue_loader s)" using q by (simp add: queue_ok_def)
  from dequeue_mt_Some [OF this send_take(5)] have "held s' = held s"
    using send_take by (simp add: held_def)
  with send_take b show ?thesis by (simp add: bytes_ok_def)
next
  case (send_load k es i n)
  have h: "held s = (k, es) # queue_abs (queue_loader s)"
    "held s' = (k, es[i := Some n]) # queue_abs (queue_loader s)"
    using send_load by (simp_all add: held_def)
  with send_load b sender_chunk_bytes_load [OF send_load(4,5), of k n] show ?thesis
    by (auto simp: bytes_ok_def)
next
  case (send_release c p signalled)
  have h: "held s = c # held s'" using send_release by (simp add: held_def)
  have p: "queued_bytes p \<le> queued_bytes s - sender_chunk_bytes c \<or>
      max_queue_bytes s = 0 \<and> queued_bytes p = queued_bytes s"
    using send_release(4) by (auto simp: note_bytes_released_def split: if_splits)
  then have le: "0 < max_queue_bytes s \<Longrightarrow> queued_bytes p \<le> queued_bytes s" by auto
  have q': "queued_bytes s' = queued_bytes p" "max_queue_bytes s' = max_queue_bytes s"
    using send_release by simp_all
  show ?thesis unfolding bytes_ok_def q'
  proof (intro impI conjI)
    assume m: "0 < max_queue_bytes s"
    show "queued_bytes p \<le> charged (held s')" using b p h m by (auto simp: bytes_ok_def)
    consider "queued_bytes s \<le> max_queue_bytes s" | "queued_bytes s \<le> sender_chunk_bytes c"
      | d where "d \<in> set (held s')" "queued_bytes s \<le> sender_chunk_bytes d"
      using b m h by (auto simp: bytes_ok_def)
    then show "queued_bytes p \<le> max_queue_bytes s \<or>
        (\<exists>c\<in>set (held s'). queued_bytes p \<le> sender_chunk_bytes c)"
      using le [OF m] p m by cases (auto intro: order_trans)
  qed
qed (use b in \<open>auto simp: bytes_ok_def held_def\<close>)


lemma pstep_order_ok:
  assumes st: "pstep mem s s'" and o: "order_ok cs s" and q: "queue_ok cap limit s"
    and w: "parked_ok s"
  shows "order_ok cs s'"
proof -
  have inv: "queue_inv (queue_loader s)" "queue_inv (queue_loader (pipeline.truncate s))"
    using q by (simp_all add: queue_ok_def)
  show ?thesis using st
  proof cases
    case (load_put c ds p)
    from enqueue_chunk_True [OF inv(2) load_put(4)] load_put o show ?thesis
      by (auto simp: order_ok_def held_def split: option.splits)
  next
    case (load_fail c ds p)
    from enqueue_chunk_False [OF load_fail(4)] load_fail o show ?thesis
      by (auto simp: order_ok_def held_def)
  next
    case (send_take c r)
    from dequeue_mt_Some [OF inv(1) send_take(5)] send_take o show ?thesis
      by (auto simp: order_ok_def held_def)
  next
    case (send_end r)
    from dequeue_mt_end [OF inv(1) send_end(5)] send_end o show ?thesis
      by (auto simp: order_ok_def held_def)
  qed (use o in \<open>auto simp: order_ok_def held_def\<close>)
qed

definition pinv :: "nat \<Rightarrow> nat \<Rightarrow> chunk list \<Rightarrow> threads \<Rightarrow> bool" where
  "pinv cap limit cs s \<longleftrightarrow> queue_ok cap limit s \<and> parked_ok s \<and> bytes_ok s \<and> order_ok cs s"

lemma pstep_pinv: "pstep mem s s' \<Longrightarrow> pinv cap limit cs s \<Longrightarrow> pinv cap limit cs s'"
  unfolding pinv_def
  by (elim conjE, intro conjI)
    (erule (1) pstep_queue_ok, erule (2) pstep_parked_ok, erule (2) pstep_bytes_ok,
     erule (3) pstep_order_ok)

lemma held_flags [simp]:
  "held (s\<lparr>loader_waits := b\<rparr>) = held s" "held (s\<lparr>sender_waits := b\<rparr>) = held s"
  "held (s\<lparr>loader_done := b\<rparr>) = held s" "held (s\<lparr>cancelled := b\<rparr>) = held s"
  "held (s\<lparr>finished := b\<rparr>) = held s"
  by (simp_all add: held_def)

lemma penv_pinv:
  assumes "penv s s'" and inv: "pinv cap limit cs s"
  shows "pinv cap limit cs s'"
  using assms(1)
proof cases
  case wake_loader
  then show ?thesis using inv by (auto simp: pinv_def pinv_defs)
next
  case wake_sender
  have "blocked_by_budget (pipeline.truncate s') = blocked_by_budget (pipeline.truncate s)"
    by (rule blocked_cong) (simp_all add: wake_sender)
  then show ?thesis using inv wake_sender by (auto simp: pinv_def pinv_defs)
next
  case cancel
  then show ?thesis using inv by (auto simp: pinv_def pinv_defs)
next
  case send_stop
  then show ?thesis using inv by (auto simp: pinv_def pinv_defs)
next
  case (send_fail c)
  then show ?thesis using inv by (auto simp: pinv_def pinv_defs)
qed

lemma pinit_pinv: "queue_inv q \<Longrightarrow> queue_abs q = [] \<Longrightarrow> pinv (qcap q) limit cs (pinit q limit cs)"
  by (simp add: pinit_def pinv_def pinv_defs held_def)

lemma reachable_pinv:
  assumes "reachable mem (pinit q limit cs) s" and "queue_inv q" and "queue_abs q = []"
  shows "pinv (qcap q) limit cs s"
  using assms(1)
proof induction
  case start
  then show ?case by (rule pinit_pinv [OF assms(2,3)])
next
  case (step s s')
  from pstep_pinv [OF step(2,3)] show ?case .
next
  case (wake s s')
  from penv_pinv [OF wake(2,3)] show ?case .
qed

text \<open>What is left to do. Parking and late loading leave it; every other step lowers it.\<close>

definition work :: "threads \<Rightarrow> nat" where
  "work s = 3 * length (todo s) + 2 * qsize (queue_loader s) +
     (if sending s = None then 0 else 1) + (if loader_done s then 0 else 1) +
     (if finished s then 0 else 1)"

lemma progressI: "pstep mem s s' \<Longrightarrow> work s' < work s \<Longrightarrow> \<exists>s'. pstep mem s s' \<and> work s' < work s"
  by blast

lemma queue_abs_qsize:
  "queue_abs q = queue_abs q' @ [c] \<Longrightarrow> qsize q = Suc (qsize q')"
  "queue_abs q = c # queue_abs q' \<Longrightarrow> qsize q = Suc (qsize q')"
  by (metis length_append_singleton queue_abs_simps) (metis length_Cons queue_abs_simps)

lemma uncharged_not_blocked:
  assumes "pinv cap limit cs s" and "held s = []"
  shows "\<not> queue_is_full (queue_loader s)" and "\<not> blocked_by_budget (pipeline.truncate s) b"
    and "\<not> loader_waits s"
proof -
  have "queue_abs (queue_loader s) = []" using assms by (simp add: held_def split: option.splits)
  then show nf: "\<not> queue_is_full (queue_loader s)"
    using assms queue_abs_simps [of "queue_loader s"]
    by (auto simp: pinv_def queue_ok_def queue_is_full_def queue_inv_def)
  have nb: "\<not> blocked_by_budget (pipeline.truncate s) b" for b
    using assms by (auto simp: pinv_def bytes_ok_def blocked_by_budget_def Let_def)
  then show "\<not> blocked_by_budget (pipeline.truncate s) b" .
  show "\<not> loader_waits s" using assms nf nb by (auto simp: pinv_def parked_ok_def)
qed

lemma loader_progress:
  assumes inv: "pinv cap limit cs s" and h: "held s = []" and d: "\<not> loader_done s"
  shows "\<exists>s'. pstep mem s s' \<and> work s' < work s"
proof -
  note ub = uncharged_not_blocked [OF inv h]
  have qi: "queue_inv (queue_loader (pipeline.truncate s))"
    using inv by (simp add: pinv_def queue_ok_def)
  show ?thesis
  proof (cases "todo s")
    case Nil
    from pstep.load_end [OF ub(3) Nil d] show ?thesis
      by (rule progressI) (use d in \<open>simp add: work_def\<close>)
  next
    case (Cons c ds)
    have "sender_enqueue_chunk mem (pipeline.truncate s) c \<noteq> None"
      using ub by (simp add: enqueue_chunk_None)
    then obtain ok p where e: "sender_enqueue_chunk mem (pipeline.truncate s) c = Some (ok, p)"
      by auto
    show ?thesis
    proof (cases ok)
      case True
      with e have e': "sender_enqueue_chunk mem (pipeline.truncate s) c = Some (True, p)" by simp
      from queue_abs_qsize(1) [OF enqueue_chunk_True(4) [OF qi e']] Cons show ?thesis
        by (intro progressI [OF pstep.load_put [OF ub(3) Cons e']]) (simp add: work_def)
    next
      case False
      with e have e': "sender_enqueue_chunk mem (pipeline.truncate s) c = Some (False, p)" by simp
      from Cons show ?thesis
        by (intro progressI [OF pstep.load_fail [OF ub(3) Cons e']]) (simp add: work_def)
    qed
  qed
qed

lemma pinv_progress:
  assumes inv: "pinv cap limit cs s" and nf: "\<not> finished s"
  shows "\<exists>s'. pstep mem s s' \<and> work s' < work s"
proof (cases "sending s")
  case (Some c)
  obtain p sg where "note_bytes_released (pipeline.truncate s) (sender_chunk_bytes c) = (p, sg)"
    by fastforce
  from pstep.send_release [OF nf Some this] show ?thesis
    by (rule progressI) (use Some in \<open>simp add: work_def\<close>)
next
  case None
  have qi: "queue_inv (queue_loader s)" using inv by (simp add: pinv_def queue_ok_def)
  show ?thesis
  proof (cases "sender_waits s \<or> (queue_abs (queue_loader s) = [] \<and> \<not> loader_done s)")
    case True
    then have "held s = []" "\<not> loader_done s"
      using inv None by (auto simp: pinv_def parked_ok_def held_def)
    then show ?thesis by (rule loader_progress [OF inv])
  next
    case False
    then have w: "\<not> sender_waits s" by simp
    from False obtain r q where
      d: "queue_dequeue_multithreaded (queue_loader s) (loader_done s) = Some (r, q)"
      using dequeue_mt_None [of "queue_loader s" "loader_done s"]
      by (cases "queue_dequeue_multithreaded (queue_loader s) (loader_done s)") auto
    show ?thesis
    proof (cases r)
      case None
      with d have d': "queue_dequeue_multithreaded (queue_loader s) (loader_done s) = Some (None, q)"
        by simp
      from pstep.send_end [OF w nf \<open>sending s = None\<close> d'] show ?thesis
        by (rule progressI) (use nf in \<open>simp add: work_def\<close>)
    next
      case (Some c)
      with d have d': "queue_dequeue_multithreaded (queue_loader s) (loader_done s) = Some (Some c, q)"
        by simp
      from dequeue_mt_Some [OF qi d'] have "qsize (queue_loader s) = Suc (qsize q)"
        by (auto dest: queue_abs_qsize(2))
      with None show ?thesis
        by (intro progressI [OF pstep.send_take [OF w nf None d']]) (simp add: work_def)
    qed
  qed
qed

text \<open>After the sender has given up, the loader still runs to its end.\<close>

lemma loader_stops:
  assumes inv: "pinv cap limit cs s" and "finished s" and "todo s \<noteq> []"
  shows "\<exists>s'. pstep mem s s' \<and> work s' < work s"
proof -
  have c: "cancelled s" and w: "\<not> loader_waits s" using assms by (auto simp: pinv_def pinv_defs)
  obtain d ds where td: "todo s = d # ds" using assms(3) by (cases "todo s") auto
  have "sender_enqueue_chunk mem (pipeline.truncate s) d = Some (False, pipeline.truncate s)"
    using c by (simp add: sender_enqueue_chunk_def Let_def)
  from pstep.load_fail [OF w td this] show ?thesis by (rule progressI) (simp add: work_def td)
qed

lemma pstep_work_le:
  assumes st: "pstep mem s s'" and inv: "pinv cap limit cs s"
  shows "work s' \<le> work s"
proof -
  have qi: "queue_inv (queue_loader s)" "queue_inv (queue_loader (pipeline.truncate s))"
    using inv by (simp_all add: pinv_def queue_ok_def)
  show ?thesis using st
  proof cases
    case (load_put c ds p)
    from queue_abs_qsize(1) [OF enqueue_chunk_True(4) [OF qi(2) load_put(4)]] load_put
    show ?thesis by (simp add: work_def)
  next
    case (send_take c q)
    from dequeue_mt_Some [OF qi(1) send_take(5)] have "qsize (queue_loader s) = Suc (qsize q)"
      by (auto dest: queue_abs_qsize(2))
    with send_take show ?thesis by (simp add: work_def)
  qed (auto simp: work_def)
qed


section \<open>Properties\<close>

lemma create_start:
  "queue_create mem0 capacity = Some q \<Longrightarrow> capacity \<le> INT_MAX \<Longrightarrow>
   reachable mem (pinit q limit cs) s \<Longrightarrow> pinv (qcap q) limit cs s"
  using queue_create_inv reachable_pinv by blast

text \<open>C10: Chunks are neither lost, duplicated nor reordered between the loader and the sender. In
  every state reachable by any interleaving of the two threads, wake-ups and cancellations, as long
  as the run is not cancelled, the chunks sent, in hand, queued and still to load are the chunks
  given, in order; when the sender sees the end of an uncancelled run, it has sent all of them. The
  queue never grows past the capacity it was created with.\<close>

theorem pipeline_order:
  assumes "queue_create mem0 capacity = Some q" and "capacity \<le> INT_MAX"
    and "reachable mem (pinit q limit cs) s"
  shows "(\<not> cancelled s \<longrightarrow> map fst (sent s @ held s @ todo s) = map fst cs) \<and>
    (finished s \<and> \<not> cancelled s \<longrightarrow> map fst (sent s) = map fst cs) \<and>
    length (queue_abs (queue_loader s)) \<le> nat capacity"
proof -
  have inv: "pinv (qcap q) limit cs s" by (rule create_start [OF assms])
  have "qcap q = nat capacity" using assms(1) by (auto simp: queue_create_def split: if_splits)
  with inv show ?thesis by (auto simp: pinv_def order_ok_def queue_ok_def queue_inv_def)
qed

text \<open>A run for the witnesses: capacity 4, a budget of 10 bytes, and three chunks, the first of which
  the loader leaves on disk.\<close>

definition demo_chunks :: "chunk list" where
  "demo_chunks = [(1, [None]), (2, [Some 10]), (3, [Some 10])]"

definition demo_start :: threads where
  "demo_start = pinit (the (queue_create (\<lambda>_. True) 4)) 10 demo_chunks"

definition demo_state :: "chunk option list \<Rightarrow> nat \<Rightarrow> nat \<Rightarrow> nat \<Rightarrow> nat \<Rightarrow> chunk list \<Rightarrow> chunk option \<Rightarrow>
  chunk list \<Rightarrow> threads" where
  "demo_state its f r n b td snd_c st =
     \<lparr>queue_loader = \<lparr>items = its, front = f, rear = r, qsize = n, qcap = 4\<rparr>, loader_done = False,
      queued_bytes = b, max_queue_bytes = 10, cancelled = False, todo = td, sending = snd_c, sent = st,
      loader_waits = False, sender_waits = False, finished = False\<rparr>"

lemmas demo_run_simps = demo_state_def sender_enqueue_chunk_def sender_chunk_bytes_def Let_def
  blocked_by_budget_def queue_is_full_def queue_enqueue_def queue_put_def pipeline.defs
  queue_dequeue_multithreaded_def queue_dequeue_def queue_is_empty_def note_bytes_released_def
  SIZE_MAX_def

lemma demo_put1: "pstep mem (demo_state [None, None, None, None] 0 0 0 0 demo_chunks None [])
    (demo_state [Some (1, [None]), None, None, None] 0 1 1 0 (tl demo_chunks) None [])"
  using pstep.load_put [of "demo_state [None, None, None, None] 0 0 0 0 demo_chunks None []"
      "(1, [None])" "tl demo_chunks" mem]
  by (simp add: demo_run_simps demo_chunks_def)

lemma demo_put2: "pstep mem (demo_state [Some (1, [None]), None, None, None] 0 1 1 0 (tl demo_chunks) None [])
    (demo_state [Some (1, [None]), Some (2, [Some 10]), None, None] 0 2 2 10 [(3, [Some 10])] None [])"
  using pstep.load_put [of "demo_state [Some (1, [None]), None, None, None] 0 1 1 0 (tl demo_chunks) None []"
      "(2, [Some 10])" "[(3, [Some 10])]" mem]
  by (simp add: demo_run_simps demo_chunks_def numeral_2_eq_2)

lemma demo_take: "pstep mem
    (demo_state [Some (1, [None]), Some (2, [Some 10]), None, None] 0 2 2 10 [(3, [Some 10])] None [])
    (demo_state [None, Some (2, [Some 10]), None, None] 1 2 1 10 [(3, [Some 10])] (Some (1, [None])) [])"
  using pstep.send_take [of "demo_state [Some (1, [None]), Some (2, [Some 10]), None, None] 0 2 2 10
      [(3, [Some 10])] None []" "(1, [None])"
      "\<lparr>items = [None, Some (2, [Some 10]), None, None], front = 1, rear = 2, qsize = 1, qcap = 4\<rparr>" mem]
  by (simp add: demo_run_simps)

lemma demo_load: "pstep mem
    (demo_state [None, Some (2, [Some 10]), None, None] 1 2 1 10 [(3, [Some 10])] (Some (1, [None])) [])
    (demo_state [None, Some (2, [Some 10]), None, None] 1 2 1 10 [(3, [Some 10])] (Some (1, [Some 50])) [])"
  using pstep.send_load [of "demo_state [None, Some (2, [Some 10]), None, None] 1 2 1 10
      [(3, [Some 10])] (Some (1, [None])) []" 1 "[None]" 0 mem 50]
  by (simp add: demo_run_simps)

lemma demo_release: "pstep mem
    (demo_state [None, Some (2, [Some 10]), None, None] 1 2 1 10 [(3, [Some 10])] (Some (1, [Some 50])) [])
    (demo_state [None, Some (2, [Some 10]), None, None] 1 2 1 0 [(3, [Some 10])] None [(1, [Some 50])])"
  using pstep.send_release [of "demo_state [None, Some (2, [Some 10]), None, None] 1 2 1 10
      [(3, [Some 10])] (Some (1, [Some 50])) []" "(1, [Some 50])" _ _ mem]
  by (simp add: demo_run_simps)

lemma demo_put3: "pstep mem
    (demo_state [None, Some (2, [Some 10]), None, None] 1 2 1 0 [(3, [Some 10])] None [(1, [Some 50])])
    (demo_state [None, Some (2, [Some 10]), Some (3, [Some 10]), None] 1 3 (Suc (Suc 0)) 10 [] None [(1, [Some 50])])"
  using pstep.load_put [of "demo_state [None, Some (2, [Some 10]), None, None] 1 2 1 0
      [(3, [Some 10])] None [(1, [Some 50])]" "(3, [Some 10])" "[]" mem]
  by (simp add: demo_run_simps)

lemma demo_start_eq: "demo_start = demo_state [None, None, None, None] 0 0 0 0 demo_chunks None []"
  by (simp add: demo_start_def demo_state_def pinit_def queue_create_def numeral_eq_Suc)


definition demo_end :: threads where
  "demo_end = demo_state [None, Some (2, [Some 10]), Some (3, [Some 10]), None] 1 3 (Suc (Suc 0)) 10 [] None
     [(1, [Some 50])]"

lemma demo_reachable: "reachable mem demo_start demo_end"
  unfolding demo_start_eq demo_end_def
  by (rule reachable.step [OF _ demo_put3], rule reachable.step [OF _ demo_release],
      rule reachable.step [OF _ demo_load], rule reachable.step [OF _ demo_take],
      rule reachable.step [OF _ demo_put2], rule reachable.step [OF _ demo_put1],
      rule reachable.start)

lemma demo_create: "queue_create (\<lambda>_. True) 4 = Some (the (queue_create (\<lambda>_. True) 4))"
  by (simp add: queue_create_def)

lemma demo_end_held: "held demo_end = [(2, [Some 10]), (3, [Some 10])]"
  by (simp add: held_def demo_end_def demo_state_def queue_abs_def upt_rec)

theorem pipeline_order_witness:
  "map fst (sent demo_end @ held demo_end @ todo demo_end) = [1, 2, 3]"
proof -
  have "\<not> cancelled demo_end" by (simp add: demo_end_def demo_state_def)
  with pipeline_order [OF demo_create _ demo_reachable [unfolded demo_start_def]] show ?thesis
    by (simp add: INT_MAX_def demo_chunks_def)
qed

text \<open>C9: The pipeline never gets stuck. In every reachable state in which the sender has not finished
  or the loader still has chunks, some thread can take a step that brings the end nearer (the work measure drops), and no
  step of a thread takes it further away: a parked loader always has a sender that can signal it,
  and the other way round, so no wake-up is lost and the byte budget cannot block for ever.\<close>

theorem pipeline_progress:
  assumes "queue_create mem0 capacity = Some q" and "capacity \<le> INT_MAX"
    and "reachable mem (pinit q limit cs) s" and "\<not> finished s \<or> todo s \<noteq> []"
  shows "(\<exists>s'. pstep mem s s' \<and> work s' < work s) \<and> (\<forall>s'. pstep mem s s' \<longrightarrow> work s' \<le> work s) \<and>
    \<not> (loader_waits s \<and> sender_waits s)"
proof -
  have inv: "pinv (qcap q) limit cs s" by (rule create_start [OF assms(1-3)])
  have "\<not> loader_waits s" if "sender_waits s"
    using that inv uncharged_not_blocked(3) [OF inv] by (auto simp: pinv_def parked_ok_def held_def)
  moreover have "\<exists>s'. pstep mem s s' \<and> work s' < work s"
    using pinv_progress [OF inv] loader_stops [OF inv] assms(4) by blast
  ultimately show ?thesis using pstep_work_le [OF _ inv] by blast
qed

theorem pipeline_progress_witness: "\<exists>s'. pstep (\<lambda>_. True) demo_end s' \<and> work s' < work demo_end"
proof -
  have "\<not> finished demo_end" by (simp add: demo_end_def demo_state_def)
  with pipeline_progress [OF demo_create _ demo_reachable [unfolded demo_start_def]] show ?thesis
    by (simp add: INT_MAX_def)
qed

text \<open>C11: The byte budget bounds the byte counter: with a limit set, the counted bytes never exceed
  the limit, except while a single chunk larger than the whole limit is in the pipeline, and then
  they do not exceed that chunk's own bytes; and they never exceed the bytes the pipeline holds.\<close>

theorem pipeline_budget:
  assumes "queue_create mem0 capacity = Some q" and "capacity \<le> INT_MAX"
    and "reachable mem (pinit q limit cs) s" and "0 < limit"
  shows "(queued_bytes s \<le> limit \<or> (\<exists>c\<in>set (held s). queued_bytes s \<le> sender_chunk_bytes c)) \<and>
    queued_bytes s \<le> charged (held s)"
  using create_start [OF assms(1-3)] assms(4)
  by (auto simp: pinv_def bytes_ok_def queue_ok_def)

theorem pipeline_budget_witness:
  "queued_bytes demo_end \<le> 10 \<and> queued_bytes demo_end \<le> charged (held demo_end)"
  using pipeline_budget [OF demo_create _ demo_reachable [unfolded demo_start_def]]
  by (simp add: INT_MAX_def demo_end_held sender_chunk_bytes_def) (simp add: demo_end_def demo_state_def)

end
