(* ===== verification/Paths.thy ===== *)
theory Paths
  imports Prelude
begin

text \<open>
  The lexical path functions of \<open>src/src/shared/utils.c\<close> that confine what a peer can name: root
  containment, joining, stripping and the traversal check, the component walk that opens the
  authorised destination, and the string helpers next to them (escaping for output, bounded record
  reading, algorithm preference lists, the loopback tests).

  A string is the characters before its NUL. \<open>mem\<close> is the allocator's verdict on a request size;
  system calls (\<open>dup\<close>, \<open>openat\<close>) are parameters.
\<close>

section \<open>Definitions\<close>

abbreviation SLASH :: char where
  "SLASH \<equiv> CHR ''/''"

definition str_dup :: "allocator \<Rightarrow> string \<Rightarrow> string option" where
  "str_dup mem s = (if mem (length s + 1) then Some s else None)"

text \<open>\<open>strncmp(root, path, strlen(root)) == 0\<close>: \<open>path\<close> starts with \<open>root\<close>.\<close>

definition starts_with :: "string \<Rightarrow> string \<Rightarrow> bool" where
  "starts_with root path \<longleftrightarrow> take (length root) path = root"

definition path_is_within_root :: "string \<Rightarrow> string \<Rightarrow> bool" where
  "path_is_within_root root path \<longleftrightarrow> starts_with root path \<and>
     (char_at path (length root) = NUL \<or> char_at path (length root) = SLASH)"

definition strip_trailing :: "string \<Rightarrow> string" where
  "strip_trailing root = rev (dropWhile (\<lambda>c. c = SLASH) (rev root))"

definition utils_strip_transfer_root :: "string \<Rightarrow> string option \<Rightarrow> string" where
  "utils_strip_transfer_root path root_arg =
     (let rel = dropWhile (\<lambda>c. c = SLASH) path in
      case root_arg of
        None \<Rightarrow> rel
      | Some r \<Rightarrow>
          let root = strip_trailing (dropWhile (\<lambda>c. c = SLASH) r) in
          if root = [] then rel
          else if starts_with root rel \<and>
                  (char_at rel (length root) = SLASH \<or> char_at rel (length root) = NUL)
          then drop (length root + (if char_at rel (length root) = SLASH then 1 else 0)) rel
          else rel)"

text \<open>\<open>strtok_r(s, "/", ...)\<close> until it returns \<open>NULL\<close>: the non-empty components.\<close>

fun strtok_slash :: "string \<Rightarrow> string \<Rightarrow> string list" where
  "strtok_slash acc [] = (if acc = [] then [] else [acc])"
| "strtok_slash acc (c # cs) =
     (if c = SLASH then (if acc = [] then strtok_slash [] cs else acc # strtok_slash [] cs)
      else strtok_slash (acc @ [c]) cs)"

definition components :: "string \<Rightarrow> string list" where
  "components s = strtok_slash [] s"

definition has_path_traversal :: "allocator \<Rightarrow> string \<Rightarrow> bool" where
  "has_path_traversal mem path =
     (case str_dup mem path of
        None \<Rightarrow> True
      | Some dup \<Rightarrow> list_ex (\<lambda>part. part = ''..'') (components dup))"

definition utils_valid_batch_path :: "allocator \<Rightarrow> string \<Rightarrow> bool" where
  "utils_valid_batch_path mem path \<longleftrightarrow>
     char_at path 0 \<noteq> NUL \<and> char_at path 0 \<noteq> SLASH \<and> \<not> has_path_traversal mem path"

definition path_cat :: "allocator \<Rightarrow> string option \<Rightarrow> string option \<Rightarrow> string option" where
  "path_cat mem path1 path2 =
     (case path1 of
        None \<Rightarrow> (case path2 of None \<Rightarrow> None | Some p2 \<Rightarrow> str_dup mem p2)
      | Some p1 \<Rightarrow>
          if p1 = [] then (case path2 of None \<Rightarrow> None | Some p2 \<Rightarrow> str_dup mem p2)
          else (case path2 of
                  None \<Rightarrow> str_dup mem p1
                | Some p2 \<Rightarrow>
                    if p2 = [] then str_dup mem p1
                    else let a = (if last p1 = SLASH then butlast p1 else p1);
                             b = (if hd p2 = SLASH then tl p2 else p2)
                      in if SIZE_MAX - length b - 2 < length a then None
                         else if \<not> mem (length a + length b + 2) then None
                         else Some (a @ [SLASH] @ b)))"

text \<open>The loop of \<open>utils_open_authorized_destination\<close>. A directory handle is of any type; \<open>openat\<close>
  opens a directory below one without following links.\<close>

fun open_components :: "('fd \<Rightarrow> string \<Rightarrow> 'fd option) \<Rightarrow> 'fd \<Rightarrow> string list \<Rightarrow> 'fd option" where
  "open_components openat dirfd [] = Some dirfd"
| "open_components openat dirfd (c # cs) =
     (if c = ''..'' then None
      else if c = ''.'' then open_components openat dirfd cs
      else (case openat dirfd c of
              None \<Rightarrow> None
            | Some nxt \<Rightarrow> open_components openat nxt cs))"

definition utils_open_authorized_destination ::
  "allocator \<Rightarrow> ('fd \<Rightarrow> 'fd option) \<Rightarrow> ('fd \<Rightarrow> string \<Rightarrow> 'fd option) \<Rightarrow> 'fd option \<Rightarrow> string option \<Rightarrow>
   string \<Rightarrow> 'fd option" where
  "utils_open_authorized_destination mem dup openat root_fd root_path dest_root =
     (case root_fd of None \<Rightarrow> None
      | Some fd \<Rightarrow>
          (case root_path of None \<Rightarrow> None
           | Some root \<Rightarrow>
               if \<not> path_is_within_root root dest_root then None
               else (case dup fd of None \<Rightarrow> None
                     | Some dirfd \<Rightarrow>
                         let rel = dropWhile (\<lambda>c. c = SLASH) (drop (length root) dest_root) in
                         (case str_dup mem (if rel = [] then ''.'' else rel) of
                            None \<Rightarrow> None
                          | Some relative \<Rightarrow> open_components openat dirfd (components relative)))))"

text \<open>The process-wide authorised root, and its setter: a refused copy clears it.\<close>

record 'fd authorized_root =
  authorized_root_fd :: "'fd option"
  authorized_root_path :: "string option"

definition utils_set_authorized_root ::
  "allocator \<Rightarrow> 'fd option \<Rightarrow> string option \<Rightarrow> 'fd authorized_root \<Rightarrow> bool \<times> 'fd authorized_root" where
  "utils_set_authorized_root mem fd canonical_path r =
     (case canonical_path of
        None \<Rightarrow> (True, \<lparr>authorized_root_fd = fd, authorized_root_path = None\<rparr>)
      | Some p \<Rightarrow>
          (case str_dup mem p of
             None \<Rightarrow> (False, \<lparr>authorized_root_fd = None, authorized_root_path = None\<rparr>)
           | Some copy \<Rightarrow> (True, \<lparr>authorized_root_fd = fd, authorized_root_path = Some copy\<rparr>)))"

subsection \<open>Escaping for output\<close>

definition escape_byte :: "bool \<Rightarrow> byte \<Rightarrow> string" where
  "escape_byte eight_bit b =
     (if (32 \<le> b \<and> b \<le> 126) \<or> (eight_bit \<and> 128 \<le> b) then [char_of_byte b]
      else [CHR 0x5C, CHR ''#'', char_of_byte (48 + (drop_bit 6 b AND 7)),
            char_of_byte (48 + (drop_bit 3 b AND 7)), char_of_byte (48 + (b AND 7))])"

definition output_escape :: "allocator \<Rightarrow> string \<Rightarrow> bool \<Rightarrow> string option" where
  "output_escape mem s eight_bit =
     (if (SIZE_MAX - 1) div 5 < length s then None
      else if \<not> mem (length s * 5 + 1) then None
      else Some (concat (map (\<lambda>c. escape_byte eight_bit (byte_of_char c)) s)))"

subsection \<open>Bounded record reading\<close>

datatype getdelim_result = GD_ERROR | GD_EFBIG | GD_EOF | GD_LINE string

text \<open>The reading loop: the stream, the bytes stored so far and the capacity of the buffer. It
  returns the result, the capacity and the unread stream.\<close>

fun getdelim_loop :: "allocator \<Rightarrow> char \<Rightarrow> nat \<Rightarrow> string \<Rightarrow> string \<Rightarrow> nat \<Rightarrow>
    getdelim_result \<times> nat \<times> string" where
  "getdelim_loop mem delim max_len [] line cap =
     (if line = [] then (GD_EOF, cap, []) else (GD_LINE line, cap, []))"
| "getdelim_loop mem delim max_len (c # stream) line cap =
     (let len = length line in
      if max_len \<le> len then (GD_EFBIG, cap, stream)
      else let new_cap = (if cap < len + 2 then min (max (cap * 2) (len + 2)) (max_len + 1) else cap) in
        if cap < len + 2 \<and> \<not> mem new_cap then (GD_ERROR, cap, stream)
        else if c = delim then (GD_LINE (line @ [c]), new_cap, stream)
        else getdelim_loop mem delim max_len stream (line @ [c]) new_cap)"

definition utils_getdelim_bounded ::
  "allocator \<Rightarrow> string \<Rightarrow> nat option \<Rightarrow> char \<Rightarrow> nat \<Rightarrow> getdelim_result \<times> nat option \<times> string" where
  "utils_getdelim_bounded mem stream buf delim max_len =
     (if max_len = 0 then (GD_ERROR, buf, stream)
      else let limit = max_len + 1;
               initial = (if limit < 256 then limit else 256)
        in (case (case buf of None \<Rightarrow> if mem initial then Some initial else None
                  | Some cap \<Rightarrow> if cap < 2 then (if mem initial then Some initial else None)
                               else Some cap) of
              None \<Rightarrow> (GD_ERROR, buf, stream)
            | Some cap \<Rightarrow>
                let (r, cap', rest) = getdelim_loop mem delim max_len stream [] cap
                in (r, Some cap', rest)))"


subsection \<open>Preference lists and loopback tests\<close>

definition isspace :: "char \<Rightarrow> bool" where
  "isspace c \<longleftrightarrow> c \<in> {CHR '' '', CHR 0x09, CHR 0x0A, CHR 0x0B, CHR 0x0C, CHR 0x0D}"

text \<open>The scan of \<open>env_choice_first\<close> over the variable's value, with \<open>resolve\<close> given by the caller;
  the result is the choice and \<open>*specified\<close>. A token is cut at 63 characters.\<close>

function env_scan :: "(string \<Rightarrow> int) \<Rightarrow> bool \<Rightarrow> string \<Rightarrow> int \<times> bool" where
  "env_scan resolve saw [] = (-1, saw)"
| "env_scan resolve saw (c # cs) =
     (if c = CHR ''&'' then (-1, saw)
      else if isspace c then env_scan resolve saw cs
      else let in_token = (\<lambda>d. d \<noteq> CHR ''&'' \<and> \<not> isspace d);
               token = take 63 (takeWhile in_token (c # cs));
               id = resolve token
        in if 0 \<le> id then (id, True) else env_scan resolve True (dropWhile in_token (c # cs)))"
  by pat_completeness auto

termination
  by (relation "measure (\<lambda>(_, _, s). length s)") (auto simp: le_imp_less_Suc length_dropWhile_le)

definition env_choice_first :: "(string \<Rightarrow> int) \<Rightarrow> string option \<Rightarrow> int \<times> bool" where
  "env_choice_first resolve env =
     (case env of None \<Rightarrow> (-1, False) | Some s \<Rightarrow> env_scan resolve False s)"

text \<open>A socket address: an IPv4 address in host order, the 16 bytes of an IPv6 address, or another
  family.\<close>

datatype sockaddr = AF_INET u32 | AF_INET6 "byte list" | AF_OTHER

definition utils_sockaddr_is_loopback :: "sockaddr \<Rightarrow> bool" where
  "utils_sockaddr_is_loopback addr =
     (case addr of
        AF_INET host \<Rightarrow> host AND 0xff000000 = 0x7f000000
      | AF_INET6 bs \<Rightarrow>
          if bs = replicate 15 0 @ [1] then True
          else if take 12 bs = replicate 10 0 @ [0xff, 0xff] \<and> bs ! 12 = 127 then True
          else False
      | AF_OTHER \<Rightarrow> False)"

definition append_resume_eligible :: "nat \<Rightarrow> nat \<Rightarrow> bool" where
  "append_resume_eligible old_size check_size \<longleftrightarrow> old_size < check_size"

definition append_tail_length :: "nat \<Rightarrow> nat \<Rightarrow> nat option" where
  "append_tail_length old_size check_size =
     (if \<not> append_resume_eligible old_size check_size then None else Some (check_size - old_size))"

section \<open>Components\<close>

lemma strtok_slash_append:
  "strtok_slash acc (s @ SLASH # t) = strtok_slash acc s @ strtok_slash [] t"
  by (induction acc s rule: strtok_slash.induct) auto

lemma strtok_slash_nonempty: "c \<in> set (strtok_slash acc s) \<Longrightarrow> c \<noteq> []"
  by (induction acc s rule: strtok_slash.induct) (auto split: if_splits)

lemma strtok_slash_no_slash:
  "SLASH \<notin> set acc \<Longrightarrow> c \<in> set (strtok_slash acc s) \<Longrightarrow> SLASH \<notin> set c"
  by (induction acc s rule: strtok_slash.induct) (auto split: if_splits)

lemma components_append [simp]: "components (s @ SLASH # t) = components s @ components t"
  by (simp add: components_def strtok_slash_append)

lemma components_simps [simp]:
  "components [] = []" "components (SLASH # s) = components s"
  by (simp_all add: components_def)

lemma components_snoc_slash [simp]: "components (s @ [SLASH]) = components s"
  using components_append [of s "[]"] by simp

lemma components_dropWhile [simp]: "components (dropWhile (\<lambda>c. c = SLASH) s) = components s"
  by (induction s) auto

lemma components_wf: "c \<in> set (components s) \<Longrightarrow> c \<noteq> [] \<and> SLASH \<notin> set c"
  using strtok_slash_nonempty [of c "[]" s] strtok_slash_no_slash [of "[]" c s]
  by (simp add: components_def)

lemma has_path_traversal_iff:
  "\<not> has_path_traversal mem path \<longleftrightarrow> mem (length path + 1) \<and> ''..'' \<notin> set (components path)"
  by (simp add: has_path_traversal_def str_dup_def list_ex_iff)

lemma path_cat_components:
  assumes "path_cat mem (Some p1) (Some p2) = Some p"
  shows "components p = components p1 @ components p2"
proof (cases "p1 = [] \<or> p2 = []")
  case True
  with assms show ?thesis by (auto simp: path_cat_def str_dup_def split: if_splits)
next
  case False
  have a: "components (if last p1 = SLASH then butlast p1 else p1) = components p1"
    using False components_snoc_slash [of "butlast p1"] by (metis append_butlast_last_id)
  have b: "components (if hd p2 = SLASH then tl p2 else p2) = components p2"
    using False by (cases p2) auto
  from False assms have "p = (if last p1 = SLASH then butlast p1 else p1) @ SLASH #
      (if hd p2 = SLASH then tl p2 else p2)"
    by (auto simp: path_cat_def Let_def split: if_splits)
  then show ?thesis using a b by simp
qed

text \<open>Reference: what a path denotes lexically, from a stack of directories.\<close>

fun resolve_dots :: "string list \<Rightarrow> string list \<Rightarrow> string list" where
  "resolve_dots dirs [] = dirs"
| "resolve_dots dirs (c # cs) =
     (if c = ''.'' then resolve_dots dirs cs
      else if c = ''..'' then resolve_dots (butlast dirs) cs
      else resolve_dots (dirs @ [c]) cs)"

lemma resolve_dots_append: "resolve_dots d (as @ bs) = resolve_dots (resolve_dots d as) bs"
  by (induction d as rule: resolve_dots.induct) auto

lemma resolve_dots_below:
  "''..'' \<notin> set cs \<Longrightarrow> resolve_dots d cs = d @ filter (\<lambda>c. c \<noteq> ''.'') cs"
  by (induction d cs rule: resolve_dots.induct) auto

lemma starts_with_iff: "starts_with r s \<longleftrightarrow> (\<exists>t. s = r @ t)"
  unfolding starts_with_def by (metis append_eq_conv_conj)

lemma path_is_within_rootE:
  assumes "path_is_within_root root path" and "cstring path"
  obtains "path = root" | t where "path = root @ SLASH # t"
proof -
  from assms obtain t where t: "path = root @ t" by (auto simp: path_is_within_root_def starts_with_iff)
  with assms show thesis
    by (cases t) (auto simp: path_is_within_root_def char_at_def cstring_def that)
qed


lemma open_components_below:
  assumes "open_components openat d cs = Some d'"
    and refl: "\<And>d. below d d" and trans: "\<And>a b c. below a b \<Longrightarrow> below b c \<Longrightarrow> below a c"
    and child: "\<And>d c d'. openat d c = Some d' \<Longrightarrow> c \<noteq> ''..'' \<Longrightarrow> c \<noteq> [] \<Longrightarrow> SLASH \<notin> set c \<Longrightarrow> below d d'"
    and wf: "\<And>c. c \<in> set cs \<Longrightarrow> c \<noteq> [] \<and> SLASH \<notin> set c"
  shows "below d d'"
  using assms(1) wf
proof (induction cs arbitrary: d)
  case Nil
  then show ?case by (simp add: refl)
next
  case (Cons c cs)
  show ?case
  proof (cases "c = ''.''")
    case True
    with Cons show ?thesis by simp
  next
    case False
    with Cons.prems(1) obtain e where ne: "c \<noteq> ''..''" and o: "openat d c = Some e"
      and r: "open_components openat e cs = Some d'"
      by (auto split: if_splits option.splits)
    have "below d e" using child [OF o ne] Cons.prems(2) [of c] by simp
    moreover have "below e d'" using Cons.IH [OF r] Cons.prems(2) by simp
    ultimately show ?thesis by (rule trans)
  qed
qed

text \<open>What a call leaves behind: the capacity bound, and for a returned record that it is the next one
  of the stream and that it fits its buffer with the terminating NUL.\<close>

definition getdelim_ok :: "char \<Rightarrow> nat \<Rightarrow> string \<Rightarrow> nat \<Rightarrow> getdelim_result \<times> nat \<times> string \<Rightarrow> bool" where
  "getdelim_ok delim max_len all cap0 res =
     (case res of (r, cap', rest) \<Rightarrow> cap' \<le> max cap0 (max_len + 1) \<and>
        (case r of
           GD_LINE l \<Rightarrow> all = l @ rest \<and> l \<noteq> [] \<and> length l \<le> max_len \<and> length l + 1 \<le> cap' \<and>
             delim \<notin> set (butlast l) \<and> (last l = delim \<or> rest = [])
         | GD_EOF \<Rightarrow> all = []
         | _ \<Rightarrow> True))"

lemma getdelim_loop_ok:
  assumes "length line + 1 \<le> cap" and "delim \<notin> set line" and "length line \<le> max_len"
    and "cap \<le> max cap0 (max_len + 1)"
  shows "getdelim_ok delim max_len (line @ stream) cap0 (getdelim_loop mem delim max_len stream line cap)"
  using assms
proof (induction stream arbitrary: line cap)
  case Nil
  then show ?case by (auto simp: getdelim_ok_def dest: in_set_butlastD)
next
  case (Cons c stream)
  let ?new = "if cap < length line + 2 then min (max (cap * 2) (length line + 2)) (max_len + 1) else cap"
  consider (big) "max_len \<le> length line"
    | (mem) "length line < max_len" "cap < length line + 2" "\<not> mem ?new"
    | (put) "length line < max_len" "\<not> (cap < length line + 2 \<and> \<not> mem ?new)"
    by linarith
  then show ?case
  proof cases
    case big
    with Cons.prems show ?thesis by (simp add: getdelim_ok_def)
  next
    case mem
    with Cons.prems show ?thesis by (simp add: getdelim_ok_def)
  next
    case put
    have new: "length (line @ [c]) + 1 \<le> ?new" "?new \<le> max cap0 (max_len + 1)"
      using put(1) Cons.prems by auto
    have eq: "getdelim_loop mem delim max_len (c # stream) line cap =
        (if c = delim then (GD_LINE (line @ [c]), ?new, stream)
         else getdelim_loop mem delim max_len stream (line @ [c]) ?new)"
      using put by (auto simp: Let_def)
    show ?thesis
    proof (cases "c = delim")
      case True
      with new put(1) Cons.prems show ?thesis
        unfolding eq by (simp add: getdelim_ok_def)
    next
      case False
      then show ?thesis unfolding eq
        using Cons.IH [OF new(1) _ _ new(2)] Cons.prems put(1) by simp
    qed
  qed
qed

lemma escape_byte_printable:
  assumes "c \<in> set (escape_byte eight_bit b)"
  shows "(32 \<le> byte_of_char c \<and> byte_of_char c \<le> 126) \<or> (eight_bit \<and> 128 \<le> byte_of_char c)"
proof -
  have digit: "32 \<le> 48 + (x AND 7) \<and> 48 + (x AND 7) \<le> 126" for x :: byte
  proof -
    have "unat (x AND 7) \<le> unat (7 :: byte)" by (rule word_le_nat_alt [THEN iffD1]) (rule word_and_le1)
    then show ?thesis by (simp add: word_le_nat_alt unat_word_ariths)
  qed
  have "byte_of_char (CHR 0x5C) = 92" "byte_of_char (CHR ''#'') = 35"
    by (simp_all add: byte_of_char_def)
  with assms digit show ?thesis by (auto simp: escape_byte_def split: if_splits)
qed

lemma length_escape_byte: "length (escape_byte eight_bit b) \<le> 5"
  by (simp add: escape_byte_def)

section \<open>Properties\<close>

text \<open>C17: A batch entry cannot leave the destination. If a peer-supplied path passes
  \<open>utils_valid_batch_path\<close> and is joined onto the destination root, the path it denotes, with \<open>.\<close> and
  \<open>..\<close> resolved, lies below what the root denotes.\<close>

theorem batch_path_confined:
  assumes "utils_valid_batch_path mem rel" and "path_cat mem (Some root) (Some rel) = Some p"
  shows "\<exists>below. resolve_dots [] (components p) = resolve_dots [] (components root) @ below"
proof -
  have "''..'' \<notin> set (components rel)"
    using assms(1) by (simp add: utils_valid_batch_path_def has_path_traversal_iff)
  then show ?thesis
    by (simp add: path_cat_components [OF assms(2)] resolve_dots_append resolve_dots_below)
qed

theorem batch_path_confined_witness:
  "utils_valid_batch_path (\<lambda>_. True) ''a/./b'' \<and>
   (\<exists>below. resolve_dots [] (components ''/srv/x/../y/a/./b'') =
      resolve_dots [] (components ''/srv/x/../y/'') @ below)"
proof -
  have v: "utils_valid_batch_path (\<lambda>_. True) ''a/./b''"
    by (simp add: utils_valid_batch_path_def has_path_traversal_iff char_at_def NUL_def components_def)
  have "path_cat (\<lambda>_. True) (Some ''/srv/x/../y/'') (Some ''a/./b'') = Some ''/srv/x/../y/a/./b''"
    by (simp add: path_cat_def SIZE_MAX_def)
  from batch_path_confined [OF v this] v show ?thesis by blast
qed

text \<open>C18: The authorised destination is opened inside the authorised root. Whatever destination string
  the peer gives, a handle that \<open>utils_open_authorized_destination\<close> returns is reached from a
  duplicate of the root handle by opening single, non-\<open>..\<close> components without following links, hence
  lies below it, for any notion of "below" that is reflexive, transitive and respected by such opens.\<close>

theorem authorized_destination_confined:
  assumes "utils_open_authorized_destination mem dup openat root_fd root_path dest = Some d'"
    and "\<And>d. below d d" and "\<And>a b c. below a b \<Longrightarrow> below b c \<Longrightarrow> below a c"
    and "\<And>d c d'. openat d c = Some d' \<Longrightarrow> c \<noteq> ''..'' \<Longrightarrow> c \<noteq> [] \<Longrightarrow> SLASH \<notin> set c \<Longrightarrow> below d d'"
  shows "\<exists>fd dirfd root. root_fd = Some fd \<and> dup fd = Some dirfd \<and> root_path = Some root \<and>
    path_is_within_root root dest \<and> below dirfd d'"
proof -
  from assms(1) obtain fd root dirfd relative where o: "root_fd = Some fd" "root_path = Some root"
    "path_is_within_root root dest" "dup fd = Some dirfd"
    "open_components openat dirfd (components relative) = Some d'"
    by (auto simp: utils_open_authorized_destination_def Let_def split: option.splits if_splits)
  have "below dirfd d'"
    using o(5) assms(2-4) components_wf by (rule open_components_below)
  with o show ?thesis by blast
qed

text \<open>The witness: handles are lists of directory names, and opening appends one.\<close>

theorem authorized_destination_confined_witness:
  "utils_open_authorized_destination (\<lambda>_. True) Some (\<lambda>d c. Some (d @ [c])) (Some [''srv''])
     (Some ''/srv'') ''/srv//a/./b'' = Some [''srv'', ''a'', ''b''] \<and>
   (\<exists>t. [''srv'', ''a'', ''b''] = [''srv''] @ t)"
proof -
  have o: "utils_open_authorized_destination (\<lambda>_. True) Some (\<lambda>d c. Some (d @ [c])) (Some [''srv''])
     (Some ''/srv'') ''/srv//a/./b'' = Some [''srv'', ''a'', ''b'']"
    by (simp add: utils_open_authorized_destination_def path_is_within_root_def starts_with_def
        char_at_def str_dup_def components_def)
  have "\<exists>fd dirfd root. Some [''srv''] = Some fd \<and> Some fd = Some dirfd \<and> Some ''/srv'' = Some root \<and>
      path_is_within_root root ''/srv//a/./b'' \<and> (\<exists>t. [''srv'', ''a'', ''b''] = dirfd @ t)"
    by (rule authorized_destination_confined [OF o, where below = "\<lambda>a b. \<exists>t. b = a @ t"]) auto
  with o show ?thesis by auto
qed

text \<open>C19: Escaped output is safe to print and fits its buffer. Every character of the escaped string
  is printable ASCII, or a byte of 128 and above when 8-bit output was asked for, and the result with
  its NUL is no longer than the buffer that was allocated for it.\<close>

theorem output_escape_safe:
  assumes "output_escape mem s eight_bit = Some e"
  shows "length e + 1 \<le> length s * 5 + 1 \<and> mem (length s * 5 + 1) \<and>
    (\<forall>c\<in>set e. (32 \<le> byte_of_char c \<and> byte_of_char c \<le> 126) \<or> (eight_bit \<and> 128 \<le> byte_of_char c))"
proof -
  have e: "e = concat (map (\<lambda>c. escape_byte eight_bit (byte_of_char c)) s)" "mem (length s * 5 + 1)"
    using assms by (auto simp: output_escape_def split: if_splits)
  have "length (concat (map (\<lambda>c. escape_byte eight_bit (byte_of_char c)) s)) \<le> length s * 5"
    by (induction s) (auto intro: add_mono length_escape_byte)
  with e escape_byte_printable show ?thesis by (auto simp: set_concat)
qed

theorem output_escape_safe_witness:
  "\<exists>e. output_escape (\<lambda>_. True) [CHR ''a'', CHR 0x1B, CHR 0xC3] False = Some e \<and> length e + 1 \<le> 16 \<and>
     list_all (\<lambda>c. 32 \<le> byte_of_char c \<and> byte_of_char c \<le> 126) e"
proof -
  obtain e where e: "output_escape (\<lambda>_. True) [CHR ''a'', CHR 0x1B, CHR 0xC3] False = Some e"
    by (simp add: output_escape_def SIZE_MAX_def)
  from output_escape_safe [OF e] e show ?thesis by (auto simp: list_all_iff)
qed

text \<open>C20: Reading a record is bounded and exact. \<open>utils_getdelim_bounded\<close> returns the next record of
  the stream up to and including the delimiter (or the end), never longer than \<open>max_len\<close>, never
  grows the buffer past \<open>max_len + 1\<close> bytes (or the capacity it was given), and always leaves room
  for the terminating NUL; end of file is reported only on an empty stream.\<close>

theorem getdelim_bounded:
  assumes "utils_getdelim_bounded mem stream buf delim max_len = (r, Some cap', rest)"
    and "r \<noteq> GD_ERROR"
  shows "getdelim_ok delim max_len stream (case buf of None \<Rightarrow> 0 | Some cap \<Rightarrow> cap) (r, cap', rest)"
proof -
  let ?cap0 = "case buf of None \<Rightarrow> 0 | Some cap \<Rightarrow> cap"
  let ?init = "if max_len + 1 < 256 then max_len + 1 else (256 :: nat)"
  let ?start = "case buf of None \<Rightarrow> if mem ?init then Some ?init else None
    | Some cap \<Rightarrow> if cap < 2 then (if mem ?init then Some ?init else None) else Some cap"
  from assms have n: "0 < max_len" by (auto simp: utils_getdelim_bounded_def split: if_splits)
  with assms obtain cap where start: "?start = Some cap"
    and l: "getdelim_loop mem delim max_len stream [] cap = (r, cap', rest)"
    unfolding utils_getdelim_bounded_def Let_def
    by (cases ?start) (auto split: prod.splits)
  have "2 \<le> cap \<and> cap \<le> max ?cap0 (max_len + 1)"
    using start n by (auto split: option.splits if_splits)
  then show ?thesis
    using getdelim_loop_ok [of "[]" cap delim max_len ?cap0 stream mem] l by simp
qed

theorem getdelim_bounded_witness:
  "utils_getdelim_bounded (\<lambda>_. True) ''ab,c'' None (CHR '','') 5 = (GD_LINE ''ab,'', Some 6, ''c'') \<and>
   getdelim_ok (CHR '','') 5 ''ab,c'' 0 (GD_LINE ''ab,'', 6, ''c'')"
proof -
  have r: "utils_getdelim_bounded (\<lambda>_. True) ''ab,c'' None (CHR '','') 5 = (GD_LINE ''ab,'', Some 6, ''c'')"
    by (simp add: utils_getdelim_bounded_def)
  from getdelim_bounded [OF r] r show ?thesis by simp
qed

end
