(* ===== verification/Str_Index.thy ===== *)
theory Str_Index
  imports Paths "HOL-Library.List_Lexorder" "HOL-Library.Char_ord"
begin

text \<open>
  The string indexes of \<open>src/src/shared/utils.c\<close>: the open-addressing hash set, the sorted array with
  its two binary searches, and the path index that pairs them. XXH64 is a library function and a
  parameter of the model. A probe loop has no bound in the code; it takes \<open>fuel\<close> here, \<open>None\<close> stands
  for a loop still running when it is used up, and the invariant shows that the number of slots is
  always enough.

  The contract between the index and its clients is the locale \<open>string_set\<close>.
\<close>

section \<open>Definitions\<close>

type_synonym xxh64 = "string \<Rightarrow> nat"

record hash_set =
  slots :: "string option list"
  hsize :: nat

abbreviation hcap :: "hash_set \<Rightarrow> nat" where
  "hcap s \<equiv> length (slots s)"

definition STR_HASH_SET_MIN_CAPACITY :: nat where
  "STR_HASH_SET_MIN_CAPACITY = 16"

definition str_hash_set_hash :: "xxh64 \<Rightarrow> string \<Rightarrow> nat" where
  "str_hash_set_hash xxh key = xxh key"

text \<open>The probe loop of \<open>put\<close> and of \<open>find\<close>: from \<open>index\<close> on to the first slot that is empty or holds
  the key.\<close>

fun probe :: "nat \<Rightarrow> string option list \<Rightarrow> string \<Rightarrow> nat \<Rightarrow> nat option" where
  "probe 0 sl key index = None"
| "probe (Suc fuel) sl key index =
     (case sl ! index of
        None \<Rightarrow> Some index
      | Some k \<Rightarrow>
          if length k = length key \<and> k = key then Some index
          else probe fuel sl key ((index + 1) AND (length sl - 1)))"

definition str_hash_set_put :: "xxh64 \<Rightarrow> hash_set \<Rightarrow> string \<Rightarrow> (hash_set \<times> bool) option" where
  "str_hash_set_put xxh s key =
     (let bmask = hcap s - 1; index = str_hash_set_hash xxh key AND bmask in
      case probe (hcap s) (slots s) key index of
        None \<Rightarrow> None
      | Some i \<Rightarrow>
          (case slots s ! i of
             None \<Rightarrow> Some (s\<lparr>slots := (slots s)[i := Some key], hsize := hsize s + 1\<rparr>, True)
           | Some _ \<Rightarrow> Some (s, False)))"

fun put_slots :: "xxh64 \<Rightarrow> hash_set \<Rightarrow> string option list \<Rightarrow> hash_set option" where
  "put_slots xxh s [] = Some s"
| "put_slots xxh s (None # rest) = put_slots xxh s rest"
| "put_slots xxh s (Some k # rest) =
     (case str_hash_set_put xxh s k of None \<Rightarrow> None | Some (s', _) \<Rightarrow> put_slots xxh s' rest)"

text \<open>The results of the allocating operations: an inner \<open>None\<close> is a refused allocation, an outer one
  a loop that has not ended.\<close>

definition str_hash_set_resize :: "allocator \<Rightarrow> xxh64 \<Rightarrow> hash_set \<Rightarrow> nat \<Rightarrow> hash_set option option" where
  "str_hash_set_resize mem xxh s new_capacity =
     (if \<not> mem (new_capacity * 8) then Some None
      else map_option Some
        (put_slots xxh \<lparr>slots = replicate new_capacity None, hsize = 0\<rparr> (slots s)))"

definition str_hash_set_grow :: "allocator \<Rightarrow> xxh64 \<Rightarrow> hash_set \<Rightarrow> hash_set option option" where
  "str_hash_set_grow mem xxh s =
     (if hcap s \<noteq> 0 \<and> (hsize s + 1) * 4 \<le> hcap s * 3 then Some (Some s)
      else str_hash_set_resize mem xxh s
             (if hcap s \<noteq> 0 then hcap s * 2 else STR_HASH_SET_MIN_CAPACITY))"

text \<open>The capacity loop of \<open>str_hash_set_init\<close>; \<open>capacity\<close> doubles at most 60 times.\<close>

primrec init_capacity :: "nat \<Rightarrow> nat \<Rightarrow> nat \<Rightarrow> nat" where
  "init_capacity 0 capacity hint = capacity"
| "init_capacity (Suc fuel) capacity hint =
     (if capacity < ((hint + 1) * 2) mod (SIZE_MAX + 1) \<and> capacity \<le> SIZE_MAX div 2
      then init_capacity fuel (capacity * 2) hint else capacity)"

definition str_hash_set_init :: "allocator \<Rightarrow> nat \<Rightarrow> hash_set option" where
  "str_hash_set_init mem hint =
     (let capacity = init_capacity 60 STR_HASH_SET_MIN_CAPACITY hint in
      if \<not> mem (capacity * 8) then None
      else Some \<lparr>slots = replicate capacity None, hsize = 0\<rparr>)"

definition str_hash_set_insert_ref :: "allocator \<Rightarrow> xxh64 \<Rightarrow> hash_set \<Rightarrow> string \<Rightarrow> hash_set option option" where
  "str_hash_set_insert_ref mem xxh s key =
     (case str_hash_set_grow mem xxh s of
        None \<Rightarrow> None
      | Some None \<Rightarrow> Some None
      | Some (Some s') \<Rightarrow>
          (case str_hash_set_put xxh s' key of None \<Rightarrow> None | Some (s'', _) \<Rightarrow> Some (Some s'')))"

definition str_hash_set_find_n :: "xxh64 \<Rightarrow> hash_set \<Rightarrow> string \<Rightarrow> nat option option" where
  "str_hash_set_find_n xxh s key =
     (if hcap s = 0 then Some None
      else let bmask = hcap s - 1; index = str_hash_set_hash xxh key AND bmask in
        (case probe (hcap s) (slots s) key index of
           None \<Rightarrow> None
         | Some i \<Rightarrow> Some (case slots s ! i of None \<Rightarrow> None | Some _ \<Rightarrow> Some i)))"

definition str_hash_set_lookup :: "xxh64 \<Rightarrow> hash_set \<Rightarrow> string \<Rightarrow> bool option" where
  "str_hash_set_lookup xxh s key = map_option (\<lambda>r. r \<noteq> None) (str_hash_set_find_n xxh s key)"

subsection \<open>The sorted array\<close>

text \<open>A byte as \<open>unsigned char\<close>, and \<open>strcmp\<close> on NUL-terminated strings as the difference of the first differing bytes.\<close>

definition uchar :: "char \<Rightarrow> int" where
  "uchar c = int (of_char c)"

fun strcmp :: "string \<Rightarrow> string \<Rightarrow> int" where
  "strcmp [] [] = 0"
| "strcmp [] (b # bs) = - uchar b"
| "strcmp (a # as) [] = uchar a"
| "strcmp (a # as) (b # bs) = (if a = b then strcmp as bs else uchar a - uchar b)"

fun strncmp :: "string \<Rightarrow> string \<Rightarrow> nat \<Rightarrow> int" where
  "strncmp as bs 0 = 0"
| "strncmp [] [] (Suc n) = 0"
| "strncmp [] (b # bs) (Suc n) = - uchar b"
| "strncmp (a # as) [] (Suc n) = uchar a"
| "strncmp (a # as) (b # bs) (Suc n) = (if a = b then strncmp as bs n else uchar a - uchar b)"

text \<open>\<open>qsort\<close> with \<open>strcmp\<close>: strings that compare equal are equal, so the sorted list is unique.\<close>

definition str_sorted_array_build :: "allocator \<Rightarrow> string list \<Rightarrow> string list option" where
  "str_sorted_array_build mem items =
     (if items = [] then Some []
      else if SIZE_MAX div 8 < length items then None
      else if \<not> mem (length items * 8) then None
      else Some (sort items))"

function contains_loop :: "string list \<Rightarrow> string \<Rightarrow> nat \<Rightarrow> nat \<Rightarrow> bool" where
  "contains_loop array key lo hi =
     (if lo < hi then
        let mid = lo + (hi - lo) div 2; cmp = strcmp (array ! mid) key in
        if cmp < 0 then contains_loop array key (mid + 1) hi
        else if cmp > 0 then contains_loop array key lo mid
        else True
      else False)"
  by pat_completeness auto

termination
  by (relation "measure (\<lambda>(_, _, lo, hi). hi - lo)") auto

definition str_sorted_array_contains :: "string list \<Rightarrow> string \<Rightarrow> bool" where
  "str_sorted_array_contains array key =
     (if array = [] then False else contains_loop array key 0 (length array))"

definition str_sorted_array_compare_prefix :: "string \<Rightarrow> string \<Rightarrow> int" where
  "str_sorted_array_compare_prefix entry key =
     (let cmp = strncmp entry key (length key) in
      if cmp \<noteq> 0 then cmp
      else let nxt = char_at entry (length key) in
        if nxt = NUL then -1 else uchar nxt - uchar SLASH)"

function lower_bound :: "(string \<Rightarrow> bool) \<Rightarrow> string list \<Rightarrow> nat \<Rightarrow> nat \<Rightarrow> nat" where
  "lower_bound before array lo hi =
     (if lo < hi then
        let mid = lo + (hi - lo) div 2 in
        if before (array ! mid) then lower_bound before array (mid + 1) hi
        else lower_bound before array lo mid
      else lo)"
  by pat_completeness auto

termination
  by (relation "measure (\<lambda>(_, _, lo, hi). hi - lo)") auto

definition str_sorted_array_has_child_prefix :: "string list \<Rightarrow> string \<Rightarrow> bool" where
  "str_sorted_array_has_child_prefix array key =
     (if array = [] \<or> key = [] then False
      else let lo = lower_bound (\<lambda>e. str_sorted_array_compare_prefix e key < 0) array 0 (length array) in
        if length array \<le> lo then False
        else strncmp (array ! lo) key (length key) = 0 \<and> char_at (array ! lo) (length key) = SLASH)"

subsection \<open>The path index\<close>

record path_index =
  exact :: hash_set
  sorted_paths :: "string list"

fun insert_all :: "allocator \<Rightarrow> xxh64 \<Rightarrow> hash_set \<Rightarrow> string list \<Rightarrow> hash_set option option" where
  "insert_all mem xxh s [] = Some (Some s)"
| "insert_all mem xxh s (k # ks) =
     (case str_hash_set_insert_ref mem xxh s k of
        None \<Rightarrow> None
      | Some None \<Rightarrow> Some None
      | Some (Some s') \<Rightarrow> insert_all mem xxh s' ks)"

definition path_index_build :: "allocator \<Rightarrow> xxh64 \<Rightarrow> string list \<Rightarrow> path_index option option" where
  "path_index_build mem xxh entries =
     (case str_hash_set_init mem (length entries) of
        None \<Rightarrow> Some None
      | Some s \<Rightarrow>
          (case str_sorted_array_build mem entries of
             None \<Rightarrow> Some None
           | Some arr \<Rightarrow>
               map_option (map_option (\<lambda>s'. \<lparr>exact = s', sorted_paths = arr\<rparr>))
                 (insert_all mem xxh s entries)))"

definition path_index_contains :: "xxh64 \<Rightarrow> path_index \<Rightarrow> string \<Rightarrow> bool option" where
  "path_index_contains xxh index path = str_hash_set_lookup xxh (exact index) path"

definition path_index_has_descendant :: "path_index \<Rightarrow> string \<Rightarrow> bool" where
  "path_index_has_descendant index path = str_sorted_array_has_child_prefix (sorted_paths index) path"

declare contains_loop.simps [simp del] lower_bound.simps [simp del]

section \<open>The contract\<close>

text \<open>A set of strings behind a handle: insertion may be refused, and then nothing changes hands.\<close>

locale string_set =
  fixes ins :: "'s \<Rightarrow> string \<Rightarrow> 's option option"
    and mem_of :: "'s \<Rightarrow> string \<Rightarrow> bool option"
    and keys :: "'s \<Rightarrow> string set"
    and ok :: "'s \<Rightarrow> bool"
  assumes ins_returns: "ok s \<Longrightarrow> ins s k \<noteq> None"
    and ins_keys: "ok s \<Longrightarrow> ins s k = Some (Some s') \<Longrightarrow> ok s' \<and> keys s' = insert k (keys s)"
    and mem_keys: "ok s \<Longrightarrow> mem_of s k = Some (k \<in> keys s)"
begin

lemma fold_ins:
  assumes "\<And>s. f s [] = Some (Some s)"
    and "\<And>s k ks. f s (k # ks) =
      (case ins s k of None \<Rightarrow> None | Some None \<Rightarrow> Some None | Some (Some s') \<Rightarrow> f s' ks)"
    and "ok s"
  shows "f s ks \<noteq> None \<and> (\<forall>s'. f s ks = Some (Some s') \<longrightarrow> ok s' \<and> keys s' = set ks \<union> keys s)"
  using assms(3)
proof (induction ks arbitrary: s)
  case Nil
  then show ?case by (simp add: assms(1))
next
  case (Cons k ks)
  obtain r where r: "ins s k = Some r" using ins_returns [OF Cons.prems] by blast
  show ?case
  proof (cases r)
    case None
    then show ?thesis by (simp add: assms(2) r)
  next
    case (Some s1)
    with r ins_keys [OF Cons.prems] have "ok s1" "keys s1 = insert k (keys s)" by auto
    with Cons.IH [of s1] Some r show ?thesis by (auto simp: assms(2))
  qed
qed

end

section \<open>The hash set meets the contract\<close>

text \<open>The slots a key's probe passes before it is found are all taken.\<close>

definition probe_inv :: "xxh64 \<Rightarrow> string option list \<Rightarrow> bool" where
  "probe_inv xxh sl \<longleftrightarrow> (\<forall>i<length sl. \<forall>k. sl ! i = Some k \<longrightarrow>
     (\<exists>d<length sl. i = (xxh k + d) mod length sl \<and>
        (\<forall>e<d. \<exists>k'. sl ! ((xxh k + e) mod length sl) = Some k' \<and> k' \<noteq> k)))"

definition filled :: "string option list \<Rightarrow> nat" where
  "filled sl = length (filter (\<lambda>x. x \<noteq> None) sl)"

definition hash_inv :: "xxh64 \<Rightarrow> hash_set \<Rightarrow> bool" where
  "hash_inv xxh s \<longleftrightarrow> (\<exists>b. hcap s = 2 ^ b) \<and> hsize s = filled (slots s) \<and> hsize s < hcap s \<and>
     probe_inv xxh (slots s)"

definition hash_keys :: "hash_set \<Rightarrow> string set" where
  "hash_keys s = {k. Some k \<in> set (slots s)}"

lemma and_mask_mod: "(x :: nat) AND (2 ^ b - 1) = x mod 2 ^ b"
  by (metis mask_eq_exp_minus_1 take_bit_eq_mask take_bit_eq_mod)

lemma probe_finds:
  assumes cap: "length sl = 2 ^ b"
    and passed: "\<And>e. e < d \<Longrightarrow> \<exists>k'. sl ! ((h + e) mod length sl) = Some k' \<and> k' \<noteq> key"
    and stop: "sl ! ((h + d) mod length sl) = None \<or> sl ! ((h + d) mod length sl) = Some key"
    and "d < fuel"
  shows "probe fuel sl key (h mod length sl) = Some ((h + d) mod length sl)"
  using passed stop assms(4)
proof (induction d arbitrary: h fuel)
  case 0
  then show ?case by (cases fuel) auto
next
  case (Suc d)
  then obtain f where f: "fuel = Suc f" by (cases fuel) auto
  obtain k' where k': "sl ! (h mod length sl) = Some k'" "k' \<noteq> key" using Suc.prems(1) [of 0] by auto
  have step: "(h mod length sl + 1) AND (length sl - 1) = Suc h mod length sl"
    unfolding cap and_mask_mod by (simp add: mod_Suc_eq)
  have "probe f sl key (Suc h mod length sl) = Some ((Suc h + d) mod length sl)"
  proof (rule Suc.IH)
    show "\<exists>k'. sl ! ((Suc h + e) mod length sl) = Some k' \<and> k' \<noteq> key" if "e < d" for e
      using Suc.prems(1) [of "Suc e"] that by simp
  qed (use Suc.prems f in simp_all)
  then show ?case using k' step by (simp add: f)
qed

text \<open>With a free slot, some probe distance stops.\<close>

lemma probe_stops:
  assumes "i < length sl" and "sl ! i = None"
  obtains d where "d < length sl"
    and "\<And>e. e < d \<Longrightarrow> \<exists>k'. sl ! ((h + e) mod length sl) = Some k' \<and> k' \<noteq> key"
    and "sl ! ((h + d) mod length sl) = None \<or> sl ! ((h + d) mod length sl) = Some key"
proof -
  let ?n = "length sl"
  let ?stop = "\<lambda>d. sl ! ((h + d) mod ?n) = None \<or> sl ! ((h + d) mod ?n) = Some key"
  define d0 where "d0 = (i + (?n - h mod ?n)) mod ?n"
  have "(h + d0) mod ?n = (h mod ?n + (i + (?n - h mod ?n))) mod ?n"
    by (simp only: d0_def mod_add_right_eq mod_add_left_eq)
  also have "h mod ?n + (i + (?n - h mod ?n)) = i + ?n"
    using assms(1) mod_less_divisor [of ?n h] by linarith
  finally have "(h + d0) mod ?n = i" using assms(1) by simp
  then have st: "?stop d0" using assms(2) by simp
  have "d0 < ?n" unfolding d0_def by (rule mod_less_divisor) (use assms(1) in linarith)
  show thesis
  proof (rule that [of "LEAST d. ?stop d"])
    show "(LEAST d. ?stop d) < ?n" using Least_le [of ?stop, OF st] \<open>d0 < ?n\<close> by simp
    show "?stop (LEAST d. ?stop d)" by (rule LeastI [of ?stop, OF st])
    fix e
    assume "e < (LEAST d. ?stop d)"
    then have "\<not> ?stop e" by (rule not_less_Least)
    then show "\<exists>k'. sl ! ((h + e) mod ?n) = Some k' \<and> k' \<noteq> key" by auto
  qed
qed

lemma free_slot: "filled sl < length sl \<Longrightarrow> \<exists>i<length sl. sl ! i = None"
proof (rule ccontr)
  assume lt: "filled sl < length sl" and none: "\<not> (\<exists>i<length sl. sl ! i = None)"
  have "filter (\<lambda>x. x \<noteq> None) sl = sl"
  proof (rule filter_True, rule ballI)
    fix x
    assume "x \<in> set sl"
    then obtain i where "i < length sl" and x: "x = sl ! i" unfolding in_set_conv_nth by blast
    then have "sl ! i \<noteq> None" using none by simp
    then show "x \<noteq> None" unfolding x .
  qed
  from arg_cong [OF this, of length] lt show False unfolding filled_def by linarith
qed

lemma filled_update:
  "i < length sl \<Longrightarrow> sl ! i = None \<Longrightarrow> filled (sl[i := Some k]) = Suc (filled sl)"
proof (induction sl arbitrary: i)
  case (Cons x sl)
  then show ?case by (cases i) (auto simp: filled_def)
qed simp

lemma keys_update:
  assumes "i < length sl" and "sl ! i = None"
  shows "{k. Some k \<in> set (sl[i := Some key])} = insert key {k. Some k \<in> set sl}"
proof -
  let ?rest = "set (take i sl) \<union> set (drop (Suc i) sl)"
  have "set (sl[i := Some key]) = insert (Some key) ?rest"
    by (simp add: upd_conv_take_nth_drop [OF assms(1)])
  moreover have "set sl = insert None ?rest"
    by (subst id_take_nth_drop [OF assms(1)]) (simp add: assms(2))
  ultimately show ?thesis by auto
qed

lemma probe_inv_update:
  assumes inv: "probe_inv xxh sl" and d: "d < length sl" and i: "i = (xxh key + d) mod length sl"
    and passed: "\<And>e. e < d \<Longrightarrow> \<exists>k'. sl ! ((xxh key + e) mod length sl) = Some k' \<and> k' \<noteq> key"
    and free: "sl ! i = None"
  shows "probe_inv xxh (sl[i := Some key])"
proof -
  let ?n = "length sl" and ?sl = "sl[i := Some key]"
  have keep: "\<exists>k'. ?sl ! p = Some k' \<and> k' \<noteq> k" if "\<exists>k'. sl ! p = Some k' \<and> k' \<noteq> k" for p k
  proof -
    have "p \<noteq> i" using that free by (metis option.distinct(1))
    then show ?thesis using that by simp
  qed
  have "\<exists>d<?n. j = (xxh k + d) mod ?n \<and> (\<forall>e<d. \<exists>k'. ?sl ! ((xxh k + e) mod ?n) = Some k' \<and> k' \<noteq> k)"
    if j: "j < ?n" and k: "?sl ! j = Some k" for j k
  proof (cases "j = i")
    case True
    with k j have "k = key" by simp
    with True d i keep [OF passed] show ?thesis by metis
  next
    case False
    with k have "sl ! j = Some k" by simp
    with inv j obtain d' where "d' < ?n" "j = (xxh k + d') mod ?n"
      and p: "\<And>e. e < d' \<Longrightarrow> \<exists>k'. sl ! ((xxh k + e) mod ?n) = Some k' \<and> k' \<noteq> k"
      unfolding probe_inv_def by blast
    with keep [OF p] show ?thesis by blast
  qed
  then show ?thesis unfolding probe_inv_def length_list_update by blast
qed

text \<open>What a probe from the home slot comes to, in a table with a free slot.\<close>

lemma probe_home:
  assumes cap: "hcap s = 2 ^ b" and free: "filled (slots s) < hcap s"
  obtains d where "d < hcap s"
    and "\<And>e. e < d \<Longrightarrow> \<exists>k'. slots s ! ((xxh key + e) mod hcap s) = Some k' \<and> k' \<noteq> key"
    and "slots s ! ((xxh key + d) mod hcap s) = None \<or> slots s ! ((xxh key + d) mod hcap s) = Some key"
    and "probe (hcap s) (slots s) key (str_hash_set_hash xxh key AND (hcap s - 1)) =
      Some ((xxh key + d) mod hcap s)"
proof -
  obtain i where "i < hcap s" "slots s ! i = None" using free_slot [OF free] by blast
  from probe_stops [OF this, of "xxh key" key] obtain d where d: "d < hcap s"
    and p: "\<And>e. e < d \<Longrightarrow> \<exists>k'. slots s ! ((xxh key + e) mod hcap s) = Some k' \<and> k' \<noteq> key"
    and st: "slots s ! ((xxh key + d) mod hcap s) = None \<or> slots s ! ((xxh key + d) mod hcap s) = Some key"
    by blast
  have "str_hash_set_hash xxh key AND (hcap s - 1) = xxh key mod hcap s"
    unfolding cap and_mask_mod by (simp add: str_hash_set_hash_def)
  with probe_finds [OF cap p st d] show thesis using that [OF d p st] by simp
qed

lemma put_correct:
  assumes cap: "hcap s = 2 ^ b" and sz: "hsize s = filled (slots s)" and free: "hsize s < hcap s"
    and inv: "probe_inv xxh (slots s)"
  shows "\<exists>s' new. str_hash_set_put xxh s key = Some (s', new) \<and> hcap s' = hcap s \<and>
    hsize s' = filled (slots s') \<and> hsize s' \<le> hsize s + 1 \<and> probe_inv xxh (slots s') \<and>
    hash_keys s' = insert key (hash_keys s)"
proof -
  obtain d where d: "d < hcap s"
    and p: "\<And>e. e < d \<Longrightarrow> \<exists>k'. slots s ! ((xxh key + e) mod hcap s) = Some k' \<and> k' \<noteq> key"
    and st: "slots s ! ((xxh key + d) mod hcap s) = None \<or> slots s ! ((xxh key + d) mod hcap s) = Some key"
    and pr: "probe (hcap s) (slots s) key (str_hash_set_hash xxh key AND (hcap s - 1)) =
      Some ((xxh key + d) mod hcap s)"
    using probe_home [OF cap free [unfolded sz]] by metis
  define i where "i = (xxh key + d) mod hcap s"
  have i: "i < hcap s" unfolding i_def by (rule mod_less_divisor) (use d in linarith)
  show ?thesis
  proof (cases "slots s ! i = None")
    case True
    let ?s = "s\<lparr>slots := (slots s)[i := Some key], hsize := hsize s + 1\<rparr>"
    have "str_hash_set_put xxh s key = Some (?s, True)"
      using pr True by (simp add: str_hash_set_put_def i_def Let_def)
    moreover have "probe_inv xxh (slots ?s)"
      using probe_inv_update [OF inv d i_def p True] by simp
    moreover have "hash_keys ?s = insert key (hash_keys s)"
      using keys_update [OF i True] by (simp add: hash_keys_def)
    ultimately show ?thesis using filled_update [OF i True] sz by auto
  next
    case False
    then have k: "slots s ! i = Some key" using st by (auto simp: i_def)
    then have "str_hash_set_put xxh s key = Some (s, False)"
      using pr by (simp add: str_hash_set_put_def i_def Let_def)
    moreover have "key \<in> hash_keys s" using k i by (auto simp: hash_keys_def in_set_conv_nth)
    ultimately show ?thesis using sz inv by (auto simp: insert_absorb)
  qed
qed

definition roomy :: "xxh64 \<Rightarrow> nat \<Rightarrow> hash_set \<Rightarrow> bool" where
  "roomy xxh n s \<longleftrightarrow> (\<exists>b. hcap s = 2 ^ b) \<and> hsize s = filled (slots s) \<and> hsize s + n < hcap s \<and>
     probe_inv xxh (slots s)"

lemma hash_inv_roomy: "hash_inv xxh s \<longleftrightarrow> roomy xxh 0 s"
  by (simp add: hash_inv_def roomy_def)

lemma put_roomy:
  assumes "roomy xxh (Suc n) s"
  shows "\<exists>s' new. str_hash_set_put xxh s key = Some (s', new) \<and> roomy xxh n s' \<and> hcap s' = hcap s \<and>
    hash_keys s' = insert key (hash_keys s)"
proof -
  from assms obtain b where "hcap s = 2 ^ b" "hsize s = filled (slots s)" "hsize s + Suc n < hcap s"
    "probe_inv xxh (slots s)" by (auto simp: roomy_def)
  with put_correct [of s b xxh key] show ?thesis by (fastforce simp: roomy_def)
qed

lemma put_slots_correct:
  "roomy xxh (filled sl + n) s \<Longrightarrow>
   \<exists>s'. put_slots xxh s sl = Some s' \<and> roomy xxh n s' \<and> hcap s' = hcap s \<and>
     hash_keys s' = hash_keys s \<union> {k. Some k \<in> set sl}"
proof (induction xxh s sl rule: put_slots.induct)
  case (1 xxh s)
  then show ?case by (simp add: filled_def)
next
  case (2 xxh s rest)
  then show ?case by (simp add: filled_def)
next
  case (3 xxh s k rest)
  then have "roomy xxh (Suc (filled rest + n)) s" by (simp add: filled_def)
  from put_roomy [OF this, of k] obtain s1 new where s1: "str_hash_set_put xxh s k = Some (s1, new)"
    "roomy xxh (filled rest + n) s1" "hcap s1 = hcap s" "hash_keys s1 = insert k (hash_keys s)" by blast
  from "3.IH" [OF s1(1) refl s1(2)] s1 show ?case by auto
qed

lemma roomy_empty: "n < 2 ^ b \<Longrightarrow> roomy xxh n \<lparr>slots = replicate (2 ^ b) None, hsize = 0\<rparr>"
  by (auto simp: roomy_def filled_def probe_inv_def)

lemma roomy_mono: "roomy xxh n s \<Longrightarrow> m \<le> n \<Longrightarrow> roomy xxh m s"
  by (auto simp: roomy_def)

lemma grow_correct:
  assumes inv: "hash_inv xxh s"
  shows "\<exists>r. str_hash_set_grow mem xxh s = Some r \<and>
    (\<forall>s'. r = Some s' \<longrightarrow> roomy xxh 1 s' \<and> hash_keys s' = hash_keys s)"
proof -
  from inv obtain b where b: "hcap s = 2 ^ b" and sz: "hsize s = filled (slots s)"
    and lt: "hsize s < hcap s" and pi: "probe_inv xxh (slots s)" by (auto simp: hash_inv_def)
  show ?thesis
  proof (cases "(hsize s + 1) * 4 \<le> hcap s * 3")
    case True
    then have "hsize s + 1 < hcap s" using lt by simp
    then have "roomy xxh 1 s" using b sz pi unfolding roomy_def by blast
    with True lt show ?thesis by (auto simp: str_hash_set_grow_def)
  next
    case False
    define n where "n = hcap s * 2"
    have n: "n = 2 ^ Suc b" using b by (simp add: n_def)
    have "roomy xxh (filled (slots s) + 1) \<lparr>slots = replicate n None, hsize = 0\<rparr>"
      unfolding n by (rule roomy_empty) (use lt sz b in simp)
    from put_slots_correct [OF this] obtain s' where s':
      "put_slots xxh \<lparr>slots = replicate n None, hsize = 0\<rparr> (slots s) = Some s'"
      "roomy xxh 1 s'" "hash_keys s' = hash_keys s" by (auto simp: hash_keys_def)
    have cap: "(if hcap s \<noteq> 0 then hcap s * 2 else STR_HASH_SET_MIN_CAPACITY) = n" using lt n_def by auto
    have full: "\<not> (hcap s \<noteq> 0 \<and> (hsize s + 1) * 4 \<le> hcap s * 3)" using False by simp
    have "str_hash_set_grow mem xxh s = (if mem (n * 8) then Some (Some s') else Some None)"
      unfolding str_hash_set_grow_def if_not_P [OF full] cap str_hash_set_resize_def s'(1) by simp
    then show ?thesis using s'(2,3) by (cases "mem (n * 8)") simp_all
  qed
qed

lemma put_after_grow:
  assumes "roomy xxh 1 s"
  shows "\<exists>s2 new. str_hash_set_put xxh s k = Some (s2, new) \<and> hash_inv xxh s2 \<and>
    hash_keys s2 = insert k (hash_keys s)"
  using put_roomy [of xxh 0 s k] assms unfolding hash_inv_roomy One_nat_def by blast

lemma insert_ref_correct:
  assumes "hash_inv xxh s"
  shows "\<exists>r. str_hash_set_insert_ref mem xxh s k = Some r \<and>
    (\<forall>s'. r = Some s' \<longrightarrow> hash_inv xxh s' \<and> hash_keys s' = insert k (hash_keys s))"
proof -
  obtain g where g: "str_hash_set_grow mem xxh s = Some g"
    and s1: "\<And>s1. g = Some s1 \<Longrightarrow> roomy xxh 1 s1 \<and> hash_keys s1 = hash_keys s"
    using grow_correct [OF assms, of mem] by blast
  show ?thesis
  proof (cases g)
    case None
    then show ?thesis by (simp add: str_hash_set_insert_ref_def g)
  next
    case (Some s1)
    from put_after_grow [of xxh s1 k] s1 [OF Some] obtain s2 new
      where "str_hash_set_put xxh s1 k = Some (s2, new)" "hash_inv xxh s2"
        "hash_keys s2 = insert k (hash_keys s)" by auto
    then show ?thesis by (simp add: str_hash_set_insert_ref_def g Some)
  qed
qed

lemma lookup_correct:
  assumes "hash_inv xxh s"
  shows "str_hash_set_lookup xxh s k = Some (k \<in> hash_keys s)"
proof -
  from assms obtain b where b: "hcap s = 2 ^ b" and free: "filled (slots s) < hcap s"
    and pi: "probe_inv xxh (slots s)" unfolding hash_inv_def by metis
  obtain d where d: "d < hcap s"
    and p: "\<And>e. e < d \<Longrightarrow> \<exists>k'. slots s ! ((xxh k + e) mod hcap s) = Some k' \<and> k' \<noteq> k"
    and st: "slots s ! ((xxh k + d) mod hcap s) = None \<or> slots s ! ((xxh k + d) mod hcap s) = Some k"
    and pr: "probe (hcap s) (slots s) k (str_hash_set_hash xxh k AND (hcap s - 1)) =
      Some ((xxh k + d) mod hcap s)"
    using probe_home [OF b free] by metis
  define i where "i = (xxh k + d) mod hcap s"
  have i: "i < hcap s" unfolding i_def by (rule mod_less_divisor) (use d in linarith)
  have found: "slots s ! i = Some k" if hk: "k \<in> hash_keys s"
  proof -
    obtain j where j: "j < hcap s" "slots s ! j = Some k"
      using hk unfolding hash_keys_def mem_Collect_eq in_set_conv_nth by blast
    with pi obtain d' where d': "j = (xxh k + d') mod hcap s"
      "\<forall>e<d'. \<exists>k'. slots s ! ((xxh k + e) mod hcap s) = Some k' \<and> k' \<noteq> k"
      unfolding probe_inv_def by blast
    have "\<not> d' < d" using p [of d'] j(2) d'(1) by auto
    moreover have "\<not> d < d'" if "slots s ! i = None" using d'(2) that unfolding i_def by fastforce
    ultimately have "slots s ! i \<noteq> None" using j(2) d'(1) unfolding i_def by (metis linorder_cases option.simps(3))
    then show ?thesis using st [folded i_def] by (elim disjE) (rule notE)
  qed
  have "k \<in> hash_keys s" if "slots s ! i = Some k"
    using nth_mem [OF i] that by (simp add: hash_keys_def)
  then have "slots s ! i \<noteq> None \<longleftrightarrow> k \<in> hash_keys s" using found st [folded i_def] by auto
  moreover have "hcap s \<noteq> 0" using d by linarith
  ultimately show ?thesis
    unfolding str_hash_set_lookup_def str_hash_set_find_n_def Let_def pr i_def [symmetric]
    by (cases "slots s ! i") simp_all
qed

interpretation hset: string_set "str_hash_set_insert_ref mem xxh" "str_hash_set_lookup xxh" hash_keys
  "hash_inv xxh" for mem xxh
proof
  fix s k s'
  assume inv: "hash_inv xxh s"
  show "str_hash_set_insert_ref mem xxh s k \<noteq> None"
    using insert_ref_correct [OF inv, of mem k] by auto
  show "str_hash_set_lookup xxh s k = Some (k \<in> hash_keys s)" by (rule lookup_correct [OF inv])
  assume "str_hash_set_insert_ref mem xxh s k = Some (Some s')"
  then show "hash_inv xxh s' \<and> hash_keys s' = insert k (hash_keys s)"
    using insert_ref_correct [OF inv, of mem k] by auto
qed

section \<open>The sorted array\<close>

lemma uchar_simps [simp]:
  "uchar a < uchar b \<longleftrightarrow> a < b" "uchar a = uchar b \<longleftrightarrow> a = b" "0 \<le> uchar a"
  by (simp_all add: uchar_def less_char_def)

lemma uchar_pos [simp]: "0 < uchar c \<longleftrightarrow> c \<noteq> NUL"
proof -
  have "uchar NUL = 0" by (simp add: uchar_def NUL_def)
  then show ?thesis by (metis less_le uchar_simps(2,3))
qed

lemma uchar_0 [simp]: "uchar c = 0 \<longleftrightarrow> c = NUL" "0 = uchar c \<longleftrightarrow> c = NUL"
  using uchar_pos [of c] uchar_simps(3) [of c] by linarith+

lemma cstring_Cons [simp]: "cstring (c # s) \<longleftrightarrow> c \<noteq> NUL \<and> cstring s"
  by (auto simp: cstring_def)

lemma strcmp_less: "cstring a \<Longrightarrow> cstring b \<Longrightarrow> strcmp a b < 0 \<longleftrightarrow> a < b"
  by (induction a b rule: strcmp.induct) (auto simp: not_less)

lemma strcmp_eq: "cstring a \<Longrightarrow> cstring b \<Longrightarrow> strcmp a b = 0 \<longleftrightarrow> a = b"
  by (induction a b rule: strcmp.induct) (auto dest: order.strict_implies_not_eq)

text \<open>The virtual key \<open>key + '/'\<close>: comparing with it is comparing with the concatenation.\<close>

lemma strncmp_prefix:
  "cstring a \<Longrightarrow> cstring k \<Longrightarrow> strncmp a k (length k) = 0 \<longleftrightarrow> take (length k) a = k"
proof (induction k arbitrary: a)
  case (Cons c k)
  then show ?case by (cases a) auto
qed simp

lemma compare_prefix_less:
  "cstring e \<Longrightarrow> cstring k \<Longrightarrow> str_sorted_array_compare_prefix e k < 0 \<longleftrightarrow> e < k @ [SLASH]"
proof (induction k arbitrary: e)
  case Nil
  then show ?case
    by (cases e) (auto simp: str_sorted_array_compare_prefix_def char_at_def Let_def)
next
  case (Cons c k)
  note IH = Cons.IH
  show ?case
  proof (cases e)
    case Nil
    with Cons.prems show ?thesis
      by (auto simp: str_sorted_array_compare_prefix_def Let_def)
  next
    case (Cons d e')
    have "str_sorted_array_compare_prefix (d # e') (c # k) =
        (if d = c then str_sorted_array_compare_prefix e' k else uchar d - uchar c)"
      by (auto simp: str_sorted_array_compare_prefix_def Let_def char_at_def)
    with Cons \<open>cstring e\<close> \<open>cstring (c # k)\<close> IH [of e'] show ?thesis by auto
  qed
qed

lemma prefix_interval:
  fixes k f :: string
  shows "k \<le> f \<Longrightarrow> f \<le> k @ t \<Longrightarrow> take (length k) f = k"
proof (induction k arbitrary: f)
  case (Cons c k)
  then show ?case by (cases f) (auto simp: not_less)
qed simp

lemma contains_loop_correct:
  assumes srt: "sorted array" and cs: "\<And>e. e \<in> set array \<Longrightarrow> cstring e" and key: "cstring key"
  shows "hi \<le> length array \<Longrightarrow> contains_loop array key lo hi \<longleftrightarrow> (\<exists>i\<ge>lo. i < hi \<and> array ! i = key)"
  using assms
proof (induction array key lo hi rule: contains_loop.induct)
  case (1 array key lo hi)
  show ?case
  proof (cases "lo < hi")
    case False
    then show ?thesis by (simp add: contains_loop.simps)
  next
    case True
    define mid where "mid = lo + (hi - lo) div 2"
    have mid: "lo \<le> mid" "mid < hi" using True by (auto simp: mid_def)
    have lt: "strcmp (array ! mid) key < 0 \<longleftrightarrow> array ! mid < key"
      and eq: "strcmp (array ! mid) key = 0 \<longleftrightarrow> array ! mid = key"
      using strcmp_less strcmp_eq "1.prems" mid by auto
    have mono: "array ! i \<le> array ! j" if "i \<le> j" "j < hi" for i j
      using that "1.prems" by (intro sorted_nth_mono) auto
    note IH = "1.IH" [OF True mid_def refl]
    consider (less) "array ! mid < key" | (greater) "key < array ! mid" | (same) "array ! mid = key"
      by (meson linorder_cases)
    then show ?thesis
    proof cases
      case less
      have "contains_loop array key lo hi = contains_loop array key (mid + 1) hi"
        using True less lt by (subst contains_loop.simps) (simp add: mid_def [symmetric] Let_def)
      also have "\<dots> \<longleftrightarrow> (\<exists>i\<ge>mid + 1. i < hi \<and> array ! i = key)"
        using IH(1) less lt "1.prems" by simp
      also have "\<dots> \<longleftrightarrow> (\<exists>i\<ge>lo. i < hi \<and> array ! i = key)"
      proof -
        have "mid + 1 \<le> i" if "array ! i = key" for i
        proof (rule ccontr)
          assume "\<not> mid + 1 \<le> i"
          then have "array ! i \<le> array ! mid" using mono [of i mid] mid by simp
          with less that show False by simp
        qed
        moreover have "lo \<le> i" if "mid + 1 \<le> i" for i using that mid by simp
        ultimately show ?thesis by blast
      qed
      finally show ?thesis .
    next
      case greater
      then have ng: "\<not> strcmp (array ! mid) key < 0" "strcmp (array ! mid) key > 0"
        using lt eq by auto
      have "contains_loop array key lo hi = contains_loop array key lo mid"
        using True ng by (subst contains_loop.simps) (simp add: mid_def [symmetric] Let_def)
      also have "\<dots> \<longleftrightarrow> (\<exists>i\<ge>lo. i < mid \<and> array ! i = key)"
        using IH(2) ng "1.prems" mid by simp
      also have "\<dots> \<longleftrightarrow> (\<exists>i\<ge>lo. i < hi \<and> array ! i = key)"
      proof -
        have "i < mid" if "i < hi" "array ! i = key" for i
        proof (rule ccontr)
          assume "\<not> i < mid"
          then have "array ! mid \<le> array ! i" using mono [of mid i] that by simp
          with greater that show False by simp
        qed
        moreover have "i < hi" if "i < mid" for i using that mid by simp
        ultimately show ?thesis by blast
      qed
      finally show ?thesis .
    next
      case same
      then show ?thesis using True eq lt mid
        by (subst contains_loop.simps) (auto simp: mid_def [symmetric] Let_def)
    qed
  qed
qed

lemma lower_bound_correct:
  assumes "\<forall>j<length array. before (array ! j) \<longrightarrow> (\<forall>i\<le>j. before (array ! i))"
  shows "lo \<le> hi \<Longrightarrow> hi \<le> length array \<Longrightarrow>
    lo \<le> lower_bound before array lo hi \<and> lower_bound before array lo hi \<le> hi \<and>
    (\<forall>i. lo \<le> i \<and> i < lower_bound before array lo hi \<longrightarrow> before (array ! i)) \<and>
    (\<forall>i. lower_bound before array lo hi \<le> i \<and> i < hi \<longrightarrow> \<not> before (array ! i))"
  using assms
proof (induction before array lo hi rule: lower_bound.induct)
  case (1 before array lo hi)
  show ?case
  proof (cases "lo < hi")
    case False
    then show ?thesis using "1.prems"(1) by (auto simp: lower_bound.simps)
  next
    case True
    define mid where "mid = lo + (hi - lo) div 2"
    have mid: "lo \<le> mid" "mid < hi" using True by (auto simp: mid_def)
    note IH = "1.IH" [OF True mid_def]
    show ?thesis
    proof (cases "before (array ! mid)")
      case bef: True
      have eq: "lower_bound before array lo hi = lower_bound before array (mid + 1) hi"
        using True bef by (subst lower_bound.simps) (simp add: mid_def [symmetric] Let_def)
      have low: "before (array ! i)" if "i \<le> mid" for i
        using "1.prems"(3) [rule_format, OF _ bef that] mid "1.prems"(2) by simp
      have "mid + 1 \<le> hi" using mid by simp
      note ih = IH(1) [OF bef this "1.prems"(2,3)]
      have "before (array ! i)" if "lo \<le> i" "i < lower_bound before array (mid + 1) hi" for i
        using ih low [of i] that by (cases "i \<le> mid") auto
      then show ?thesis unfolding eq using ih mid by simp
    next
      case naf: False
      have eq: "lower_bound before array lo hi = lower_bound before array lo mid"
        using True naf by (subst lower_bound.simps) (simp add: mid_def [symmetric] Let_def)
      have high: "\<not> before (array ! i)" if "mid \<le> i" "i < hi" for i
        using "1.prems"(3) [rule_format, of i mid] naf that "1.prems"(2) by auto
      have "mid \<le> length array" using mid "1.prems"(2) by simp
      note ih = IH(2) [OF naf mid(1) this "1.prems"(3)]
      have "\<not> before (array ! i)" if "lower_bound before array lo mid \<le> i" "i < hi" for i
        using ih high [of i] that by (cases "mid \<le> i") auto
      then show ?thesis unfolding eq using ih mid by simp
    qed
  qed
qed

lemma le_append: "(xs :: string) \<le> xs @ ys"
  by (induction xs) auto

lemma child_prefix_split:
  "(take (length k) f = k \<and> char_at f (length k) = SLASH) \<longleftrightarrow> (\<exists>t. f = k @ SLASH # t)"
proof
  assume a: "take (length k) f = k \<and> char_at f (length k) = SLASH"
  then have "length k < length f" by (auto simp: char_at_def NUL_def split: if_splits)
  with a show "\<exists>t. f = k @ SLASH # t"
    by (metis char_at_def append_take_drop_id Cons_nth_drop_Suc)
qed (auto simp: char_at_def)

lemma has_child_prefix_correct:
  assumes srt: "sorted array" and cs: "\<And>e. e \<in> set array \<Longrightarrow> cstring e" and key: "cstring key"
  shows "str_sorted_array_has_child_prefix array key \<longleftrightarrow>
    key \<noteq> [] \<and> (\<exists>e\<in>set array. \<exists>t. e = key @ SLASH # t)"
proof (cases "array = [] \<or> key = []")
  case True
  then show ?thesis by (auto simp: str_sorted_array_has_child_prefix_def)
next
  case False
  let ?k = "key @ [SLASH]" and ?before = "\<lambda>e. str_sorted_array_compare_prefix e key < 0"
  define lo where "lo = lower_bound ?before array 0 (length array)"
  have bef: "?before (array ! i) \<longleftrightarrow> array ! i < ?k" if "i < length array" for i
    using compare_prefix_less cs key that by simp
  have "\<forall>j<length array. ?before (array ! j) \<longrightarrow> (\<forall>i\<le>j. ?before (array ! i))"
  proof (intro allI impI)
    fix j i
    assume "j < length array" "?before (array ! j)" "i \<le> j"
    then show "?before (array ! i)"
      using bef [of i] bef [of j] sorted_nth_mono [OF srt, of i j] by auto
  qed
  note lb = lower_bound_correct [where before = ?before, OF this, of 0 "length array", folded lo_def]
  have at: "(strncmp (array ! lo) key (length key) = 0 \<and> char_at (array ! lo) (length key) = SLASH) \<longleftrightarrow>
      (\<exists>t. array ! lo = key @ SLASH # t)" if "lo < length array"
    using strncmp_prefix [of "array ! lo" key] cs key that child_prefix_split [of key "array ! lo"] by simp
  have "(\<exists>t. array ! lo = key @ SLASH # t) \<and> lo < length array"
    if e: "e \<in> set array" "e = key @ SLASH # t" for e t
  proof -
    obtain j where j: "j < length array" "array ! j = e" using e(1) by (auto simp: in_set_conv_nth)
    have "?k \<le> e" using e(2) le_append [of ?k t] by simp
    then have "\<not> array ! j < ?k" using j by simp
    then have "lo \<le> j" using lb bef [OF j(1)] by (meson le0 leI order.refl)
    then have "array ! lo \<le> ?k @ t" "?k \<le> array ! lo"
      using sorted_nth_mono [OF srt, of lo j] j e(2) lb bef [of lo] by auto
    then have "take (length ?k) (array ! lo) = ?k" using prefix_interval by blast
    then have "array ! lo = ?k @ drop (length ?k) (array ! lo)" by (metis append_take_drop_id)
    then show ?thesis using \<open>lo \<le> j\<close> j(1) by (intro conjI exI) simp_all
  qed
  moreover have "str_sorted_array_has_child_prefix array key \<longleftrightarrow>
      lo < length array \<and> (\<exists>t. array ! lo = key @ SLASH # t)"
    using False at by (auto simp: str_sorted_array_has_child_prefix_def Let_def lo_def [symmetric] not_le)
  ultimately show ?thesis using False nth_mem [of lo array] by blast
qed

section \<open>The path index\<close>

lemma init_capacity_pow2: "\<exists>b'. init_capacity fuel (2 ^ b) hint = 2 ^ b'"
proof (induction fuel arbitrary: b)
  case (Suc fuel)
  show ?case using Suc.IH [of "Suc b"] by (auto simp: mult.commute)
qed auto

lemma hash_init_inv:
  assumes "str_hash_set_init mem hint = Some s"
  shows "hash_inv xxh s \<and> hash_keys s = {}"
proof -
  obtain b where "init_capacity 60 STR_HASH_SET_MIN_CAPACITY hint = 2 ^ b"
    using init_capacity_pow2 [of 60 4 hint] by (auto simp: STR_HASH_SET_MIN_CAPACITY_def)
  with assms have "s = \<lparr>slots = replicate (2 ^ b) None, hsize = 0\<rparr>"
    by (auto simp: str_hash_set_init_def Let_def split: if_splits)
  then show ?thesis
    unfolding hash_inv_roomy hash_keys_def using roomy_empty [of 0 b xxh] by simp
qed

lemma insert_all_correct:
  assumes "hash_inv xxh s"
  shows "insert_all mem xxh s ks \<noteq> None \<and> (\<forall>s'. insert_all mem xxh s ks = Some (Some s') \<longrightarrow>
    hash_inv xxh s' \<and> hash_keys s' = set ks \<union> hash_keys s)"
  by (rule hset.fold_ins) (simp_all add: assms)

lemma path_index_ends: "path_index_build mem xxh entries \<noteq> None"
proof (cases "str_hash_set_init mem (length entries)")
  case (Some s)
  then show ?thesis
    using insert_all_correct [of xxh s mem entries] hash_init_inv [OF Some, of xxh]
    by (auto simp: path_index_build_def split: option.splits)
qed (simp add: path_index_build_def)

lemma insert_all_succeeds:
  assumes "\<forall>n. mem n"
  shows "hash_inv xxh s \<Longrightarrow> \<exists>s'. insert_all mem xxh s ks = Some (Some s')"
proof (induction ks arbitrary: s)
  case (Cons k ks)
  obtain r where r: "str_hash_set_insert_ref mem xxh s k = Some r"
    using hset.ins_returns [OF Cons.prems] by blast
  have "r \<noteq> None"
    using r assms by (auto simp: str_hash_set_insert_ref_def str_hash_set_grow_def str_hash_set_resize_def
        split: option.splits prod.splits if_splits)
  then obtain s1 where s1: "r = Some s1" by blast
  with r hset.ins_keys [OF Cons.prems, of mem k s1] have "hash_inv xxh s1" by simp
  from Cons.IH [OF this] show ?case by (simp add: r s1)
qed simp

lemma path_index_returns:
  assumes "length entries \<le> SIZE_MAX div 8" and m: "\<forall>n. mem n"
  shows "\<exists>index. path_index_build mem xxh entries = Some (Some index)"
proof -
  obtain s where s: "str_hash_set_init mem (length entries) = Some s"
    using m by (auto simp: str_hash_set_init_def Let_def)
  obtain s' where "insert_all mem xxh s entries = Some (Some s')"
    using insert_all_succeeds [OF m] hash_init_inv [OF s] by blast
  moreover obtain arr where "str_sorted_array_build mem entries = Some arr"
    using assms by (cases "entries = []") (simp_all add: str_sorted_array_build_def)
  ultimately show ?thesis by (simp add: path_index_build_def s)
qed

lemma path_index_answers:
  assumes "path_index_build mem xxh entries = Some (Some index)"
  shows "path_index_contains xxh index path = Some (path \<in> set entries)"
    and "\<forall>e\<in>set entries. cstring e \<Longrightarrow> cstring path \<Longrightarrow> path_index_has_descendant index path \<longleftrightarrow>
      path \<noteq> [] \<and> (\<exists>e\<in>set entries. \<exists>t. e = path @ SLASH # t)"
proof -
  obtain s arr s' where s: "str_hash_set_init mem (length entries) = Some s"
    and arr: "str_sorted_array_build mem entries = Some arr"
    and s': "insert_all mem xxh s entries = Some (Some s')"
    and ix: "index = \<lparr>exact = s', sorted_paths = arr\<rparr>"
    using assms by (auto simp: path_index_build_def split: option.splits)
  have "hash_inv xxh s'" "hash_keys s' = set entries"
    using hash_init_inv [OF s, of xxh] insert_all_correct [of xxh s mem entries] s' by auto
  then show "path_index_contains xxh index path = Some (path \<in> set entries)"
    using hset.mem_keys [of xxh s' path] by (simp add: ix path_index_contains_def)
  have "sorted arr" "set arr = set entries"
    using arr by (auto simp: str_sorted_array_build_def split: if_splits)
  then show "\<forall>e\<in>set entries. cstring e \<Longrightarrow> cstring path \<Longrightarrow> path_index_has_descendant index path \<longleftrightarrow>
      path \<noteq> [] \<and> (\<exists>e\<in>set entries. \<exists>t. e = path @ SLASH # t)"
    using has_child_prefix_correct [of arr path] by (simp add: ix path_index_has_descendant_def)
qed

text \<open>C22: A path index answers for exactly the entries it was built from: the exact lookup finds a path
  if and only if it is an entry, and the descendant query holds if and only if some entry lies below
  the path, on any entries in any order, with duplicates.\<close>

theorem path_index_correct:
  assumes "path_index_build mem xxh entries = Some (Some index)"
    and "\<forall>e\<in>set entries. cstring e" and "cstring path"
  shows "path_index_contains xxh index path = Some (path \<in> set entries) \<and>
    (path_index_has_descendant index path \<longleftrightarrow>
      path \<noteq> [] \<and> (\<exists>e\<in>set entries. \<exists>t. e = path @ SLASH # t))"
  using path_index_answers [OF assms(1)] assms(2,3) by blast

theorem path_index_correct_witness:
  "\<exists>index. path_index_build (\<lambda>_. True) length [''b/c'', ''a'', ''b/d''] = Some (Some index) \<and>
    path_index_contains length index ''a'' = Some True \<and> path_index_contains length index ''b'' = Some False \<and>
    path_index_has_descendant index ''b'' \<and> \<not> path_index_has_descendant index ''a''"
proof -
  obtain index where b: "path_index_build (\<lambda>_. True) length [''b/c'', ''a'', ''b/d''] = Some (Some index)"
    using path_index_returns [of "[''b/c'', ''a'', ''b/d'']" "\<lambda>_. True" length] by (auto simp: SIZE_MAX_def)
  have cs: "\<forall>e\<in>set [''b/c'', ''a'', ''b/d'']. cstring e" "cstring ''a''" "cstring ''b''" by code_simp+
  show ?thesis
    using path_index_correct [OF b cs(1,2)] path_index_correct [OF b cs(1,3)] b by auto
qed

text \<open>C23: Building a path index ends: no probe loop runs for ever, and on entries whose count fits the
  allocation arithmetic only a refused allocation makes it fail.\<close>

theorem path_index_build_total:
  assumes "length entries \<le> SIZE_MAX div 8"
  shows "path_index_build mem xxh entries \<noteq> None \<and>
    ((\<forall>n. mem n) \<longrightarrow> (\<exists>index. path_index_build mem xxh entries = Some (Some index)))"
  using path_index_returns [OF assms] path_index_ends by blast

theorem path_index_build_total_witness:
  "\<exists>index. path_index_build (\<lambda>_. True) length [''b/c'', ''a'', ''b/d''] = Some (Some index)"
  using path_index_build_total [of "[''b/c'', ''a'', ''b/d'']" "\<lambda>_. True" length] by (simp add: SIZE_MAX_def)

text \<open>The binary search of a sorted array built from a list of paths agrees with the linear search of
  that list.\<close>

lemma sorted_contains_equiv:
  assumes "str_sorted_array_build mem items = Some array"
    and "\<forall>e\<in>set items. cstring e" and "cstring key"
  shows "str_sorted_array_contains array key \<longleftrightarrow> key \<in> set items"
proof -
  have "sorted array" and st: "set array = set items"
    using assms(1) by (auto simp: str_sorted_array_build_def split: if_splits)
  have "contains_loop array key 0 (length array) \<longleftrightarrow> key \<in> set array"
    using contains_loop_correct [OF \<open>sorted array\<close> _ assms(3) order.refl, of 0] assms(2) st
    unfolding in_set_conv_nth [of key array] by blast
  then show ?thesis using st by (auto simp: str_sorted_array_contains_def)
qed

end
