(* ===== verification/Glob.thy ===== *)
theory Glob
  imports Paths
begin

text \<open>
  The glob matcher of \<open>src/src/shared/utils.c\<close> (\<open>glob_match\<close>): a dynamic program over pattern and
  string positions that keeps four rotating rows and fills each one from its end. It is proved equal
  to the recursive matcher its comment says it replaces, including the case in which the row it reads
  four positions ahead occupies the very memory it is overwriting.
\<close>

section \<open>Definitions\<close>

abbreviation STAR :: char where
  "STAR \<equiv> CHR ''*''"

text \<open>\<open>GLOB_ROW(i)\<close>: the slot of pattern position \<open>i\<close> among the four rows.\<close>

definition glob_row :: "nat \<Rightarrow> nat \<Rightarrow> nat" where
  "glob_row pattern_len i = (pattern_len - i) mod 4"

text \<open>The value one iteration stores at \<open>cur[j]\<close>, read from the rows as they are at that moment.\<close>

definition glob_cell :: "string \<Rightarrow> string \<Rightarrow> nat \<Rightarrow> bool list list \<Rightarrow> nat \<Rightarrow> bool" where
  "glob_cell pattern str i rows j =
     (let pattern_len = length pattern; str_len = length str; pc = pattern ! i;
          row = (\<lambda>k. rows ! glob_row pattern_len k); cur = row i; nxt = row (i + 1)
      in if pc = STAR then
           (if i + 1 < pattern_len \<and> pattern ! (i + 1) = STAR then
              (let rest = i + 2;
                   rest = (if rest < pattern_len \<and> pattern ! rest = SLASH then rest + 1 else rest);
                   v = row rest ! j
               in if \<not> v \<and> j < str_len then cur ! (j + 1) else v)
            else
              (let v = nxt ! j in
               if \<not> v \<and> j < str_len \<and> str ! j \<noteq> SLASH then cur ! (j + 1) else v))
         else if pc = CHR ''?'' then j < str_len \<and> str ! j \<noteq> SLASH \<and> nxt ! (j + 1)
         else if j < str_len \<and> str ! j = pc then nxt ! (j + 1)
         else if pc = SLASH \<and> i + 2 < pattern_len \<and> pattern ! (i + 1) = STAR \<and>
                 pattern ! (i + 2) = STAR then
           (let rest = i + 3;
                rest = (if rest < pattern_len \<and> pattern ! rest = SLASH then rest + 1 else rest)
            in row rest ! j)
         else False)"

text \<open>\<open>for (j = str_len + 1; j-- > 0;) cur[j] = v\<close>, the rows updated in place.\<close>

primrec glob_fill :: "(bool list list \<Rightarrow> nat \<Rightarrow> bool) \<Rightarrow> nat \<Rightarrow> nat \<Rightarrow> bool list list \<Rightarrow> bool list list" where
  "glob_fill cell k 0 rows = rows"
| "glob_fill cell k (Suc j) rows = glob_fill cell k j (rows[k := (rows ! k)[j := cell rows j]])"

text \<open>\<open>for (i = pattern_len; i-- > 0;)\<close>.\<close>

primrec glob_rows :: "string \<Rightarrow> string \<Rightarrow> nat \<Rightarrow> bool list list \<Rightarrow> bool list list" where
  "glob_rows pattern str 0 rows = rows"
| "glob_rows pattern str (Suc i) rows =
     glob_rows pattern str i
       (glob_fill (glob_cell pattern str i) (glob_row (length pattern) i) (length str + 1) rows)"

text \<open>The rows before the base row is written are not initialised; the model takes them as zeros.\<close>

definition glob_init :: "string \<Rightarrow> string \<Rightarrow> bool list list" where
  "glob_init pattern str =
     (replicate 4 (replicate (length str + 1) False))
       [glob_row (length pattern) (length pattern) := map (\<lambda>j. j = length str) [0..<length str + 1]]"

definition glob_match :: "allocator \<Rightarrow> string \<Rightarrow> string \<Rightarrow> bool" where
  "glob_match mem pattern str =
     (let pattern_len = length pattern; str_len = length str in
      if pattern_len = 0 then str_len = 0
      else if SIZE_MAX div (pattern_len + 1) - 1 < str_len then False
      else if 64 * 1024 * 1024 < (pattern_len + 1) * (str_len + 1) then False
      else if 257 < str_len + 1 \<and> \<not> mem (4 * (str_len + 1)) then False
      else glob_rows pattern str pattern_len (glob_init pattern str) ! glob_row pattern_len 0 ! 0)"

section \<open>The recursive matcher\<close>

definition skip_slash :: "string \<Rightarrow> string" where
  "skip_slash p = (case p of [] \<Rightarrow> [] | c # cs \<Rightarrow> if c = SLASH then cs else p)"

lemma length_skip_slash: "length (skip_slash p) \<le> length p"
  by (cases p) (auto simp: skip_slash_def)

function glob_ref :: "string \<Rightarrow> string \<Rightarrow> bool" where
  "glob_ref [] s \<longleftrightarrow> s = []"
| "glob_ref (p # ps) s \<longleftrightarrow>
     (if p = STAR then
        (if ps \<noteq> [] \<and> hd ps = STAR then
           glob_ref (skip_slash (tl ps)) s \<or> (if s = [] then False else glob_ref (p # ps) (tl s))
         else glob_ref ps s \<or> (if s = [] \<or> hd s = SLASH then False else glob_ref (p # ps) (tl s)))
      else if p = CHR ''?'' then (if s = [] \<or> hd s = SLASH then False else glob_ref ps (tl s))
      else if s \<noteq> [] \<and> hd s = p then glob_ref ps (tl s)
      else if p = SLASH \<and> take 2 ps = [STAR, STAR] then glob_ref (skip_slash (drop 2 ps)) s
      else False)"
  by pat_completeness auto

termination
proof (relation "measure (\<lambda>(p, s). length p + length s)")
  fix p ps s
  show "((skip_slash (tl ps), s), p # ps, s) \<in> measure (\<lambda>(p, s). length p + length s)"
    using length_skip_slash [of "tl ps"] by simp
  show "((skip_slash (drop 2 ps), s), p # ps, s) \<in> measure (\<lambda>(p, s). length p + length s)"
    using length_skip_slash [of "drop 2 ps"] by simp
qed auto

declare glob_ref.simps(2) [simp del]

section \<open>Equivalence\<close>

text \<open>The value of a state: what is left of the pattern against what is left of the string.\<close>

definition glob_at :: "string \<Rightarrow> string \<Rightarrow> nat \<Rightarrow> nat \<Rightarrow> bool" where
  "glob_at pattern str i j = glob_ref (drop i pattern) (drop j str)"

definition rest_of :: "string \<Rightarrow> nat \<Rightarrow> nat" where
  "rest_of pattern k = (if k < length pattern \<and> pattern ! k = SLASH then k + 1 else k)"

lemma skip_slash_drop: "skip_slash (drop k pattern) = drop (rest_of pattern k) pattern"
proof (cases "k < length pattern")
  case True
  then show ?thesis
    by (simp add: Cons_nth_drop_Suc [symmetric] skip_slash_def rest_of_def)
qed (simp add: skip_slash_def rest_of_def)

lemma rest_of_bounds: "k \<le> length pattern \<Longrightarrow> k \<le> rest_of pattern k \<and> rest_of pattern k \<le> length pattern \<and>
    rest_of pattern k \<le> k + 1"
  by (simp add: rest_of_def)

lemma glob_at_end: "j \<le> length str \<Longrightarrow> glob_at pattern str (length pattern) j \<longleftrightarrow> j = length str"
  by (auto simp: glob_at_def)

text \<open>The recurrence over positions.\<close>

lemma glob_at_step:
  assumes i: "i < length pattern" and j: "j \<le> length str"
  shows "glob_at pattern str i j \<longleftrightarrow>
    (if pattern ! i = STAR then
       (if i + 1 < length pattern \<and> pattern ! (i + 1) = STAR then
          glob_at pattern str (rest_of pattern (i + 2)) j \<or>
            (j < length str \<and> glob_at pattern str i (j + 1))
        else glob_at pattern str (i + 1) j \<or>
            (j < length str \<and> str ! j \<noteq> SLASH \<and> glob_at pattern str i (j + 1)))
     else if pattern ! i = CHR ''?'' then
       j < length str \<and> str ! j \<noteq> SLASH \<and> glob_at pattern str (i + 1) (j + 1)
     else if j < length str \<and> str ! j = pattern ! i then glob_at pattern str (i + 1) (j + 1)
     else if pattern ! i = SLASH \<and> i + 2 < length pattern \<and> pattern ! (i + 1) = STAR \<and>
             pattern ! (i + 2) = STAR then glob_at pattern str (rest_of pattern (i + 3)) j
     else False)"
proof -
  have p: "drop i pattern = pattern ! i # drop (i + 1) pattern"
    using i by (simp add: Cons_nth_drop_Suc)
  have s: "drop j str = [] \<longleftrightarrow> \<not> j < length str" "j < length str \<Longrightarrow> hd (drop j str) = str ! j"
    "tl (drop j str) = drop (j + 1) str"
    using j by (auto simp: hd_drop_conv_nth tl_drop drop_Suc)
  have n: "drop (i + 1) pattern \<noteq> [] \<and> hd (drop (i + 1) pattern) = STAR \<longleftrightarrow>
      i + 1 < length pattern \<and> pattern ! (i + 1) = STAR"
    by (auto simp: hd_drop_conv_nth)
  have t: "take 2 (drop (i + 1) pattern) = [STAR, STAR] \<longleftrightarrow>
      i + 2 < length pattern \<and> pattern ! (i + 1) = STAR \<and> pattern ! (i + 2) = STAR"
  proof (cases "i + 2 < length pattern")
    case True
    then have "drop (i + 1) pattern = pattern ! (i + 1) # pattern ! (i + 2) # drop (i + 3) pattern"
      by (simp add: Cons_nth_drop_Suc numeral_eq_Suc)
    with True show ?thesis by simp
  next
    case False
    then have "length (take 2 (drop (i + 1) pattern)) \<noteq> length [STAR, STAR]" by simp
    with False show ?thesis by metis
  qed
  have r: "skip_slash (tl (drop (i + 1) pattern)) = drop (rest_of pattern (i + 2)) pattern"
    "skip_slash (drop 2 (drop (i + 1) pattern)) = drop (rest_of pattern (i + 3)) pattern"
    by (simp_all add: skip_slash_drop [symmetric] tl_drop drop_Suc [symmetric] numeral_eq_Suc)
  note eq = glob_ref.simps(2) [of "pattern ! i" "drop (i + 1) pattern" "drop j str",
      folded p, unfolded n t r s(3)]
  show ?thesis unfolding glob_at_def eq using s(1,2) by simp
qed

text \<open>The rows hold the values of the positions \<open>i\<close> to \<open>i + 3\<close>.\<close>

definition rows_sized :: "string \<Rightarrow> bool list list \<Rightarrow> bool" where
  "rows_sized str rows \<longleftrightarrow> length rows = 4 \<and> (\<forall>k<4. length (rows ! k) = length str + 1)"

definition row_holds :: "string \<Rightarrow> string \<Rightarrow> bool list list \<Rightarrow> nat \<Rightarrow> nat \<Rightarrow> bool" where
  "row_holds pattern str rows i j \<longleftrightarrow>
     rows ! glob_row (length pattern) i ! j = glob_at pattern str i j"

definition rows_ok :: "string \<Rightarrow> string \<Rightarrow> nat \<Rightarrow> bool list list \<Rightarrow> bool" where
  "rows_ok pattern str i rows \<longleftrightarrow> rows_sized str rows \<and>
     (\<forall>k j. i \<le> k \<and> k < i + 4 \<and> k \<le> length pattern \<and> j \<le> length str \<longrightarrow>
        row_holds pattern str rows k j)"

text \<open>While row \<open>i\<close> is being filled: its cells from \<open>n\<close> on are new, those before are still those of
  row \<open>i + 4\<close>.\<close>

definition fill_ok :: "string \<Rightarrow> string \<Rightarrow> nat \<Rightarrow> nat \<Rightarrow> bool list list \<Rightarrow> bool" where
  "fill_ok pattern str i n rows \<longleftrightarrow> rows_sized str rows \<and>
     (\<forall>k j. i < k \<and> k < i + 4 \<and> k \<le> length pattern \<and> j \<le> length str \<longrightarrow>
        row_holds pattern str rows k j) \<and>
     (\<forall>j. n \<le> j \<and> j \<le> length str \<longrightarrow> row_holds pattern str rows i j) \<and>
     (\<forall>j<n. i + 4 \<le> length pattern \<longrightarrow> row_holds pattern str rows (i + 4) j)"

lemma glob_row_less: "glob_row n i < 4"
  by (simp add: glob_row_def)

lemma glob_row_eq:
  assumes "k \<le> n" and "i < k" and "k < i + 4"
  shows "glob_row n i \<noteq> glob_row n k"
proof -
  have e: "n - i = (n - k) + (k - i)" and d: "k - i < 4" "k - i \<noteq> 0" using assms by auto
  have "((n - k) + (k - i)) mod 4 \<noteq> ((n - k) + 0) mod 4"
    using ring_inj [OF d(1), of 0 "n - k"] d(2) by (metis zero_less_numeral)
  then show ?thesis unfolding glob_row_def e by simp
qed

lemma glob_row_wrap:
  assumes "i + 4 \<le> n"
  shows "glob_row n (i + 4) = glob_row n i"
proof -
  have e: "n - i = (n - (i + 4)) + 4" using assms by simp
  show ?thesis unfolding glob_row_def e by (rule mod_add_self2 [symmetric])
qed

lemma glob_cell_correct:
  assumes ok: "fill_ok pattern str i (Suc j) rows" and i: "i < length pattern" and j: "j \<le> length str"
  shows "glob_cell pattern str i rows j = glob_at pattern str i j"
proof -
  let ?n = "length pattern"
  let ?row = "\<lambda>k. rows ! glob_row ?n k"
  have nxt: "?row (i + 1) ! j' = glob_at pattern str (i + 1) j'" if "j' \<le> length str" for j'
    using ok i that by (simp add: fill_ok_def row_holds_def)
  have cur: "?row i ! (j + 1) = glob_at pattern str i (j + 1)" if "j < length str"
    using ok that by (simp add: fill_ok_def row_holds_def)
  have ahead: "?row k ! j = glob_at pattern str k j" if "i < k" "k \<le> i + 4" "k \<le> ?n" for k
  proof (cases "k = i + 4")
    case True
    with ok that show ?thesis by (simp add: fill_ok_def row_holds_def)
  next
    case False
    with ok that j show ?thesis by (simp add: fill_ok_def row_holds_def)
  qed
  have rest: "?row (rest_of pattern k) ! j = glob_at pattern str (rest_of pattern k) j"
    if "k = i + 2 \<or> k = i + 3" "k \<le> ?n" for k
    using rest_of_bounds [OF that(2)] that(1) by (intro ahead) auto
  show ?thesis
    unfolding glob_cell_def glob_at_step [OF i j] Let_def rest_of_def [symmetric]
    using i nxt [OF j] nxt [of "j + 1"] cur rest [of "i + 2"] rest [of "i + 3"] by simp
qed

lemma rows_sized_update:
  "rows_sized str rows \<Longrightarrow> k < 4 \<Longrightarrow> rows_sized str (rows[k := (rows ! k)[j := v]])"
  by (auto simp: rows_sized_def nth_list_update)

lemma glob_fill_step:
  assumes ok: "fill_ok pattern str i (Suc j) rows" and i: "i < length pattern" and j: "j \<le> length str"
  shows "fill_ok pattern str i j (rows[glob_row (length pattern) i :=
    (rows ! glob_row (length pattern) i)[j := glob_cell pattern str i rows j]])"
    (is "fill_ok _ _ _ _ ?rows")
proof -
  let ?n = "length pattern"
  let ?k = "glob_row ?n i"
  have sz: "rows_sized str rows" using ok by (simp add: fill_ok_def)
  have len: "?k < length rows" "length (rows ! ?k) = length str + 1"
    using sz glob_row_less [of ?n i] by (simp_all add: rows_sized_def)
  have other: "?rows ! glob_row ?n m = rows ! glob_row ?n m" if "i < m" "m < i + 4" "m \<le> ?n" for m
    using glob_row_eq [OF that(3,1,2)] by (simp add: nth_list_update_neq)
  have cur: "?rows ! ?k ! j' = (if j' = j then glob_at pattern str i j else rows ! ?k ! j')" for j'
    using len j glob_cell_correct [OF assms] by (simp add: nth_list_update)
  show ?thesis unfolding fill_ok_def
  proof (intro conjI allI impI)
    show "rows_sized str ?rows" using sz glob_row_less by (rule rows_sized_update)
    fix m j'
    assume "i < m \<and> m < i + 4 \<and> m \<le> ?n \<and> j' \<le> length str"
    then show "row_holds pattern str ?rows m j'"
      using ok other [of m] by (simp add: fill_ok_def row_holds_def)
  next
    fix j'
    assume a: "j \<le> j' \<and> j' \<le> length str"
    show "row_holds pattern str ?rows i j'"
    proof (cases "j' = j")
      case True
      then show ?thesis unfolding row_holds_def cur by simp
    next
      case False
      then have "Suc j \<le> j'" using a by simp
      then show ?thesis using ok a False unfolding row_holds_def cur by (simp add: fill_ok_def row_holds_def)
    qed
  next
    fix j'
    assume a: "j' < j" "i + 4 \<le> ?n"
    then have "row_holds pattern str rows (i + 4) j'" using ok by (simp add: fill_ok_def)
    then show "row_holds pattern str ?rows (i + 4) j'"
      using a unfolding row_holds_def glob_row_wrap [OF a(2)] cur by simp
  qed
qed

lemma glob_fill_ok:
  "fill_ok pattern str i n rows \<Longrightarrow> i < length pattern \<Longrightarrow> n \<le> length str + 1 \<Longrightarrow>
   fill_ok pattern str i 0 (glob_fill (glob_cell pattern str i) (glob_row (length pattern) i) n rows)"
proof (induction n arbitrary: rows)
  case (Suc n)
  then show ?case using glob_fill_step [OF Suc.prems(1,2)] by simp
qed simp

lemma rows_fill: "rows_ok pattern str (Suc i) rows \<Longrightarrow> fill_ok pattern str i (length str + 1) rows"
  by (auto simp: rows_ok_def fill_ok_def)

lemma fill_rows: "fill_ok pattern str i 0 rows \<Longrightarrow> rows_ok pattern str i rows"
  by (auto simp: rows_ok_def fill_ok_def le_eq_less_or_eq)

lemma glob_rows_ok:
  "rows_ok pattern str i rows \<Longrightarrow> i \<le> length pattern \<Longrightarrow> rows_ok pattern str 0 (glob_rows pattern str i rows)"
proof (induction i arbitrary: rows)
  case (Suc i)
  have "rows_ok pattern str i
      (glob_fill (glob_cell pattern str i) (glob_row (length pattern) i) (length str + 1) rows)"
    using fill_rows [OF glob_fill_ok [OF rows_fill [OF Suc.prems(1)]]] Suc.prems(2) by simp
  with Suc show ?case by simp
qed simp

lemma glob_init_ok: "rows_ok pattern str (length pattern) (glob_init pattern str)"
proof -
  have "rows_sized str (glob_init pattern str)"
    by (auto simp: rows_sized_def glob_init_def glob_row_def nth_list_update)
  moreover have "row_holds pattern str (glob_init pattern str) (length pattern) j" if "j \<le> length str" for j
    using that by (simp add: row_holds_def glob_init_def glob_row_def glob_at_end nth_append)
  ultimately show ?thesis by (auto simp: rows_ok_def dest: antisym)
qed

lemma glob_dp_correct:
  "glob_rows pattern str (length pattern) (glob_init pattern str) ! glob_row (length pattern) 0 ! 0 =
   glob_ref pattern str"
  using glob_rows_ok [OF glob_init_ok order_refl, of pattern str]
  by (simp add: rows_ok_def row_holds_def glob_at_def)

lemma glob_match_in_cap:
  assumes "(length pattern + 1) * (length str + 1) \<le> 64 * 1024 * 1024"
    and "length str + 1 \<le> 257 \<or> mem (4 * (length str + 1))"
  shows "glob_match mem pattern str = glob_ref pattern str"
proof (cases "pattern = []")
  case False
  have "length str + 1 \<le> 64 * 1024 * 1024 div (length pattern + 1)"
    using assms(1) by (simp add: less_eq_div_iff_mult_less_eq ac_simps del: mult_Suc mult_Suc_right)
  also have "\<dots> \<le> SIZE_MAX div (length pattern + 1)" by (rule div_le_mono) (simp add: SIZE_MAX_def)
  finally have "\<not> SIZE_MAX div (length pattern + 1) - 1 < length str" by simp
  then show ?thesis using False assms unfolding glob_match_def Let_def glob_dp_correct by auto
qed (simp add: glob_match_def)

section \<open>Properties\<close>

text \<open>C21: The glob matcher decides exactly what the backtracking recursion it replaced decides. Within
  the work cap of 64 Mi states, and with the memory for long rows granted, the dynamic program over
  four rotating rows returns the value of the recursive matcher on every pattern and string.\<close>

theorem glob_match_correct:
  assumes "(length pattern + 1) * (length str + 1) \<le> 64 * 1024 * 1024"
    and "length str + 1 \<le> 257 \<or> mem (4 * (length str + 1))"
  shows "glob_match mem pattern str = glob_ref pattern str"
  using assms by (rule glob_match_in_cap)

theorem glob_match_correct_witness:
  "glob_match (\<lambda>_. False) ''a/**/b?*'' ''a/x/y/bcd'' \<and> glob_match (\<lambda>_. False) ''a/**/b?*'' ''a/bc'' \<and>
   \<not> glob_match (\<lambda>_. False) ''a/*'' ''a/x/y''"
proof -
  have r: "glob_ref ''a/**/b?*'' ''a/x/y/bcd''" "glob_ref ''a/**/b?*'' ''a/bc''"
    "\<not> glob_ref ''a/*'' ''a/x/y''"
    by code_simp+
  have "glob_match (\<lambda>_. False) ''a/**/b?*'' ''a/x/y/bcd''"
    by (subst glob_match_correct) (simp_all add: r)
  moreover have "glob_match (\<lambda>_. False) ''a/**/b?*'' ''a/bc''"
    by (subst glob_match_correct) (simp_all add: r)
  moreover have "\<not> glob_match (\<lambda>_. False) ''a/*'' ''a/x/y''"
    by (subst glob_match_correct) (simp_all add: r)
  ultimately show ?thesis by blast
qed

lemma glob_ref_star: "glob_ref [STAR] s \<longleftrightarrow> SLASH \<notin> set s"
proof (induction s)
  case Nil
  show ?case by (subst glob_ref.simps(2)) simp
next
  case (Cons c s)
  show ?case by (subst glob_ref.simps(2)) (auto simp: Cons)
qed

lemma glob_ref_globstar: "glob_ref [STAR, STAR] s"
proof (induction s)
  case Nil
  show ?case by (subst glob_ref.simps(2)) (simp add: skip_slash_def)
next
  case (Cons c s)
  show ?case by (subst glob_ref.simps(2)) (simp add: Cons)
qed

lemma glob_ref_literal:
  "set p \<inter> {STAR, CHR ''?'', SLASH} = {} \<Longrightarrow> glob_ref p s \<longleftrightarrow> s = p"
proof (induction p arbitrary: s)
  case (Cons c p)
  then show ?case by (subst glob_ref.simps(2)) (cases s; auto)
qed simp

text \<open>A single star stays within one path component and a double star does not: within the work
  cap, \<open>*\<close> matches exactly the strings without a slash, \<open>**\<close> matches every string, and a pattern
  without wildcards and slashes matches only itself.\<close>

lemma glob_wildcards:
  assumes "(length p + 3) * (length s + 1) \<le> 64 * 1024 * 1024" and "mem (4 * (length s + 1))"
    and "set p \<inter> {STAR, CHR ''?'', SLASH} = {}"
  shows "(glob_match mem [STAR] s \<longleftrightarrow> SLASH \<notin> set s) \<and> glob_match mem [STAR, STAR] s \<and>
    (glob_match mem p s \<longleftrightarrow> s = p)"
proof -
  have cap: "glob_match mem q s = glob_ref q s" if "length q \<le> length p + 2" for q
  proof -
    have "(length q + 1) * (length s + 1) \<le> (length p + 3) * (length s + 1)"
      using that by (intro mult_le_mono1) simp
    then have "(length q + 1) * (length s + 1) \<le> 64 * 1024 * 1024" using assms(1) by linarith
    then show ?thesis using assms(2) by (simp add: glob_match_in_cap)
  qed
  show ?thesis
    using cap [of "[STAR]"] cap [of "[STAR, STAR]"] cap [of p] glob_ref_literal [OF assms(3)]
    by (simp add: glob_ref_star glob_ref_globstar)
qed

end
