(* ===== verification/Filter_Rules.thy ===== *)
theory Filter_Rules
  imports Glob
begin

text \<open>
  The filter-rule engine of \<open>src/src/shared/filter.c\<close>: parsing of rule lines and their modifiers, rule
  lists with merge files nested to a bounded depth, per-directory merge files, and matching. A file
  system is the parameter \<open>fopen\<close>, from paths to contents. Diagnostics are the constructors of
  \<open>filter_error\<close>; an operation that can fail half way returns the list it leaves behind as well.
\<close>

section \<open>Definitions\<close>

datatype filter_action =
    FILTER_ACTION_NONE | FILTER_ACTION_EXCLUDE | FILTER_ACTION_INCLUDE | FILTER_ACTION_PROTECT
  | FILTER_ACTION_RISK

abbreviation FILTER_SIDE_SENDER :: u32 where
  "FILTER_SIDE_SENDER \<equiv> 1"

abbreviation FILTER_SIDE_RECEIVER :: u32 where
  "FILTER_SIDE_RECEIVER \<equiv> 2"

record filter_rule =
  action :: filter_action
  sides :: u32
  anchored :: bool
  dir_only :: bool
  negate :: bool
  perishable :: bool
  owner :: "string option"
  pattern :: "string option"

text \<open>\<open>count\<close> and \<open>dir_merge_count\<close> are the lengths of the two lists.\<close>

record filter_rule_list =
  items :: "filter_rule list"
  rule_capacity :: nat
  dir_merge_names :: "string list"
  dir_merge_capacity :: nat

record filter_parse_options =
  delete_excluded :: bool
  cvs_exclude :: bool

datatype filter_error =
    Silent | EmptyRule | UnsupportedModifier char | UnrecognizedSyntax | CModifier | XattrRule
  | MergeRule | ClearPattern | NoMemory | NoPattern | NoPatternAfterAnchor | MergeNoName
  | MergeUnreadable | MergeReadError | TooDeep | DirMergeNoName | LineTooLong | ReadError

text \<open>The sizes of \<open>FilterRule\<close> and of a \<open>FilterRuleList\<close>, as allocated.\<close>

abbreviation RULE_BYTES :: nat where
  "RULE_BYTES \<equiv> 32"

abbreviation LIST_BYTES :: nat where
  "LIST_BYTES \<equiv> 32"

abbreviation INT_MAX :: nat where
  "INT_MAX \<equiv> 2147483647"

subsection \<open>Ordered rule lists\<close>

definition filter_rule_list_create :: "allocator \<Rightarrow> filter_rule_list option" where
  "filter_rule_list_create mem =
     (if mem LIST_BYTES
      then Some \<lparr>items = [], rule_capacity = 0, dir_merge_names = [], dir_merge_capacity = 0\<rparr>
      else None)"

definition filter_rule_list_add :: "allocator \<Rightarrow> filter_rule_list \<Rightarrow> filter_rule \<Rightarrow> bool \<times> filter_rule_list" where
  "filter_rule_list_add mem l rule =
     (if length (items l) = rule_capacity l then
        if INT_MAX div 2 < rule_capacity l then (False, l)
        else let new_cap = (if 0 < rule_capacity l then rule_capacity l * 2 else 8) in
          if \<not> mem (new_cap * 8) then (False, l)
          else (True, l\<lparr>items := items l @ [rule], rule_capacity := new_cap\<rparr>)
      else (True, l\<lparr>items := items l @ [rule]\<rparr>))"

definition filter_rule_list_add_dir_merge ::
  "allocator \<Rightarrow> filter_rule_list \<Rightarrow> string \<Rightarrow> bool \<times> filter_rule_list" where
  "filter_rule_list_add_dir_merge mem l name =
     (if name = [] then (False, l)
      else if name \<in> set (dir_merge_names l) then (True, l)
      else let full = (length (dir_merge_names l) = dir_merge_capacity l);
               new_cap = (if 0 < dir_merge_capacity l then dir_merge_capacity l * 2 else 4);
               l' = (if full then l\<lparr>dir_merge_capacity := new_cap\<rparr> else l)
        in if full \<and> \<not> mem (new_cap * 8) then (False, l)
           else (case str_dup mem name of
                   None \<Rightarrow> (False, l')
                 | Some copy \<Rightarrow> (True, l'\<lparr>dir_merge_names := dir_merge_names l' @ [copy]\<rparr>)))"

definition set_rule_owner :: "allocator \<Rightarrow> filter_rule \<Rightarrow> string option \<Rightarrow> filter_rule option" where
  "set_rule_owner mem rule own =
     (case str_dup mem (case own of None \<Rightarrow> [] | Some s \<Rightarrow> s) of
        None \<Rightarrow> None
      | Some copy \<Rightarrow> Some (rule\<lparr>owner := Some copy\<rparr>))"

subsection \<open>Rule parsing\<close>

datatype rule_kind =
    RULE_KIND_EXCLUDE | RULE_KIND_INCLUDE | RULE_KIND_HIDE | RULE_KIND_SHOW | RULE_KIND_PROTECT
  | RULE_KIND_RISK | RULE_KIND_MERGE | RULE_KIND_DIR_MERGE | RULE_KIND_CLEAR | RULE_KIND_UNKNOWN

definition short_rule_char :: "char \<Rightarrow> rule_kind option" where
  "short_rule_char c =
     (if c = CHR ''-'' then Some RULE_KIND_EXCLUDE
      else if c = CHR ''+'' then Some RULE_KIND_INCLUDE
      else if c = CHR ''H'' then Some RULE_KIND_HIDE
      else if c = CHR ''S'' then Some RULE_KIND_SHOW
      else if c = CHR ''P'' then Some RULE_KIND_PROTECT
      else if c = CHR ''R'' then Some RULE_KIND_RISK
      else if c = CHR ''.'' then Some RULE_KIND_MERGE
      else if c = CHR '':'' then Some RULE_KIND_DIR_MERGE
      else if c = CHR ''!'' then Some RULE_KIND_CLEAR
      else None)"

definition long_rule_name :: "string \<Rightarrow> rule_kind option" where
  "long_rule_name name = map_of
     [(''exclude'', RULE_KIND_EXCLUDE), (''include'', RULE_KIND_INCLUDE), (''hide'', RULE_KIND_HIDE),
      (''show'', RULE_KIND_SHOW), (''protect'', RULE_KIND_PROTECT), (''risk'', RULE_KIND_RISK),
      (''merge'', RULE_KIND_MERGE), (''dir-merge'', RULE_KIND_DIR_MERGE),
      (''clear'', RULE_KIND_CLEAR)] name"

definition is_modifier_char :: "char \<Rightarrow> bool" where
  "is_modifier_char c \<longleftrightarrow> c \<in> {CHR ''s'', CHR ''r'', CHR ''p'', CHR ''x'', SLASH, CHR ''!'', CHR ''C''}"

definition is_merge_rule :: "rule_kind \<Rightarrow> bool" where
  "is_merge_rule k \<longleftrightarrow> k = RULE_KIND_MERGE \<or> k = RULE_KIND_DIR_MERGE"

definition is_unsupported_modifier_char :: "char \<Rightarrow> bool" where
  "is_unsupported_modifier_char c \<longleftrightarrow> c \<in> {CHR ''e'', CHR ''n'', CHR ''w''}"

definition is_merge_modifier_char :: "char \<Rightarrow> bool" where
  "is_merge_modifier_char c \<longleftrightarrow> c \<in> {CHR ''e'', CHR ''n'', CHR ''w'', CHR ''-''}"

definition is_modifier_scan_char :: "char \<Rightarrow> rule_kind \<Rightarrow> bool" where
  "is_modifier_scan_char c k \<longleftrightarrow> is_modifier_char c \<or> is_unsupported_modifier_char c \<or>
     (is_merge_rule k \<and> is_merge_modifier_char c)"

definition is_consumed_modifier_char :: "char \<Rightarrow> rule_kind \<Rightarrow> bool" where
  "is_consumed_modifier_char c k \<longleftrightarrow> is_modifier_char c \<or> (is_merge_rule k \<and> is_merge_modifier_char c)"

definition is_sep :: "char \<Rightarrow> bool" where
  "is_sep c \<longleftrightarrow> c = CHR '' '' \<or> c = CHR ''_''"

definition at_token_end :: "string \<Rightarrow> bool" where
  "at_token_end p \<longleftrightarrow> p = [] \<or> is_sep (hd p)"

fun unsupported_scan :: "rule_kind \<Rightarrow> char \<Rightarrow> string \<Rightarrow> char" where
  "unsupported_scan k bad [] = bad"
| "unsupported_scan k bad (c # cs) =
     (if is_sep c then bad
      else if \<not> is_modifier_scan_char c k then NUL
      else unsupported_scan k (if \<not> is_merge_rule k \<and> is_unsupported_modifier_char c then c else bad) cs)"

definition unsupported_modifier_in_token :: "string \<Rightarrow> rule_kind \<Rightarrow> char" where
  "unsupported_modifier_in_token tok k = (if at_token_end tok then NUL else unsupported_scan k NUL tok)"

record rule_syntax =
  stx_kind :: rule_kind
  stx_sides :: u32
  stx_sides_explicit :: bool
  stx_negate :: bool
  stx_anchored_mod :: bool
  stx_perishable :: bool
  stx_xattr :: bool
  stx_cvs_inject :: bool
  stx_pat :: string
  stx_pat_len :: nat

definition isalpha :: "char \<Rightarrow> bool" where
  "isalpha c \<longleftrightarrow> (let n = (of_char c :: nat) in (65 \<le> n \<and> n \<le> 90) \<or> (97 \<le> n \<and> n \<le> 122))"

text \<open>The rule name at the front of a rule: its kind, whether it is the short form, and what follows.\<close>

definition rule_name :: "string \<Rightarrow> (rule_kind \<times> bool \<times> string) option" where
  "rule_name text =
     (case short_rule_char (char_at text 0) of
        Some k \<Rightarrow> Some (k, True, tl text)
      | None \<Rightarrow>
          let name = takeWhile (\<lambda>c. isalpha c \<or> c = CHR ''-'') text;
              p = drop (length name) text
          in if name = [] then None
             else (case long_rule_name name of
                     None \<Rightarrow> None
                   | Some k \<Rightarrow> if at_token_end p \<or> hd p = CHR '','' then Some (k, False, p) else None))"

text \<open>The modifier run and what follows it.\<close>

definition modifier_run :: "rule_kind \<Rightarrow> bool \<Rightarrow> string \<Rightarrow> string \<times> string" where
  "modifier_run k is_short p =
     (let consumed = (\<lambda>c. is_consumed_modifier_char c k) in
      if char_at p 0 = CHR '','' then (takeWhile consumed (tl p), dropWhile consumed (tl p))
      else if is_short \<and> at_token_end (dropWhile consumed p) then (takeWhile consumed p, dropWhile consumed p)
      else ([], p))"

definition apply_modifier :: "char \<Rightarrow> rule_syntax \<Rightarrow> rule_syntax" where
  "apply_modifier m s =
     (if m = CHR ''s'' then s\<lparr>stx_sides := FILTER_SIDE_SENDER, stx_sides_explicit := True\<rparr>
      else if m = CHR ''r'' then s\<lparr>stx_sides := FILTER_SIDE_RECEIVER, stx_sides_explicit := True\<rparr>
      else if m = CHR ''!'' then s\<lparr>stx_negate := True\<rparr>
      else if m = SLASH then s\<lparr>stx_anchored_mod := True\<rparr>
      else if m = CHR ''p'' then s\<lparr>stx_perishable := True\<rparr>
      else if m = CHR ''x'' then s\<lparr>stx_xattr := True\<rparr>
      else if m = CHR ''C'' then s\<lparr>stx_cvs_inject := True\<rparr>
      else s)"

definition is_eol :: "char \<Rightarrow> bool" where
  "is_eol c \<longleftrightarrow> c = CHR 0x0A \<or> c = CHR 0x0D"

definition is_blank :: "char \<Rightarrow> bool" where
  "is_blank c \<longleftrightarrow> c = CHR '' '' \<or> c = CHR 0x09"

text \<open>The length of a string without its trailing newlines and carriage returns.\<close>

definition trimmed_len :: "string \<Rightarrow> nat" where
  "trimmed_len s = length (dropWhile is_eol (rev s))"

text \<open>\<open>Inl\<close> carries \<open>bad_mod\<close>: NUL for a plain syntax error.\<close>

definition parse_rule_syntax :: "string \<Rightarrow> char + rule_syntax" where
  "parse_rule_syntax text =
     (case rule_name text of
        None \<Rightarrow> Inl NUL
      | Some (k, is_short, p) \<Rightarrow>
          let bad_mod = (if char_at p 0 = CHR '','' then unsupported_modifier_in_token (tl p) k
                         else if is_short then unsupported_modifier_in_token p k else NUL)
          in if bad_mod \<noteq> NUL then Inl bad_mod
             else let (mods, p') = modifier_run k is_short p;
                      pat = (if p' \<noteq> [] \<and> is_sep (hd p') then tl p' else p')
                  in Inr (fold apply_modifier mods
                       \<lparr>stx_kind = k, stx_sides = FILTER_SIDE_SENDER OR FILTER_SIDE_RECEIVER,
                        stx_sides_explicit = False, stx_negate = False, stx_anchored_mod = False,
                        stx_perishable = False, stx_xattr = False, stx_cvs_inject = False,
                        stx_pat = pat, stx_pat_len = trimmed_len pat\<rparr>))"

definition blank_line :: "string \<Rightarrow> bool" where
  "blank_line p \<longleftrightarrow> p = [] \<or> is_eol (hd p)"

definition rule_action :: "rule_kind \<Rightarrow> filter_action" where
  "rule_action k = (if k \<in> {RULE_KIND_INCLUDE, RULE_KIND_SHOW, RULE_KIND_RISK} then FILTER_ACTION_INCLUDE
     else FILTER_ACTION_EXCLUDE)"

text \<open>The sides a rule applies to, after its kind and \<open>--delete-excluded\<close>.\<close>

definition rule_sides :: "filter_parse_options option \<Rightarrow> rule_syntax \<Rightarrow> u32" where
  "rule_sides opts s =
     (let k = stx_kind s;
          sd = (if k = RULE_KIND_HIDE \<or> k = RULE_KIND_SHOW then FILTER_SIDE_SENDER
                else if k = RULE_KIND_PROTECT \<or> k = RULE_KIND_RISK then FILTER_SIDE_RECEIVER
                else stx_sides s);
          explicit = (stx_sides_explicit s \<or>
                      k \<in> {RULE_KIND_HIDE, RULE_KIND_SHOW, RULE_KIND_PROTECT, RULE_KIND_RISK})
      in case opts of
           Some o' \<Rightarrow> if delete_excluded o' \<and> \<not> explicit then FILTER_SIDE_SENDER else sd
         | None \<Rightarrow> sd)"

definition clear_marker :: filter_rule where
  "clear_marker = \<lparr>action = FILTER_ACTION_NONE, sides = 0, anchored = False, dir_only = False,
     negate = False, perishable = False, owner = None, pattern = None\<rparr>"

definition filter_rule_parse ::
  "allocator \<Rightarrow> string \<Rightarrow> filter_parse_options option \<Rightarrow> filter_error + filter_rule" where
  "filter_rule_parse mem line opts =
     (let p = dropWhile is_blank line in
      if blank_line p then Inl EmptyRule
      else case parse_rule_syntax p of
        Inl bad_mod \<Rightarrow> Inl (if bad_mod \<noteq> NUL then UnsupportedModifier bad_mod else UnrecognizedSyntax)
      | Inr s \<Rightarrow>
          if stx_cvs_inject s then Inl CModifier
          else if stx_xattr s then Inl XattrRule
          else if is_merge_rule (stx_kind s) then Inl MergeRule
          else if stx_kind s = RULE_KIND_CLEAR then
            (if stx_pat_len s \<noteq> 0 then Inl ClearPattern
             else if \<not> mem RULE_BYTES then Inl NoMemory
             else Inr clear_marker)
          else if stx_pat_len s = 0 then Inl NoPattern
          else let slash = (char_at (stx_pat s) 0 = SLASH);
                   pat_begin = (if slash then dropWhile is_blank (tl (stx_pat s)) else stx_pat s);
                   pat_len = (if slash then trimmed_len pat_begin else stx_pat_len s)
            in if pat_len = 0 then Inl NoPatternAfterAnchor
               else let dir = (1 < pat_len \<and> pat_begin ! (pat_len - 1) = SLASH);
                        len = (if dir then pat_len - 1 else pat_len)
                 in if len = 0 then Inl NoPattern
                    else if \<not> mem RULE_BYTES then Inl NoMemory
                    else if \<not> mem (len + 1) then Inl NoMemory
                    else Inr \<lparr>action = rule_action (stx_kind s), sides = rule_sides opts s,
                              anchored = (stx_anchored_mod s \<or> slash), dir_only = dir,
                              negate = stx_negate s, perishable = stx_perishable s, owner = None,
                              pattern = Some (take len pat_begin)\<rparr>)"

subsection \<open>The CVS defaults\<close>

definition CVS_DEFAULTS :: "(string \<times> bool) list" where
  "CVS_DEFAULTS =
     map (\<lambda>p. (p, False))
       [''RCS'', ''SCCS'', ''CVS'', ''CVS.adm'', ''RCSLOG'', ''cvslog.*'', ''tags'', ''TAGS'',
        ''.make.state'', ''.nse_depinfo'', ''*~'', ''#*'', ''.#*'', '',*'', ''_$*'', ''*$'',
        ''*.old'', ''*.bak'', ''*.BAK'', ''*.orig'', ''*.rej'', ''.del-*'', ''*.a'', ''*.olb'',
        ''*.o'', ''*.obj'', ''*.so'', ''*.exe'', ''*.Z'', ''*.elc'', ''*.ln'', ''core''] @
     map (\<lambda>p. (p, True)) [''.svn/'', ''.git/'', ''.hg/'', ''.bzr/'']"

fun append_cvs_rules :: "allocator \<Rightarrow> u32 \<Rightarrow> (string \<times> bool) list \<Rightarrow> filter_rule_list \<Rightarrow> bool \<times> filter_rule_list" where
  "append_cvs_rules mem sd [] l = (True, l)"
| "append_cvs_rules mem sd ((p, dir) # rest) l =
     (let plen = (if dir \<and> p \<noteq> [] \<and> last p = SLASH then length p - 1 else length p) in
      if \<not> mem RULE_BYTES then (False, l)
      else if \<not> mem (plen + 1) then (False, l)
      else (case set_rule_owner mem
                   \<lparr>action = FILTER_ACTION_EXCLUDE, sides = sd, anchored = False, dir_only = dir,
                    negate = False, perishable = False, owner = None, pattern = Some (take plen p)\<rparr>
                   (Some []) of
              None \<Rightarrow> (False, l)
            | Some rule \<Rightarrow>
                (case filter_rule_list_add mem l rule of
                   (True, l') \<Rightarrow> append_cvs_rules mem sd rest l'
                 | (False, l') \<Rightarrow> (False, l'))))"

definition filter_list_append_cvs :: "allocator \<Rightarrow> filter_rule_list \<Rightarrow> u32 \<Rightarrow> bool \<times> filter_rule_list" where
  "filter_list_append_cvs mem l sd = append_cvs_rules mem sd CVS_DEFAULTS l"

subsection \<open>Merge files\<close>

text \<open>A line read into a buffer is used up to its first NUL.\<close>

definition c_str :: "string \<Rightarrow> string" where
  "c_str s = takeWhile (\<lambda>c. c \<noteq> NUL) s"

definition UTILS_MAX_LINE_LEN :: nat where
  "UTILS_MAX_LINE_LEN = 64 * 1024"

type_synonym rule_step = "string \<Rightarrow> filter_rule_list \<Rightarrow> filter_error option \<times> filter_rule_list"

lemma getdelim_loop_consumes:
  "getdelim_loop mem delim max_len stream line cap = (GD_LINE r, cap', rest) \<Longrightarrow>
   r \<noteq> [] \<and> length rest + length r = length stream + length line"
  by (induction mem delim max_len stream line cap rule: getdelim_loop.induct)
    (auto simp: Let_def split: if_splits)

lemma getdelim_consumes:
  "utils_getdelim_bounded mem stream buf delim max_len = (GD_LINE r, buf', rest) \<Longrightarrow>
   length rest < length stream"
  by (auto simp: utils_getdelim_bounded_def Let_def split: if_splits option.splits prod.splits
      dest!: getdelim_loop_consumes simp flip: length_greater_0_conv)

text \<open>The reading loop that merge files and per-directory files share: \<open>step\<close> handles one rule line and
  \<open>fault\<close> names the error of a failed read. Blank lines and comments are skipped.\<close>

function read_rule_lines :: "allocator \<Rightarrow> rule_step \<Rightarrow> (getdelim_result \<Rightarrow> filter_error) \<Rightarrow> string \<Rightarrow>
    nat option \<Rightarrow> filter_rule_list \<Rightarrow> filter_error option \<times> filter_rule_list" where
  "read_rule_lines mem step fault stream buf l =
     (case utils_getdelim_bounded mem stream buf (CHR 0x0A) UTILS_MAX_LINE_LEN of
        (GD_EOF, buf', rest) \<Rightarrow> (None, l)
      | (GD_LINE line, buf', rest) \<Rightarrow>
          let p = dropWhile is_blank (c_str line) in
          if blank_line p \<or> hd p = CHR ''#'' then read_rule_lines mem step fault rest buf' l
          else (case step p l of
                  (None, l') \<Rightarrow> read_rule_lines mem step fault rest buf' l'
                | (Some e, l') \<Rightarrow> (Some e, l'))
      | (r, buf', rest) \<Rightarrow> (Some (fault r), l))"
  by pat_completeness auto

termination
  by (relation "measure (\<lambda>(_, _, _, stream, _, _). length stream)")
    (auto dest: getdelim_consumes [OF sym] getdelim_consumes)

declare read_rule_lines.simps [simp del]

definition merge_fault :: "getdelim_result \<Rightarrow> filter_error" where
  "merge_fault r = MergeReadError"

definition filter_list_merge_file ::
  "allocator \<Rightarrow> (string \<Rightarrow> string option) \<Rightarrow> rule_step \<Rightarrow> filter_rule_list \<Rightarrow> string \<Rightarrow> string option \<Rightarrow>
   filter_error option \<times> filter_rule_list" where
  "filter_list_merge_file mem fopen step l name base_dir =
     (if name = [] then (Some MergeNoName, l)
      else case (case base_dir of
                   Some base \<Rightarrow> if base \<noteq> [] \<and> hd name \<noteq> SLASH then path_cat mem (Some base) (Some name)
                                else str_dup mem name
                 | None \<Rightarrow> str_dup mem name) of
        None \<Rightarrow> (Some NoMemory, l)
      | Some path \<Rightarrow>
          (case fopen path of
             None \<Rightarrow> (Some MergeUnreadable, l)
           | Some content \<Rightarrow> read_rule_lines mem step merge_fault content None l))"

definition FILTER_MAX_MERGE_DEPTH :: nat where
  "FILTER_MAX_MERGE_DEPTH = 16"

text \<open>One rule line. The first argument counts the levels left: \<open>levels = 17 - depth\<close>, so that \<open>0\<close> is a
  depth above \<open>FILTER_MAX_MERGE_DEPTH\<close>.\<close>

primrec filter_list_parse_append_depth ::
  "nat \<Rightarrow> allocator \<Rightarrow> (string \<Rightarrow> string option) \<Rightarrow> filter_parse_options option \<Rightarrow> string option \<Rightarrow>
   rule_step" where
  "filter_list_parse_append_depth 0 mem fopen opts base_dir line l = (Some TooDeep, l)"
| "filter_list_parse_append_depth (Suc levels) mem fopen opts base_dir line l =
     (let p = dropWhile is_blank line in
      if blank_line p then (None, l)
      else case parse_rule_syntax p of
        Inl bad_mod \<Rightarrow> (Some (if bad_mod \<noteq> NUL then UnsupportedModifier bad_mod else UnrecognizedSyntax), l)
      | Inr s \<Rightarrow>
          let name = take (stx_pat_len s) (stx_pat s) in
          if stx_xattr s then (Some XattrRule, l)
          else if stx_cvs_inject s then
            (case filter_list_append_cvs mem l (stx_sides s) of
               (True, l') \<Rightarrow> (None, l') | (False, l') \<Rightarrow> (Some Silent, l'))
          else if stx_kind s = RULE_KIND_CLEAR then
            (if stx_pat_len s \<noteq> 0 then (Some ClearPattern, l) else (None, l\<lparr>items := []\<rparr>))
          else if stx_kind s = RULE_KIND_MERGE then
            (if stx_pat_len s = 0 then (Some MergeNoName, l)
             else if \<not> mem (stx_pat_len s + 1) then (Some NoMemory, l)
             else filter_list_merge_file mem fopen
                    (filter_list_parse_append_depth levels mem fopen opts base_dir) l name base_dir)
          else if stx_kind s = RULE_KIND_DIR_MERGE then
            (if stx_pat_len s = 0 then (Some DirMergeNoName, l)
             else if \<not> mem (stx_pat_len s + 1) then (Some NoMemory, l)
             else (case filter_rule_list_add_dir_merge mem l name of
                     (True, l') \<Rightarrow> (None, l') | (False, l') \<Rightarrow> (Some NoMemory, l')))
          else (case filter_rule_parse mem p opts of
                  Inl e \<Rightarrow> (Some e, l)
                | Inr rule \<Rightarrow>
                    (case filter_rule_list_add mem l rule of
                       (True, l') \<Rightarrow> (None, l') | (False, l') \<Rightarrow> (Some NoMemory, l'))))"

definition filter_rule_list_parse_append ::
  "allocator \<Rightarrow> (string \<Rightarrow> string option) \<Rightarrow> filter_parse_options option \<Rightarrow> string option \<Rightarrow> rule_step" where
  "filter_rule_list_parse_append mem fopen opts merge_base_dir line l =
     filter_list_parse_append_depth (FILTER_MAX_MERGE_DEPTH + 1) mem fopen opts merge_base_dir line l"

fun append_rule_texts :: "rule_step \<Rightarrow> string option list \<Rightarrow> filter_rule_list \<Rightarrow> filter_error option \<times> filter_rule_list" where
  "append_rule_texts step [] l = (None, l)"
| "append_rule_texts step (None # texts) l = append_rule_texts step texts l"
| "append_rule_texts step (Some t # texts) l =
     (case step t l of (None, l') \<Rightarrow> append_rule_texts step texts l' | (Some e, l') \<Rightarrow> (Some e, l'))"

definition filter_base_build ::
  "allocator \<Rightarrow> (string \<Rightarrow> string option) \<Rightarrow> string option list \<Rightarrow> bool \<Rightarrow> bool \<Rightarrow>
   filter_error + filter_rule_list" where
  "filter_base_build mem fopen rule_texts cvs del =
     (case filter_rule_list_create mem of
        None \<Rightarrow> Inl NoMemory
      | Some l0 \<Rightarrow>
          let opts = Some \<lparr>delete_excluded = del, cvs_exclude = cvs\<rparr> in
          (case append_rule_texts (filter_rule_list_parse_append mem fopen opts None) rule_texts l0 of
             (Some e, _) \<Rightarrow> Inl e
           | (None, l) \<Rightarrow>
               if cvs then
                 (case filter_list_append_cvs mem l (FILTER_SIDE_SENDER OR FILTER_SIDE_RECEIVER) of
                    (True, l') \<Rightarrow> Inr l' | (False, _) \<Rightarrow> Inl NoMemory)
               else Inr l))"

subsection \<open>Per-directory merge files\<close>

definition filter_file_rollback :: "filter_rule_list \<Rightarrow> nat \<Rightarrow> nat \<Rightarrow> filter_rule_list" where
  "filter_file_rollback l rules_before dir_merges_before =
     (let first = (if rules_before < length (items l) then rules_before else length (items l)) in
      l\<lparr>items := take first (items l), dir_merge_names := take dir_merges_before (dir_merge_names l)\<rparr>)"

fun set_owners :: "allocator \<Rightarrow> string option \<Rightarrow> filter_rule list \<Rightarrow> filter_rule list option" where
  "set_owners mem own [] = Some []"
| "set_owners mem own (r # rs) =
     (case set_rule_owner mem r own of
        None \<Rightarrow> None
      | Some r' \<Rightarrow> map_option (Cons r') (set_owners mem own rs))"

definition file_fault :: "getdelim_result \<Rightarrow> filter_error" where
  "file_fault r = (if r = GD_EFBIG then LineTooLong else ReadError)"

text \<open>The result is the error, \<open>*exists\<close> and the list.\<close>

definition filter_file_append ::
  "allocator \<Rightarrow> (string \<Rightarrow> string option) \<Rightarrow> filter_rule_list \<Rightarrow> string \<Rightarrow> string \<Rightarrow> string option \<Rightarrow>
   filter_parse_options option \<Rightarrow> filter_error option \<times> bool \<times> filter_rule_list" where
  "filter_file_append mem fopen l dir_path name owner_rel opts =
     (case path_cat mem (Some dir_path) (Some name) of
        None \<Rightarrow> (Some NoMemory, False, l)
      | Some filter_path \<Rightarrow>
          (case fopen filter_path of
             None \<Rightarrow> (None, False, l)
           | Some content \<Rightarrow>
               let rules_before = length (items l); dir_merges_before = length (dir_merge_names l) in
               (case read_rule_lines mem
                       (filter_list_parse_append_depth (FILTER_MAX_MERGE_DEPTH + 1) mem fopen opts (Some dir_path))
                       file_fault content None l of
                  (Some e, l') \<Rightarrow> (Some e, True, filter_file_rollback l' rules_before dir_merges_before)
                | (None, l') \<Rightarrow>
                    (case set_owners mem owner_rel (drop rules_before (items l')) of
                       None \<Rightarrow> (Some NoMemory, True, filter_file_rollback l' rules_before dir_merges_before)
                     | Some rs \<Rightarrow> (None, True, l'\<lparr>items := take rules_before (items l') @ rs\<rparr>)))))"

definition filter_file_read_named ::
  "allocator \<Rightarrow> (string \<Rightarrow> string option) \<Rightarrow> string \<Rightarrow> string \<Rightarrow> string option \<Rightarrow>
   filter_parse_options option \<Rightarrow> bool \<times> (filter_error + filter_rule_list)" where
  "filter_file_read_named mem fopen dir_path name owner_rel opts =
     (case filter_rule_list_create mem of
        None \<Rightarrow> (False, Inl NoMemory)
      | Some l0 \<Rightarrow>
          (case filter_file_append mem fopen l0 dir_path name owner_rel opts of
             (Some e, ex, _) \<Rightarrow> (ex, Inl e)
           | (None, ex, l) \<Rightarrow> (ex, Inr l)))"

definition filter_file_read ::
  "allocator \<Rightarrow> (string \<Rightarrow> string option) \<Rightarrow> string \<Rightarrow> string option \<Rightarrow> bool \<times> (filter_error + filter_rule_list)" where
  "filter_file_read mem fopen dir_path owner_rel =
     filter_file_read_named mem fopen dir_path ''.rsync-filter'' owner_rel None"

subsection \<open>Matching\<close>

fun suffix_scan :: "(string \<Rightarrow> bool) \<Rightarrow> string \<Rightarrow> bool" where
  "suffix_scan matches [] = False"
| "suffix_scan matches (c # cs) = (if c = SLASH then matches cs \<or> suffix_scan matches cs else suffix_scan matches cs)"

definition glob_suffix_match :: "allocator \<Rightarrow> string \<Rightarrow> string \<Rightarrow> bool" where
  "glob_suffix_match mem pat str =
     (if glob_match mem pat str then True else suffix_scan (glob_match mem pat) str)"

text \<open>The path below the rule's owner, if the entry is there.\<close>

definition below_owner :: "filter_rule \<Rightarrow> string \<Rightarrow> string option" where
  "below_owner rule rel_path =
     (case owner rule of
        None \<Rightarrow> Some rel_path
      | Some own \<Rightarrow>
          if own = [] then Some rel_path
          else if take (length own) rel_path \<noteq> own then None
          else if char_at rel_path (length own) \<noteq> SLASH then None
          else Some (drop (length own + 1) rel_path))"

definition rule_matches :: "allocator \<Rightarrow> filter_rule \<Rightarrow> string \<Rightarrow> string \<Rightarrow> bool \<Rightarrow> u32 \<Rightarrow> filter_action" where
  "rule_matches mem rule rel_path leaf is_dir side =
     (case pattern rule of
        None \<Rightarrow> FILTER_ACTION_NONE
      | Some pat \<Rightarrow>
          if sides rule AND side = 0 then FILTER_ACTION_NONE
          else (case below_owner rule rel_path of
                  None \<Rightarrow> FILTER_ACTION_NONE
                | Some rel2 \<Rightarrow>
                    if rel2 = [] then FILTER_ACTION_NONE
                    else let hit = (if dir_only rule \<and> \<not> is_dir then False
                                    else if anchored rule then glob_match mem pat rel2
                                    else if SLASH \<in> set pat then glob_suffix_match mem pat rel2
                                    else glob_match mem pat leaf);
                             matched = (if negate rule then \<not> hit else hit)
                      in if \<not> matched then FILTER_ACTION_NONE
                         else if side = FILTER_SIDE_RECEIVER then
                           (if action rule = FILTER_ACTION_EXCLUDE then FILTER_ACTION_PROTECT
                            else FILTER_ACTION_RISK)
                         else action rule))"

fun apply_rules :: "allocator \<Rightarrow> filter_rule list \<Rightarrow> string \<Rightarrow> string \<Rightarrow> bool \<Rightarrow> u32 \<Rightarrow> filter_action" where
  "apply_rules mem [] rel_path leaf is_dir side = FILTER_ACTION_NONE"
| "apply_rules mem (r # rs) rel_path leaf is_dir side =
     (let a = rule_matches mem r rel_path leaf is_dir side in
      if a \<noteq> FILTER_ACTION_NONE then a else apply_rules mem rs rel_path leaf is_dir side)"

definition filter_rules_apply_side ::
  "allocator \<Rightarrow> filter_rule_list option \<Rightarrow> string \<Rightarrow> string \<Rightarrow> bool \<Rightarrow> u32 \<Rightarrow> filter_action" where
  "filter_rules_apply_side mem l rel_path leaf is_dir side =
     (case l of None \<Rightarrow> FILTER_ACTION_NONE | Some fl \<Rightarrow> apply_rules mem (items fl) rel_path leaf is_dir side)"

section \<open>Reading rule files\<close>

text \<open>The effect of a file given as its lines, when memory is granted: the reference for the loop.\<close>

fun rule_lines :: "rule_step \<Rightarrow> string list \<Rightarrow> filter_rule_list \<Rightarrow> filter_error option \<times> filter_rule_list" where
  "rule_lines step [] l = (None, l)"
| "rule_lines step (line # lines) l =
     (let p = dropWhile is_blank (c_str (line @ [CHR 0x0A])) in
      if blank_line p \<or> hd p = CHR ''#'' then rule_lines step lines l
      else (case step p l of (None, l') \<Rightarrow> rule_lines step lines l' | (Some e, l') \<Rightarrow> (Some e, l')))"

definition text_lines :: "string list \<Rightarrow> string" where
  "text_lines lines = concat (map (\<lambda>line. line @ [CHR 0x0A]) lines)"

definition line_fits :: "string \<Rightarrow> bool" where
  "line_fits line \<longleftrightarrow> CHR 0x0A \<notin> set line \<and> length line < UTILS_MAX_LINE_LEN"

lemma getdelim_loop_line:
  assumes "\<forall>n. mem n" and "delim \<notin> set line" and "length acc + length line < max_len"
  shows "\<exists>cap'. getdelim_loop mem delim max_len (line @ delim # rest) acc cap =
    (GD_LINE (acc @ line @ [delim]), cap', rest)"
  using assms(2,3)
proof (induction line arbitrary: acc cap)
  case Nil
  then show ?case using assms(1) by (simp add: Let_def)
next
  case (Cons c line)
  have "\<exists>cap'. getdelim_loop mem delim max_len (line @ delim # rest) (acc @ [c]) cap'' =
      (GD_LINE ((acc @ [c]) @ line @ [delim]), cap', rest)" for cap''
    using Cons.prems by (intro Cons.IH) auto
  moreover have "mem = (\<lambda>_. True)" using assms(1) by auto
  ultimately show ?case using Cons.prems by (auto simp: Let_def)
qed

lemma getdelim_line:
  assumes "\<forall>n. mem n" and "line_fits line"
  shows "\<exists>buf'. utils_getdelim_bounded mem (line @ CHR 0x0A # rest) buf (CHR 0x0A) UTILS_MAX_LINE_LEN =
    (GD_LINE (line @ [CHR 0x0A]), buf', rest)"
proof -
  have loop: "\<exists>cap'. getdelim_loop mem (CHR 0x0A) UTILS_MAX_LINE_LEN (line @ CHR 0x0A # rest) [] cap =
      (GD_LINE (line @ [CHR 0x0A]), cap', rest)" for cap
    using getdelim_loop_line [OF assms(1), of _ line "[]"] assms(2) by (simp add: line_fits_def)
  have "\<exists>cap. utils_getdelim_bounded mem (line @ CHR 0x0A # rest) buf (CHR 0x0A) UTILS_MAX_LINE_LEN =
      (case getdelim_loop mem (CHR 0x0A) UTILS_MAX_LINE_LEN (line @ CHR 0x0A # rest) [] cap of
         (r, cap', rest) \<Rightarrow> (r, Some cap', rest))"
    using assms(1) by (cases buf) (auto simp: utils_getdelim_bounded_def UTILS_MAX_LINE_LEN_def Let_def)
  then show ?thesis using loop by (metis (no_types, lifting) case_prod_conv)
qed

lemma getdelim_end:
  assumes "\<forall>n. mem n"
  shows "\<exists>buf'. utils_getdelim_bounded mem [] buf delim UTILS_MAX_LINE_LEN = (GD_EOF, buf', [])"
  using assms by (cases buf) (auto simp: utils_getdelim_bounded_def UTILS_MAX_LINE_LEN_def Let_def)

lemma read_rule_lines_text:
  assumes "\<forall>n. mem n" and "list_all line_fits lines"
  shows "read_rule_lines mem step fault (text_lines lines) buf l = rule_lines step lines l"
  using assms(2)
proof (induction lines arbitrary: buf l)
  case Nil
  obtain buf' where "utils_getdelim_bounded mem [] buf (CHR 0x0A) UTILS_MAX_LINE_LEN = (GD_EOF, buf', [])"
    using getdelim_end [OF assms(1)] by blast
  then show ?case by (subst read_rule_lines.simps) (simp add: text_lines_def)
next
  case (Cons line lines)
  obtain buf' where "utils_getdelim_bounded mem (line @ CHR 0x0A # text_lines lines) buf (CHR 0x0A)
      UTILS_MAX_LINE_LEN = (GD_LINE (line @ [CHR 0x0A]), buf', text_lines lines)"
    using getdelim_line [OF assms(1)] Cons.prems by fastforce
  moreover have "text_lines (line # lines) = line @ CHR 0x0A # text_lines lines"
    by (simp add: text_lines_def)
  ultimately show ?case using Cons.IH Cons.prems
    by (subst read_rule_lines.simps) (simp add: Let_def split: prod.split option.split)
qed

section \<open>Well-formed rule lists\<close>

definition rule_ok :: "filter_rule \<Rightarrow> bool" where
  "rule_ok r \<longleftrightarrow> action r \<in> {FILTER_ACTION_EXCLUDE, FILTER_ACTION_INCLUDE} \<and> sides r \<in> {1, 2, 3} \<and>
     (\<exists>p. pattern r = Some p \<and> p \<noteq> [])"

definition list_ok :: "filter_rule_list \<Rightarrow> bool" where
  "list_ok l \<longleftrightarrow> (\<forall>r\<in>set (items l). rule_ok r) \<and> length (items l) \<le> rule_capacity l \<and>
     distinct (dir_merge_names l) \<and> [] \<notin> set (dir_merge_names l) \<and>
     length (dir_merge_names l) \<le> dir_merge_capacity l"

text \<open>What the reading loops keep of a rule list, for any step that keeps it.\<close>

locale list_step =
  fixes step :: rule_step
    and ok :: "filter_rule_list \<Rightarrow> bool"
  assumes step_ok: "ok l \<Longrightarrow> ok (snd (step p l))"
begin

lemma step_result: "ok l \<Longrightarrow> step p l = (r, l') \<Longrightarrow> ok l'"
  using step_ok [of l p] by simp

lemma read_lines_ok: "ok l \<Longrightarrow> ok (snd (read_rule_lines mem step fault stream buf l))"
proof (induction stream arbitrary: buf l rule: measure_induct_rule [where f = length])
  case (less stream)
  obtain r buf' rest where g: "utils_getdelim_bounded mem stream buf (CHR 0x0A) UTILS_MAX_LINE_LEN = (r, buf', rest)"
    by (metis prod_cases3)
  show ?case
  proof (cases r)
    case (GD_LINE line)
    let ?p = "dropWhile is_blank (c_str line)"
    have again: "ok l' \<Longrightarrow> ok (snd (read_rule_lines mem step fault rest buf' l'))" for l'
      using less.IH getdelim_consumes g GD_LINE by blast
    obtain e l' where st: "step ?p l = (e, l')" by fastforce
    then have "ok l'" using step_result less.prems by blast
    with st again less.prems show ?thesis
      by (subst read_rule_lines.simps) (auto simp: g GD_LINE Let_def split: option.split)
  qed (use less.prems in \<open>subst read_rule_lines.simps, simp add: g\<close>)+
qed

lemma texts_ok: "ok l \<Longrightarrow> ok (snd (append_rule_texts step texts l))"
proof (induction texts arbitrary: l)
  case (Cons t texts)
  show ?case
  proof (cases t)
    case (Some line)
    obtain e l' where "step line l = (e, l')" by fastforce
    moreover from this have "ok l'" using step_result Cons.prems by blast
    ultimately show ?thesis using Cons.IH [of l'] by (simp add: Some split: option.split)
  qed (use Cons in simp)
qed simp

end

lemma add_ok: "list_ok l \<Longrightarrow> rule_ok r \<Longrightarrow> list_ok (snd (filter_rule_list_add mem l r))"
  by (auto simp: filter_rule_list_add_def list_ok_def Let_def)

lemma add_dir_merge_ok: "list_ok l \<Longrightarrow> list_ok (snd (filter_rule_list_add_dir_merge mem l name))"
  by (auto simp: filter_rule_list_add_dir_merge_def list_ok_def Let_def str_dup_def split: option.split)

lemma set_rule_owner_simps:
  "set_rule_owner mem r own = Some r' \<Longrightarrow> r' = r\<lparr>owner := Some (case own of None \<Rightarrow> [] | Some s \<Rightarrow> s)\<rparr>"
  by (auto simp: set_rule_owner_def str_dup_def split: option.splits if_splits)

lemma rule_ok_owner [simp]: "rule_ok (r\<lparr>owner := x\<rparr>) = rule_ok r"
  by (simp add: rule_ok_def)

lemma append_cvs_ok:
  "list_ok l \<Longrightarrow> sd \<in> {1, 2, 3} \<Longrightarrow> \<forall>(p, dir)\<in>set ps. if dir then 1 < length p else p \<noteq> [] \<Longrightarrow>
   list_ok (snd (append_cvs_rules mem sd ps l))"
proof (induction ps arbitrary: l)
  case (Cons pd ps)
  obtain p dir where pd: "pd = (p, dir)" by fastforce
  let ?n = "if dir \<and> p \<noteq> [] \<and> last p = SLASH then length p - 1 else length p"
  let ?r = "\<lparr>action = FILTER_ACTION_EXCLUDE, sides = sd, anchored = False, dir_only = dir,
    negate = False, perishable = False, owner = None, pattern = Some (take ?n p)\<rparr>"
  have "take ?n p \<noteq> []" using Cons.prems(3) by (auto simp: pd split: if_splits)
  then have ok: "rule_ok ?r" using Cons.prems(2) by (auto simp: rule_ok_def)
  show ?case
  proof (cases "set_rule_owner mem ?r (Some [])")
    case (Some r)
    have "rule_ok r" unfolding set_rule_owner_simps [OF Some] rule_ok_owner by (rule ok)
    obtain b l' where add: "filter_rule_list_add mem l r = (b, l')" by fastforce
    then have "list_ok l'" using add_ok [OF Cons.prems(1) \<open>rule_ok r\<close>, of mem] by simp
    then have "list_ok (snd (append_cvs_rules mem sd ps l'))" using Cons by simp
    with Cons.prems(1) Some add \<open>list_ok l'\<close> show ?thesis by (simp add: pd Let_def split: bool.split)
  qed (use Cons.prems(1) in \<open>simp add: pd Let_def\<close>)
qed simp

lemma cvs_ok: "list_ok l \<Longrightarrow> sd \<in> {1, 2, 3} \<Longrightarrow> list_ok (snd (filter_list_append_cvs mem l sd))"
  unfolding filter_list_append_cvs_def by (rule append_cvs_ok) (simp_all add: CVS_DEFAULTS_def)

lemma modifiers_keep [simp]:
  "stx_kind (fold apply_modifier mods t) = stx_kind t" "stx_pat (fold apply_modifier mods t) = stx_pat t"
  "stx_pat_len (fold apply_modifier mods t) = stx_pat_len t"
  by (induction mods arbitrary: t) (auto simp: apply_modifier_def)

lemma modifiers_sides: "stx_sides t \<in> {1, 2, 3} \<Longrightarrow> stx_sides (fold apply_modifier mods t) \<in> {1, 2, 3}"
  by (induction mods arbitrary: t) (auto simp: apply_modifier_def)

lemma parsed_syntax:
  assumes "parse_rule_syntax p = Inr s"
  shows "stx_sides s \<in> {1, 2, 3} \<and> stx_pat_len s = trimmed_len (stx_pat s)"
proof -
  have "(1 :: u32) OR 2 = 3" by simp
  with assms obtain mods k pat where "s = fold apply_modifier mods
      \<lparr>stx_kind = k, stx_sides = 3, stx_sides_explicit = False, stx_negate = False,
       stx_anchored_mod = False, stx_perishable = False, stx_xattr = False, stx_cvs_inject = False,
       stx_pat = pat, stx_pat_len = trimmed_len pat\<rparr>"
    unfolding parse_rule_syntax_def Let_def
    by (simp split: option.splits prod.splits if_split_asm) metis+
  then show ?thesis using modifiers_sides [of _ mods] by simp
qed

lemma trimmed_len_le: "trimmed_len s \<le> length s"
  unfolding trimmed_len_def by (metis length_dropWhile_le length_rev)

lemma parsed_rule_ok:
  assumes "filter_rule_parse mem line opts = Inr r"
    and "parse_rule_syntax (dropWhile is_blank line) = Inr s" and "stx_kind s \<noteq> RULE_KIND_CLEAR"
  shows "rule_ok r"
proof -
  define slash where "slash \<longleftrightarrow> char_at (stx_pat s) 0 = SLASH"
  define b where "b = (if slash then dropWhile is_blank (tl (stx_pat s)) else stx_pat s)"
  define len where "len = (if slash then trimmed_len b else stx_pat_len s)"
  define n where "n = (if 1 < len \<and> b ! (len - 1) = SLASH then len - 1 else len)"
  have r: "action r = rule_action (stx_kind s)" "sides r = rule_sides opts s"
    "pattern r = Some (take n b)" "n \<noteq> 0"
    using assms unfolding filter_rule_parse_def Let_def n_def len_def b_def slash_def
    by (auto split: if_split_asm)
  have "len \<le> length b"
    using parsed_syntax [OF assms(2)] trimmed_len_le by (simp add: len_def b_def)
  then have "n \<le> length b" by (auto simp: n_def)
  then have "length (take n b) = n" by simp
  then have "take n b \<noteq> []" using r(4) by (metis list.size(3))
  moreover have "rule_sides opts s \<in> {1, 2, 3}"
    using parsed_syntax [OF assms(2)] by (auto simp: rule_sides_def Let_def split: option.split)
  ultimately show ?thesis using r(1-3) by (simp add: rule_ok_def rule_action_def)
qed

lemma snd_bool_result [simp]:
  "snd (case x of (True, l') \<Rightarrow> (None, l') | (False, l') \<Rightarrow> (Some e, l')) = snd x"
  by (simp split: prod.split bool.split)

lemma merge_file_ok:
  assumes "list_step step list_ok" and "list_ok l"
  shows "list_ok (snd (filter_list_merge_file mem fopen step l name base))"
  using list_step.read_lines_ok [OF assms] assms(2)
  by (simp add: filter_list_merge_file_def split: option.split)

lemma parse_append_ok: "list_ok l \<Longrightarrow> list_ok (snd (filter_list_parse_append_depth levels mem fopen opts base line l))"
proof (induction levels arbitrary: line l)
  case (Suc levels)
  let ?p = "dropWhile is_blank line"
  have step: "list_step (filter_list_parse_append_depth levels mem fopen opts base) list_ok"
    using Suc.IH by unfold_locales
  show ?case
  proof (cases "parse_rule_syntax ?p")
    case (Inr s)
    have parsed: "rule_ok r" if "filter_rule_parse mem ?p opts = Inr r" "stx_kind s \<noteq> RULE_KIND_CLEAR" for r
      using parsed_rule_ok [OF that(1) _ that(2)] Inr by (simp add: dropWhile_idem)
    have "list_ok (l\<lparr>items := []\<rparr>)" using Suc.prems by (simp add: list_ok_def)
    moreover have "list_ok (snd (filter_list_append_cvs mem l (stx_sides s)))"
      using cvs_ok Suc.prems parsed_syntax [OF Inr] by blast
    ultimately show ?thesis
      using Inr Suc.prems merge_file_ok [OF step Suc.prems] add_dir_merge_ok [OF Suc.prems]
        add_ok [OF Suc.prems] parsed
      by (simp add: Let_def split: sum.split)
  qed (use Suc.prems in \<open>simp add: Let_def\<close>)
qed simp

interpretation rule_line: list_step "filter_list_parse_append_depth levels mem fopen opts base" list_ok
  for levels mem fopen opts base
  by unfold_locales (rule parse_append_ok)

lemma create_ok: "filter_rule_list_create mem = Some l \<Longrightarrow> list_ok l"
  by (auto simp: filter_rule_list_create_def list_ok_def split: if_splits)

lemma set_owners_ok: "set_owners mem own rs = Some rs' \<Longrightarrow> \<forall>r\<in>set rs. rule_ok r \<Longrightarrow>
    length rs' = length rs \<and> (\<forall>r\<in>set rs'. rule_ok r \<and> owner r = Some (case own of None \<Rightarrow> [] | Some s \<Rightarrow> s))"
  by (induction rs arbitrary: rs') (auto split: option.splits dest!: set_rule_owner_simps)

lemma rollback_ok: "list_ok l \<Longrightarrow> list_ok (filter_file_rollback l n m)"
  by (auto simp: list_ok_def filter_file_rollback_def Let_def dest: in_set_takeD)

lemma file_append_ok:
  assumes "list_ok l"
  shows "list_ok (snd (snd (filter_file_append mem fopen l dir_path name owner_rel opts)))"
proof -
  let ?n = "length (items l)"
  have "list_ok l'" if "read_rule_lines mem (filter_list_parse_append_depth (FILTER_MAX_MERGE_DEPTH + 1) mem fopen
      opts (Some dir_path)) file_fault content None l = (e, l')" for content e l'
    using rule_line.read_lines_ok [OF assms] that by (metis snd_conv)
  moreover have "list_ok (l'\<lparr>items := take ?n (items l') @ rs\<rparr>)"
    if "list_ok l'" "set_owners mem owner_rel (drop ?n (items l')) = Some rs" for l' rs
  proof -
    have "\<forall>r\<in>set (drop ?n (items l')). rule_ok r" using that(1) by (auto simp: list_ok_def dest: in_set_dropD)
    from set_owners_ok [OF that(2) this] that(1) show ?thesis by (auto simp: list_ok_def dest: in_set_takeD)
  qed
  ultimately show ?thesis using assms rollback_ok
    by (auto simp: filter_file_append_def Let_def split: option.split prod.split)
qed

lemma base_build_ok:
  assumes "filter_base_build mem fopen texts cvs del = Inr l"
  shows "list_ok l"
proof -
  let ?opts = "Some \<lparr>delete_excluded = del, cvs_exclude = cvs\<rparr>"
  let ?step = "filter_rule_list_parse_append mem fopen ?opts None"
  obtain l0 where l0: "filter_rule_list_create mem = Some l0"
    using assms by (auto simp: filter_base_build_def split: option.splits)
  obtain e l1 where l1: "append_rule_texts ?step texts l0 = (e, l1)" by fastforce
  have "?step = filter_list_parse_append_depth (FILTER_MAX_MERGE_DEPTH + 1) mem fopen ?opts None"
    by (simp add: filter_rule_list_parse_append_def fun_eq_iff)
  then have "list_ok l1" using rule_line.texts_ok [OF create_ok [OF l0]] l1 by (metis snd_conv)
  moreover have "(1 :: u32) OR 2 = 3" by simp
  moreover note cvs_ok [OF \<open>list_ok l1\<close>, of 3 mem]
  ultimately show ?thesis using assms l0 l1
    by (auto simp: filter_base_build_def Let_def split: option.splits prod.splits if_splits bool.splits)
qed

section \<open>Printing a rule\<close>

definition rule_word :: "filter_rule \<Rightarrow> string" where
  "rule_word r = (if action r = FILTER_ACTION_EXCLUDE then ''exclude'' else ''include'')"

definition rule_mods :: "filter_rule \<Rightarrow> string" where
  "rule_mods r = (if sides r = 1 then ''s'' else if sides r = 2 then ''r'' else []) @
     (if negate r then ''!'' else []) @ (if perishable r then ''p'' else [])"

definition rule_body :: "filter_rule \<Rightarrow> string" where
  "rule_body r = (if anchored r then [SLASH] else []) @ the (pattern r) @ (if dir_only r then [SLASH] else [])"

definition print_rule :: "filter_rule \<Rightarrow> string" where
  "print_rule r = rule_word r @ CHR '','' # rule_mods r @ CHR '' '' # rule_body r"

text \<open>The rules a line can carry: a pattern that neither its first nor its last character changes.\<close>

definition printable :: "filter_rule \<Rightarrow> bool" where
  "printable r \<longleftrightarrow> rule_ok r \<and> owner r = None \<and>
     (let p = the (pattern r) in
      (if anchored r then \<not> is_blank (hd p) else hd p \<noteq> SLASH) \<and>
      (dir_only r \<or> (\<not> is_eol (last p) \<and> (length p = 1 \<or> last p \<noteq> SLASH))))"

lemma rule_name_word:
  assumes "nm = ''exclude'' \<and> k = RULE_KIND_EXCLUDE \<or> nm = ''include'' \<and> k = RULE_KIND_INCLUDE"
  shows "rule_name (nm @ CHR '','' # rest) = Some (k, False, CHR '','' # rest)"
  using assms
  by (elim disjE)
    (simp_all add: rule_name_def char_at_def short_rule_char_def isalpha_def long_rule_name_def
      at_token_end_def is_sep_def)

lemma modifier_scan:
  assumes "set mods \<subseteq> {CHR ''s'', CHR ''r'', CHR ''!'', CHR ''p''}"
  shows "unsupported_scan k NUL (mods @ CHR '' '' # rest) = NUL"
    "takeWhile (\<lambda>c. is_consumed_modifier_char c k) (mods @ CHR '' '' # rest) = mods"
    "dropWhile (\<lambda>c. is_consumed_modifier_char c k) (mods @ CHR '' '' # rest) = CHR '' '' # rest"
  using assms
  by (induction mods)
    (auto simp: is_sep_def is_modifier_scan_char_def is_modifier_char_def is_unsupported_modifier_char_def
      is_consumed_modifier_char_def is_merge_modifier_char_def)

lemma parse_printed_syntax:
  assumes "nm = ''exclude'' \<and> k = RULE_KIND_EXCLUDE \<or> nm = ''include'' \<and> k = RULE_KIND_INCLUDE"
    and "set mods \<subseteq> {CHR ''s'', CHR ''r'', CHR ''!'', CHR ''p''}"
  shows "parse_rule_syntax (nm @ CHR '','' # mods @ CHR '' '' # body) = Inr (fold apply_modifier mods
    \<lparr>stx_kind = k, stx_sides = 3, stx_sides_explicit = False, stx_negate = False,
     stx_anchored_mod = False, stx_perishable = False, stx_xattr = False, stx_cvs_inject = False,
     stx_pat = body, stx_pat_len = trimmed_len body\<rparr>)"
  unfolding parse_rule_syntax_def rule_name_word [OF assms(1)]
  using modifier_scan [OF assms(2)]
  by (simp add: unsupported_modifier_in_token_def modifier_run_def char_at_def is_sep_def)

lemma trimmed_len_full: "s \<noteq> [] \<Longrightarrow> \<not> is_eol (last s) \<Longrightarrow> trimmed_len s = length s"
  by (cases s rule: rev_cases) (auto simp: trimmed_len_def)

lemma printed_body:
  assumes "printable r" and "pattern r = Some p"
    and pb_def: "pb = p @ (if dir_only r then [SLASH] else [])"
  shows "char_at (rule_body r) 0 = SLASH \<longleftrightarrow> anchored r" and "trimmed_len (rule_body r) \<noteq> 0"
    and "(if anchored r then dropWhile is_blank (tl (rule_body r)) else rule_body r) = pb"
    and "(if anchored r then trimmed_len pb else trimmed_len (rule_body r)) = length pb"
    and "1 < length pb \<and> pb ! (length pb - 1) = SLASH \<longleftrightarrow> dir_only r"
    and "(if dir_only r then length pb - 1 else length pb) = length p" and "take (length p) pb = p"
    and "length p \<noteq> 0"
proof -
  obtain c q where p: "p = c # q"
    using assms by (auto simp: printable_def rule_ok_def neq_Nil_conv)
  have body: "rule_body r = (if anchored r then [SLASH] else []) @ pb"
    by (simp add: rule_body_def pb_def assms(2))
  have pb: "pb = c # q @ (if dir_only r then [SLASH] else [])" by (simp add: pb_def p)
  have hd: "if anchored r then \<not> is_blank c else c \<noteq> SLASH"
    using assms(1) by (auto simp: printable_def Let_def assms(2) p split: if_splits)
  have last: "dir_only r \<or> (\<not> is_eol (last p) \<and> (length p = 1 \<or> last p \<noteq> SLASH))"
    using assms(1) by (simp add: printable_def Let_def assms(2))
  have "\<not> is_eol (last pb)" using last by (auto simp: pb_def is_eol_def)
  then have len: "trimmed_len pb = length pb" "trimmed_len (SLASH # pb) = length (SLASH # pb)"
    using trimmed_len_full [of pb] trimmed_len_full [of "SLASH # pb"] by (simp_all add: pb)
  show "char_at (rule_body r) 0 = SLASH \<longleftrightarrow> anchored r" using hd by (simp add: body char_at_def pb)
  show "trimmed_len (rule_body r) \<noteq> 0" using len by (simp add: body pb)
  show "(if anchored r then dropWhile is_blank (tl (rule_body r)) else rule_body r) = pb"
    using hd by (simp add: body pb)
  show "(if anchored r then trimmed_len pb else trimmed_len (rule_body r)) = length pb"
    using len by (simp add: body)
  show "1 < length pb \<and> pb ! (length pb - 1) = SLASH \<longleftrightarrow> dir_only r"
    using last by (auto simp: pb_def p last_conv_nth nth_append split: if_splits)
  show "(if dir_only r then length pb - 1 else length pb) = length p" "take (length p) pb = p" "length p \<noteq> 0"
    by (simp_all add: pb_def p)
qed

lemma print_parse:
  assumes pr: "printable r" and mem: "\<forall>n. mem n"
    and opts: "sides r = 3 \<Longrightarrow> \<forall>op. opts = Some op \<longrightarrow> \<not> delete_excluded op"
  shows "filter_rule_parse mem (print_rule r) opts = Inr r"
proof -
  define k where "k = (if action r = FILTER_ACTION_EXCLUDE then RULE_KIND_EXCLUDE else RULE_KIND_INCLUDE)"
  have k: "rule_word r = ''exclude'' \<and> k = RULE_KIND_EXCLUDE \<or> rule_word r = ''include'' \<and> k = RULE_KIND_INCLUDE"
    by (simp add: rule_word_def k_def)
  have mods: "set (rule_mods r) \<subseteq> {CHR ''s'', CHR ''r'', CHR ''!'', CHR ''p''}" by (auto simp: rule_mods_def)
  define s where "s = fold apply_modifier (rule_mods r)
    \<lparr>stx_kind = k, stx_sides = 3, stx_sides_explicit = False, stx_negate = False,
     stx_anchored_mod = False, stx_perishable = False, stx_xattr = False, stx_cvs_inject = False,
     stx_pat = rule_body r, stx_pat_len = trimmed_len (rule_body r)\<rparr>"
  have ok: "rule_ok r" using pr by (simp add: printable_def)
  have s: "stx_kind s = k" "stx_sides s = sides r" "stx_sides_explicit s \<longleftrightarrow> sides r \<noteq> 3"
    "stx_negate s = negate r" "\<not> stx_anchored_mod s" "stx_perishable s = perishable r" "\<not> stx_xattr s"
    "\<not> stx_cvs_inject s" "stx_pat s = rule_body r" "stx_pat_len s = trimmed_len (rule_body r)"
    using ok by (auto simp: s_def rule_mods_def apply_modifier_def rule_ok_def)
  have nb: "dropWhile is_blank (print_rule r) = print_rule r" "\<not> blank_line (print_rule r)"
    by (auto simp: print_rule_def rule_word_def is_blank_def blank_line_def is_eol_def)
  have syn: "parse_rule_syntax (print_rule r) = Inr s"
    unfolding print_rule_def s_def by (rule parse_printed_syntax [OF k mods])
  have "rule_sides opts s = sides r" "rule_action (stx_kind s) = action r"
    using s(1-3) ok opts by (auto simp: rule_sides_def rule_action_def k_def rule_ok_def Let_def split: option.split)
  moreover obtain p where p: "pattern r = Some p" using ok by (auto simp: rule_ok_def)
  moreover have "\<not> is_merge_rule k" "k \<noteq> RULE_KIND_CLEAR" by (simp_all add: k_def is_merge_rule_def)
  moreover have "owner r = None" using pr by (simp add: printable_def)
  moreover note pb = printed_body [OF pr p refl]
  ultimately show ?thesis
    unfolding filter_rule_parse_def nb(1) syn Let_def sum.case s pb(1) unfolding pb(3) unfolding pb(4)
    unfolding pb(5) unfolding pb(6) unfolding pb(7) using nb(2) mem s(5,7,8)
    by (auto intro!: filter_rule.equality)
qed

section \<open>Nested merge files\<close>

lemma parse_merge_line:
  assumes "name \<noteq> []" and "\<not> is_eol (last name)"
  shows "parse_rule_syntax (CHR ''.'' # CHR '' '' # name @ [CHR 0x0A]) = Inr
    \<lparr>stx_kind = RULE_KIND_MERGE, stx_sides = 3, stx_sides_explicit = False, stx_negate = False,
     stx_anchored_mod = False, stx_perishable = False, stx_xattr = False, stx_cvs_inject = False,
     stx_pat = name @ [CHR 0x0A], stx_pat_len = length name\<rparr>"
proof -
  have "trimmed_len (name @ [CHR 0x0A]) = trimmed_len name" by (simp add: trimmed_len_def is_eol_def)
  then have "trimmed_len (name @ [CHR 0x0A]) = length name" using trimmed_len_full [OF assms] by simp
  then show ?thesis
    by (simp add: parse_rule_syntax_def rule_name_def char_at_def short_rule_char_def Let_def
        unsupported_modifier_in_token_def at_token_end_def is_sep_def modifier_run_def
        is_consumed_modifier_char_def is_modifier_char_def is_merge_modifier_char_def)
qed

text \<open>A reading stops with an error at a line whose step always fails, if not before.\<close>

lemma rule_lines_fail:
  assumes "line \<in> set lines" and "p = dropWhile is_blank (c_str (line @ [CHR 0x0A]))" and "\<not> blank_line p" and "hd p \<noteq> CHR ''#''"
    and "\<And>l. fst (step p l) \<noteq> None"
  shows "fst (rule_lines step lines l) \<noteq> None"
  using assms(1)
proof (induction lines arbitrary: l)
  case (Cons x lines)
  show ?case
  proof (cases "x = line")
    case True
    then show ?thesis using assms(2-4) assms(5) [of l] by (auto simp: Let_def split: prod.split option.split)
  next
    case False
    with Cons show ?thesis by (auto simp: Let_def split: prod.split option.split)
  qed
qed simp

text \<open>Names that a merge line carries as they are.\<close>

definition merge_name :: "string \<Rightarrow> bool" where
  "merge_name name \<longleftrightarrow> cstring name \<and> name \<noteq> [] \<and> CHR 0x0A \<notin> set name \<and> \<not> is_eol (last name)"

text \<open>Files each of which merges another of them: every level reads on until none is left.\<close>

lemma endless_merge:
  assumes mem: "\<forall>n. mem n"
    and files: "\<forall>f\<in>S. merge_name f \<and> (\<exists>ls. fopen f = Some (text_lines ls) \<and> list_all line_fits ls \<and> (\<exists>g\<in>S. ''. '' @ g \<in> set ls))"
    and "name \<in> S"
  shows "fst (filter_list_parse_append_depth levels mem fopen opts None (''. '' @ name @ [CHR 0x0A]) l) \<noteq> None"
  using assms(3)
proof (induction levels arbitrary: name l)
  case (Suc levels)
  let ?step = "filter_list_parse_append_depth levels mem fopen opts None"
  have name: "cstring name" "name \<noteq> []" "\<not> is_eol (last name)" using files Suc.prems by (auto simp: merge_name_def)
  obtain ls g where ls: "fopen name = Some (text_lines ls)" "list_all line_fits ls" "g \<in> S" "''. '' @ g \<in> set ls"
    using files Suc.prems by blast
  have "cstring g" using files ls(3) by (auto simp: merge_name_def)
  then have p: "dropWhile is_blank (c_str ((''. '' @ g) @ [CHR 0x0A])) = ''. '' @ g @ [CHR 0x0A]"
    by (simp add: c_str_def cstring_def NUL_def is_blank_def) (auto simp: takeWhile_eq_all_conv)
  have "fst (rule_lines ?step ls l) \<noteq> None"
    by (rule rule_lines_fail [OF ls(4) p [symmetric]]) (simp_all add: blank_line_def is_eol_def Suc.IH [OF ls(3), simplified])
  then have "fst (read_rule_lines mem ?step merge_fault (text_lines ls) None l) \<noteq> None"
    unfolding read_rule_lines_text [OF mem ls(2)] .
  then have "fst (filter_list_merge_file mem fopen ?step l name None) \<noteq> None"
    using name(2) ls(1) mem by (simp add: filter_list_merge_file_def str_dup_def)
  moreover have "mem = (\<lambda>_. True)" using mem by auto
  ultimately show ?case using parse_merge_line [OF name(2,3)] name(2)
    by (simp add: is_blank_def blank_line_def is_eol_def Let_def)
qed simp

section \<open>Plain rule lines\<close>

text \<open>A line that holds the rule \<open>r\<close>, whatever its spelling.\<close>

definition rule_line :: "allocator \<Rightarrow> filter_parse_options option \<Rightarrow> string \<Rightarrow> filter_rule \<Rightarrow> bool" where
  "rule_line mem opts line r \<longleftrightarrow> line_fits line \<and> cstring line \<and>
     (let p = dropWhile is_blank (line @ [CHR 0x0A]) in
      \<not> blank_line p \<and> hd p \<noteq> CHR ''#'' \<and> filter_rule_parse mem p opts = Inr r \<and> pattern r \<noteq> None)"

lemma dropWhile_twice [simp]: "dropWhile P (dropWhile P xs) = dropWhile P xs"
  by (induction xs) auto

lemma rule_line_step:
  assumes "rule_line mem opts line r" and p: "p = dropWhile is_blank (line @ [CHR 0x0A])"
  shows "filter_list_parse_append_depth (Suc levels) mem fopen opts base p l =
    (case filter_rule_list_add mem l r of (True, l') \<Rightarrow> (None, l') | (False, l') \<Rightarrow> (Some NoMemory, l'))"
proof -
  have r: "\<not> blank_line p" "filter_rule_parse mem p opts = Inr r" "pattern r \<noteq> None" "dropWhile is_blank p = p"
    using assms by (auto simp: rule_line_def Let_def)
  then obtain s where s: "parse_rule_syntax p = Inr s" by (auto simp: filter_rule_parse_def split: sum.splits)
  have "\<not> stx_cvs_inject s" "\<not> stx_xattr s" "stx_kind s \<noteq> RULE_KIND_MERGE" "stx_kind s \<noteq> RULE_KIND_DIR_MERGE"
    "stx_kind s \<noteq> RULE_KIND_CLEAR"
    using r s by (auto simp: filter_rule_parse_def is_merge_rule_def clear_marker_def Let_def split: if_splits)
  then show ?thesis by (simp add: r s Let_def)
qed

lemma add_granted:
  assumes "\<forall>n. mem n" and "length (items l) < 2 ^ 30"
  shows "\<exists>l'. filter_rule_list_add mem l r = (True, l') \<and> items l' = items l @ [r]"
  using assms by (auto simp: filter_rule_list_add_def Let_def)

lemma rule_lines_plain:
  assumes mem: "\<forall>n. mem n" and "list_all2 (rule_line mem opts) ls rs" and "length (items l) + length rs \<le> 2 ^ 30"
  shows "\<exists>l'. rule_lines (filter_list_parse_append_depth (Suc levels) mem fopen opts base) ls l = (None, l') \<and>
    items l' = items l @ rs"
  using assms(2,3)
proof (induction arbitrary: l rule: list_all2_induct)
  case (Cons line ls r rs)
  let ?step = "filter_list_parse_append_depth (Suc levels) mem fopen opts base"
  define p where "p = dropWhile is_blank (line @ [CHR 0x0A])"
  have c: "c_str (line @ [CHR 0x0A]) = line @ [CHR 0x0A]"
    using Cons.hyps(1) by (auto simp: rule_line_def c_str_def cstring_def NUL_def takeWhile_eq_all_conv)
  obtain l1 where l1: "filter_rule_list_add mem l r = (True, l1)" "items l1 = items l @ [r]"
    using add_granted [OF mem, of l r] Cons.prems by auto
  obtain l' where l': "rule_lines ?step ls l1 = (None, l')" "items l' = items l1 @ rs"
    using Cons.IH [of l1] Cons.prems l1(2) by (auto simp del: filter_list_parse_append_depth.simps)
  have "?step p l = (None, l1)" using rule_line_step [OF Cons.hyps(1) p_def] l1(1) by simp
  moreover have "\<not> blank_line p" "hd p \<noteq> CHR ''#''" using Cons.hyps(1) by (auto simp: rule_line_def Let_def p_def)
  ultimately have "rule_lines ?step (line # ls) l = rule_lines ?step ls l1"
    unfolding rule_lines.simps c p_def [symmetric] Let_def by (simp del: filter_list_parse_append_depth.simps)
  with l' l1(2) show ?case by (auto simp del: filter_list_parse_append_depth.simps)
qed simp

lemma clear_line_step: "filter_list_parse_append_depth (Suc levels) mem fopen opts base [CHR ''!'', CHR 0x0A] l = (None, l\<lparr>items := []\<rparr>)"
proof -
  have "parse_rule_syntax [CHR ''!'', CHR 0x0A] = Inr
    \<lparr>stx_kind = RULE_KIND_CLEAR, stx_sides = 3, stx_sides_explicit = False, stx_negate = False,
     stx_anchored_mod = False, stx_perishable = False, stx_xattr = False, stx_cvs_inject = False,
     stx_pat = [CHR 0x0A], stx_pat_len = 0\<rparr>" by code_simp
  then show ?thesis by (simp add: is_blank_def blank_line_def is_eol_def)
qed

lemma set_owners_granted: "\<forall>n. mem n \<Longrightarrow> set_owners mem (Some own) rs = Some (map (\<lambda>r. r\<lparr>owner := Some own\<rparr>) rs)"
  by (induction rs) (simp_all add: set_rule_owner_def str_dup_def)

lemma parsed_unowned: "filter_rule_parse mem p opts = Inr r \<Longrightarrow> owner r = None"
  by (auto simp: filter_rule_parse_def clear_marker_def Let_def split: if_splits sum.splits)

lemma clear_file:
  assumes mem: "\<forall>n. mem n" and rs: "list_all2 (rule_line mem opts) ls rs" and n: "length rs \<le> 2 ^ 30"
    and path: "path_cat mem (Some dir) (Some name) = Some p" and f: "fopen p = Some (text_lines (''!'' # ls))"
  shows "\<exists>l'. filter_file_append mem fopen l dir name (Some own) opts = (None, True, l') \<and>
    items l' = take (length (items l)) rs @ map (\<lambda>r. r\<lparr>owner := Some own\<rparr>) (drop (length (items l)) rs)"
proof -
  let ?step = "filter_list_parse_append_depth (FILTER_MAX_MERGE_DEPTH + 1) mem fopen opts (Some dir)"
  have fits: "list_all line_fits (''!'' # ls)"
  proof -
    have "list_all line_fits ls" using rs by (induction rule: list_all2_induct) (simp_all add: rule_line_def)
    then show ?thesis by (simp add: line_fits_def [of "''!''"] UTILS_MAX_LINE_LEN_def)
  qed
  have "?step [CHR ''!'', CHR 0x0A] l = (None, l\<lparr>items := []\<rparr>)"
    using clear_line_step [of FILTER_MAX_MERGE_DEPTH] by (simp del: filter_list_parse_append_depth.simps)
  then have "rule_lines ?step (''!'' # ls) l = rule_lines ?step ls (l\<lparr>items := []\<rparr>)"
    by (simp add: c_str_def NUL_def is_blank_def blank_line_def is_eol_def del: filter_list_parse_append_depth.simps)
  moreover obtain l2 where "rule_lines ?step ls (l\<lparr>items := []\<rparr>) = (None, l2)" "items l2 = rs"
    using rule_lines_plain [OF mem rs, of "l\<lparr>items := []\<rparr>" FILTER_MAX_MERGE_DEPTH fopen "Some dir"] n
    by (auto simp del: filter_list_parse_append_depth.simps)
  ultimately have "read_rule_lines mem ?step file_fault (text_lines (''!'' # ls)) None l = (None, l2)" "items l2 = rs"
    unfolding read_rule_lines_text [OF mem fits] by simp_all
  then show ?thesis using path f set_owners_granted [OF mem, of own]
    by (simp add: filter_file_append_def Let_def del: filter_list_parse_append_depth.simps)
qed

section \<open>Properties\<close>

text \<open>C28: Printing a rule and parsing the line gives the rule back. A rule whose pattern survives the
  line syntax, written as its name, its modifiers and its pattern with the anchor and the
  directory mark, is read as the same rule, whatever its sides, negation and perishability.\<close>

theorem filter_rule_roundtrip:
  assumes "printable r" and "\<forall>n. mem n" and "sides r = 3 \<longrightarrow> opts = None"
  shows "filter_rule_parse mem (print_rule r) opts = Inr r"
  by (rule print_parse) (use assms in auto)

theorem filter_rule_roundtrip_witness:
  "print_rule \<lparr>action = FILTER_ACTION_EXCLUDE, sides = 2, anchored = True, dir_only = True, negate = True,
     perishable = False, owner = None, pattern = Some ''a/*.o''\<rparr> = ''exclude,r! /a/*.o/'' \<and>
   filter_rule_parse (\<lambda>_. True) ''exclude,r! /a/*.o/'' (Some \<lparr>delete_excluded = True, cvs_exclude = False\<rparr>) =
     Inr \<lparr>action = FILTER_ACTION_EXCLUDE, sides = 2, anchored = True, dir_only = True, negate = True,
       perishable = False, owner = None, pattern = Some ''a/*.o''\<rparr>"
proof -
  let ?r = "\<lparr>action = FILTER_ACTION_EXCLUDE, sides = 2, anchored = True, dir_only = True, negate = True,
     perishable = False, owner = None, pattern = Some ''a/*.o''\<rparr>"
  have "printable ?r" by (simp add: printable_def rule_ok_def is_blank_def)
  moreover have p: "print_rule ?r = ''exclude,r! /a/*.o/''"
    by (simp add: print_rule_def rule_word_def rule_mods_def rule_body_def)
  ultimately show ?thesis
    using filter_rule_roundtrip [of ?r "\<lambda>_. True" "Some \<lparr>delete_excluded = True, cvs_exclude = False\<rparr>"] by simp
qed

text \<open>C29: Every rule list the engine builds is well formed: its rules have a side, an exclude or include
  action and a non-empty pattern, its arrays hold what their capacities allow, and the names of
  the per-directory merge files are distinct and not empty. The command-line build gives such a
  list, and reading a rule line or a per-directory file keeps it so on every path, errors
  included.\<close>

theorem filter_lists_well_formed:
  "(filter_base_build mem fopen texts cvs del = Inr l \<longrightarrow> list_ok l) \<and>
   (list_ok l \<longrightarrow>
      list_ok (snd (filter_rule_list_parse_append mem fopen opts base line l)) \<and>
      list_ok (snd (snd (filter_file_append mem fopen l dir_path name owner_rel opts))))"
  unfolding filter_rule_list_parse_append_def using base_build_ok file_append_ok parse_append_ok by blast

theorem filter_lists_well_formed_witness:
  "list_ok (snd (filter_rule_list_parse_append (\<lambda>_. True) (\<lambda>_. None) None None ''- *.o''
     \<lparr>items = [], rule_capacity = 0, dir_merge_names = [], dir_merge_capacity = 0\<rparr>))"
proof -
  let ?l = "\<lparr>items = [], rule_capacity = 0, dir_merge_names = [], dir_merge_capacity = 0\<rparr>"
  have "list_ok ?l" by (simp add: list_ok_def)
  then show ?thesis
    using filter_lists_well_formed [of "\<lambda>_. True" "\<lambda>_. None" "[]" False False ?l None None "''- *.o''" "[]" "[]" None]
    by blast
qed

text \<open>C30: Merge files that include each other in a circle are refused. If every file of a set merges, among
  whatever other lines it has, a file of that set, then merging any of them from the command line is an error;
  the recursion ends. A file that merges itself is the case of one file.\<close>

theorem cyclic_merges_refused:
  assumes "\<forall>n. mem n" and "name \<in> S"
    and "\<forall>f\<in>S. merge_name f \<and>
      (\<exists>ls. fopen f = Some (text_lines ls) \<and> list_all line_fits ls \<and> (\<exists>g\<in>S. ''. '' @ g \<in> set ls))"
  shows "fst (filter_rule_list_parse_append mem fopen opts None (''. '' @ name @ [CHR 0x0A]) l) \<noteq> None"
  unfolding filter_rule_list_parse_append_def by (rule endless_merge [OF assms(1,3,2)])

text \<open>Two files, \<open>a\<close> with a rule before its merge line and \<open>b\<close> with a rule behind it.\<close>

theorem cyclic_merges_refused_witness:
  "fst (filter_rule_list_parse_append (\<lambda>_. True)
      (\<lambda>f. if f = ''a'' then Some (text_lines [''- x'', ''. b'']) else Some (text_lines [''. a'', ''- y''])) None None
      (''. a'' @ [CHR 0x0A]) \<lparr>items = [], rule_capacity = 0, dir_merge_names = [], dir_merge_capacity = 0\<rparr>) \<noteq> None"
proof -
  let ?fopen = "\<lambda>f. if f = ''a'' then Some (text_lines [''- x'', ''. b'']) else Some (text_lines [''. a'', ''- y''])"
  have "merge_name ''a''" "merge_name ''b''" by (simp_all add: merge_name_def cstring_def NUL_def is_eol_def)
  moreover have "list_all line_fits [''- x'', ''. b'']" "list_all line_fits [''. a'', ''- y'']"
    by (simp_all add: line_fits_def UTILS_MAX_LINE_LEN_def)
  ultimately have "\<forall>f\<in>{''a'', ''b''}. merge_name f \<and> (\<exists>ls. ?fopen f = Some (text_lines ls) \<and> list_all line_fits ls \<and>
      (\<exists>g\<in>{''a'', ''b''}. ''. '' @ g \<in> set ls))"
    by (auto intro: exI [of _ "[''- x'', ''. b'']"] exI [of _ "[''. a'', ''- y'']"])
  from cyclic_merges_refused [OF _ _ this, of "\<lambda>_. True" "''a''"] show ?thesis by simp
qed

text \<open>C31: What a clear rule at the top of a per-directory file does to the owners. The file's rules replace
  the whole list, but only those past the number of rules that the list had before are given the directory as their
  owner; the first ones, up to that number, stay without an owner and so apply to the whole transfer.\<close>

theorem clear_owner_exact:
  assumes "\<forall>n. mem n" and "list_all2 (rule_line mem opts) ls rs" and "length rs \<le> 2 ^ 30"
    and "path_cat mem (Some dir) (Some name) = Some p" and "fopen p = Some (text_lines (''!'' # ls))"
  shows "\<exists>l'. filter_file_append mem fopen l dir name (Some own) opts = (None, True, l') \<and>
    items l' = take (length (items l)) rs @ map (\<lambda>r. r\<lparr>owner := Some own\<rparr>) (drop (length (items l)) rs) \<and>
    (\<forall>i < min (length (items l)) (length rs). owner (items l' ! i) = None)"
proof -
  obtain l' where l': "filter_file_append mem fopen l dir name (Some own) opts = (None, True, l')"
    "items l' = take (length (items l)) rs @ map (\<lambda>r. r\<lparr>owner := Some own\<rparr>) (drop (length (items l)) rs)"
    using clear_file [where fopen = fopen and p = p, OF assms] by blast
  moreover have "owner (rs ! i) = None" if "i < length rs" for i
    using assms(2) that by (auto simp: list_all2_conv_all_nth rule_line_def Let_def intro: parsed_unowned)
  ultimately show ?thesis by (auto simp: nth_append)
qed

text \<open>On a list of one rule, the first of the file's two rules is not tied to its directory.\<close>

theorem clear_owner_exact_witness:
  "\<exists>l' r r'. filter_file_append (\<lambda>_. True) (\<lambda>_. Some (text_lines [''!'', ''- /x'', ''- /y'']))
      \<lparr>items = [clear_marker], rule_capacity = 8, dir_merge_names = [], dir_merge_capacity = 0\<rparr>
      ''d'' ''.f'' (Some ''d'') None = (None, True, l') \<and> items l' = [r, r'] \<and> owner r = None \<and> owner r' = Some ''d''"
proof -
  let ?r = "\<lambda>p. \<lparr>action = FILTER_ACTION_EXCLUDE, sides = 3, anchored = True, dir_only = False, negate = False,
    perishable = False, owner = None, pattern = Some p\<rparr>"
  have "filter_rule_parse (\<lambda>_. True) (''- /x'' @ [CHR 0x0A]) None = Inr (?r ''x'')"
    "filter_rule_parse (\<lambda>_. True) (''- /y'' @ [CHR 0x0A]) None = Inr (?r ''y'')" by code_simp+
  then have "rule_line (\<lambda>_. True) None ''- /x'' (?r ''x'')" "rule_line (\<lambda>_. True) None ''- /y'' (?r ''y'')"
    by (simp_all add: rule_line_def line_fits_def UTILS_MAX_LINE_LEN_def cstring_def NUL_def is_blank_def blank_line_def is_eol_def)
  then have "list_all2 (rule_line (\<lambda>_. True) None) [''- /x'', ''- /y''] [?r ''x'', ?r ''y'']" by simp
  moreover have "path_cat (\<lambda>_. True) (Some ''d'') (Some ''.f'') = Some ''d/.f''" by (simp add: path_cat_def SIZE_MAX_def)
  ultimately show ?thesis
    using clear_owner_exact [of "\<lambda>_. True" None "[''- /x'', ''- /y'']" "[?r ''x'', ?r ''y'']" "''d''" "''.f''" "''d/.f''"
        "\<lambda>_. Some (text_lines [''!'', ''- /x'', ''- /y''])"
        "\<lparr>items = [clear_marker], rule_capacity = 8, dir_merge_names = [], dir_merge_capacity = 0\<rparr>" "''d''"]
    by auto
qed

end
