(* ===== verification/File_List.thy ===== *)
theory File_List
  imports Str_Index Filter_Rules
begin

text \<open>
  The \<open>--files-from\<close> set of \<open>src/src/shared/file_list.c\<close>: reading and normalising the entries, the
  index over them, and the two queries of the scanner. The file system and XXH64 are parameters. An
  inner \<open>None\<close> of a query is a probe loop that has not ended, as in the path index.
\<close>

section \<open>Definitions\<close>

record string_list =
  sl_items :: "string list"
  sl_capacity :: nat

definition string_list_add :: "allocator \<Rightarrow> string_list \<Rightarrow> string \<Rightarrow> bool \<times> string_list" where
  "string_list_add mem l text =
     (let full = (length (sl_items l) = sl_capacity l);
          new_cap = (if 0 < sl_capacity l then sl_capacity l * 2 else 16);
          l' = (if full then l\<lparr>sl_capacity := new_cap\<rparr> else l)
      in if full \<and> INT_MAX div 2 < sl_capacity l then (False, l)
         else if full \<and> \<not> mem (new_cap * 8) then (False, l)
         else (case str_dup mem text of
                 None \<Rightarrow> (False, l')
               | Some copy \<Rightarrow> (True, l'\<lparr>sl_items := sl_items l' @ [copy]\<rparr>)))"

datatype file_list_error =
    AbsoluteEntry | EmbeddedNul | ListNoMemory | TraversalEntry | EntryTooLong | ListReadError
  | NoFileGiven | CannotOpen

datatype entry_result = Added | Blank | Invalid file_list_error

text \<open>The rebuilding loop over the segments of an entry: \<open>out\<close> is what has been written so far. The
  code writes in place; the write position never passes the segment being read.\<close>

function norm_loop :: "string \<Rightarrow> string \<Rightarrow> string option" where
  "norm_loop out s =
     (let part = takeWhile (\<lambda>c. c \<noteq> SLASH) s; rest = dropWhile (\<lambda>c. c \<noteq> SLASH) s in
      if part = ''..'' then None
      else let out' = (if part = ''.'' \<or> part = [] then out
                       else (if out \<noteq> [] then out @ [SLASH] else out) @ part)
        in if rest = [] then Some out' else norm_loop out' (tl rest))"
  by pat_completeness auto

termination
proof (relation "measure (\<lambda>(_, s). length s)")
  fix out s x xa xb :: string
  assume "xa = dropWhile (\<lambda>c. c \<noteq> SLASH) s" "xa \<noteq> []"
  then have "length (tl xa) < length xa" "length xa \<le> length s" by (simp_all add: length_dropWhile_le)
  then show "((xb, tl xa), out, s) \<in> measure (\<lambda>(_, s). length s)" by simp
qed simp

declare norm_loop.simps [simp del]

definition normalize_entry :: "allocator \<Rightarrow> string \<Rightarrow> bool \<Rightarrow> string_list \<Rightarrow> entry_result \<times> string_list" where
  "normalize_entry mem raw strip_line_endings out =
     (let len = (if strip_line_endings then trimmed_len raw else length raw) in
      if len = 0 then (Blank, out)
      else if hd raw = SLASH then (Invalid AbsoluteEntry, out)
      else let scan_len = (if strip_line_endings then len else len - 1) in
        if NUL \<in> set (take scan_len raw) then (Invalid EmbeddedNul, out)
        else if \<not> mem (len + 1) then (Invalid ListNoMemory, out)
        else (case norm_loop [] (c_str (take len raw)) of
                None \<Rightarrow> (Invalid TraversalEntry, out)
              | Some path \<Rightarrow>
                  (case string_list_add mem out path of
                     (True, out') \<Rightarrow> (Added, out')
                   | (False, out') \<Rightarrow> (Invalid ListNoMemory, out'))))"

record file_list_set =
  fl_entries :: "string list"
  fl_index :: path_index
  whole_tree :: bool

definition file_list_index_build ::
  "allocator \<Rightarrow> xxh64 \<Rightarrow> string list \<Rightarrow> (file_list_error + file_list_set) option" where
  "file_list_index_build mem xxh ents =
     map_option
       (\<lambda>r. case r of None \<Rightarrow> Inl ListNoMemory
          | Some ix \<Rightarrow> Inr \<lparr>fl_entries = ents, fl_index = ix, whole_tree = ([] \<in> set ents)\<rparr>)
       (path_index_build mem xxh ents)"

abbreviation SET_BYTES :: nat where
  "SET_BYTES \<equiv> 80"

definition string_list_to_set ::
  "allocator \<Rightarrow> xxh64 \<Rightarrow> string_list \<Rightarrow> (file_list_error + file_list_set) option" where
  "string_list_to_set mem xxh raw =
     (if \<not> mem SET_BYTES then Some (Inl ListNoMemory) else file_list_index_build mem xxh (sl_items raw))"

function read_entries :: "allocator \<Rightarrow> bool \<Rightarrow> string \<Rightarrow> nat option \<Rightarrow> string_list \<Rightarrow> file_list_error + string_list" where
  "read_entries mem null_separated stream buf raw =
     (case utils_getdelim_bounded mem stream buf (if null_separated then NUL else CHR 0x0A) UTILS_MAX_LINE_LEN of
        (GD_EOF, buf', rest) \<Rightarrow> Inr raw
      | (GD_LINE line, buf', rest) \<Rightarrow>
          (case normalize_entry mem line (\<not> null_separated) raw of
             (Invalid e, raw') \<Rightarrow> Inl e
           | (_, raw') \<Rightarrow> read_entries mem null_separated rest buf' raw')
      | (GD_EFBIG, buf', rest) \<Rightarrow> Inl EntryTooLong
      | (GD_ERROR, buf', rest) \<Rightarrow> Inl ListReadError)"
  by pat_completeness auto

termination
  by (relation "measure (\<lambda>(_, _, stream, _, _). length stream)")
    (auto dest: getdelim_consumes [OF sym] getdelim_consumes)

declare read_entries.simps [simp del]

definition file_list_load ::
  "allocator \<Rightarrow> xxh64 \<Rightarrow> (string \<Rightarrow> string option) \<Rightarrow> string \<Rightarrow> bool \<Rightarrow> (file_list_error + file_list_set) option" where
  "file_list_load mem xxh fopen path null_separated =
     (if path = [] then Some (Inl NoFileGiven)
      else case fopen path of
        None \<Rightarrow> Some (Inl CannotOpen)
      | Some content \<Rightarrow>
          (case read_entries mem null_separated content None \<lparr>sl_items = [], sl_capacity = 0\<rparr> of
             Inl e \<Rightarrow> Some (Inl e)
           | Inr raw \<Rightarrow> string_list_to_set mem xxh raw))"

text \<open>The walk over the directory prefixes of \<open>rel\<close>, longest first; \<open>rel\<close> is cut before its last slash.\<close>

function ancestor_scan :: "(string \<Rightarrow> bool option) \<Rightarrow> string \<Rightarrow> bool option" where
  "ancestor_scan contains rel =
     (let upto = dropWhile (\<lambda>c. c \<noteq> SLASH) (rev rel) in
      if upto = [] then Some False
      else let prefix = rev (tl upto) in
        (case contains prefix of
           None \<Rightarrow> None
         | Some True \<Rightarrow> Some True
         | Some False \<Rightarrow> ancestor_scan contains prefix))"
  by pat_completeness auto

termination
proof (relation "measure (\<lambda>(_, rel). length rel)")
  fix contains :: "string \<Rightarrow> bool option" and rel x xa :: string
  assume x: "x = dropWhile (\<lambda>c. c \<noteq> SLASH) (rev rel)" and "x \<noteq> []" "xa = rev (tl x)"
  then have "length xa < length x" by (cases x) simp_all
  moreover have "length x \<le> length rel" unfolding x by (metis length_dropWhile_le length_rev)
  ultimately show "((contains, xa), contains, rel) \<in> measure (\<lambda>(_, rel). length rel)" by simp
qed simp

declare ancestor_scan.simps [simp del]

definition file_list_affects :: "xxh64 \<Rightarrow> file_list_set option \<Rightarrow> string \<Rightarrow> bool option" where
  "file_list_affects xxh fset rel =
     (case fset of
        None \<Rightarrow> Some True
      | Some s \<Rightarrow>
          if whole_tree s then Some True
          else (case path_index_contains xxh (fl_index s) rel of
                  None \<Rightarrow> None
                | Some True \<Rightarrow> Some True
                | Some False \<Rightarrow>
                    (case ancestor_scan (path_index_contains xxh (fl_index s)) rel of
                       None \<Rightarrow> None
                     | Some True \<Rightarrow> Some True
                     | Some False \<Rightarrow> Some (path_index_has_descendant (fl_index s) rel))))"

definition file_list_dir_in_scope :: "xxh64 \<Rightarrow> file_list_set option \<Rightarrow> string \<Rightarrow> bool option" where
  "file_list_dir_in_scope xxh fset rel =
     (case fset of
        None \<Rightarrow> Some True
      | Some s \<Rightarrow>
          if whole_tree s then Some True
          else if rel = [] then Some False
          else (case ancestor_scan (path_index_contains xxh (fl_index s)) rel of
                  None \<Rightarrow> None
                | Some True \<Rightarrow> Some True
                | Some False \<Rightarrow> path_index_contains xxh (fl_index s) rel))"

section \<open>Normal entries\<close>

fun join_slash :: "string list \<Rightarrow> string" where
  "join_slash [] = []"
| "join_slash [c] = c"
| "join_slash (c # cs) = c @ SLASH # join_slash cs"

definition plain_name :: "string \<Rightarrow> bool" where
  "plain_name c \<longleftrightarrow> c \<noteq> [] \<and> SLASH \<notin> set c \<and> c \<noteq> ''.'' \<and> c \<noteq> ''..''"

text \<open>An entry in normal form: proper names joined by single slashes, or empty for the whole tree.\<close>

definition normal_entry :: "string \<Rightarrow> bool" where
  "normal_entry e \<longleftrightarrow> cstring e \<and> join_slash (components e) = e \<and> list_all plain_name (components e)"

lemma components_plain: "SLASH \<notin> set s \<Longrightarrow> components s = (if s = [] then [] else [s])"
proof -
  have "SLASH \<notin> set s \<Longrightarrow> strtok_slash acc s = (if acc @ s = [] then [] else [acc @ s])" for acc
    by (induction s arbitrary: acc) auto
  then show "SLASH \<notin> set s \<Longrightarrow> components s = (if s = [] then [] else [s])"
    by (simp add: components_def)
qed

lemma components_chars: "c \<in> set (components s) \<Longrightarrow> set c \<subseteq> set s"
proof -
  have "c \<in> set (strtok_slash acc s) \<Longrightarrow> set c \<subseteq> set acc \<union> set s" for acc
    by (induction acc s rule: strtok_slash.induct) (auto split: if_splits)
  from this [of "[]"] show "c \<in> set (components s) \<Longrightarrow> set c \<subseteq> set s" by (simp add: components_def)
qed

lemma join_snoc: "cs \<noteq> [] \<Longrightarrow> join_slash (cs @ [c]) = join_slash cs @ SLASH # c"
  by (induction cs rule: join_slash.induct) auto

lemma join_empty: "list_all plain_name cs \<Longrightarrow> join_slash cs = [] \<longleftrightarrow> cs = []"
  by (cases cs rule: join_slash.cases) (auto simp: plain_name_def)

lemma components_join: "list_all plain_name cs \<Longrightarrow> components (join_slash cs) = cs"
  by (induction cs rule: join_slash.induct) (auto simp: plain_name_def components_plain)

lemma split_slash:
  "dropWhile (\<lambda>c. c \<noteq> SLASH) s \<noteq> [] \<Longrightarrow>
   s = takeWhile (\<lambda>c. c \<noteq> SLASH) s @ SLASH # tl (dropWhile (\<lambda>c. c \<noteq> SLASH) s)"
  by (induction s) auto

lemma norm_loop_components:
  assumes "list_all plain_name cs" and "out = join_slash cs"
  shows "norm_loop out s = (if ''..'' \<in> set (components s) then None
    else Some (join_slash (cs @ filter (\<lambda>c. c \<noteq> ''.'') (components s))))"
  using assms
proof (induction out s arbitrary: cs rule: norm_loop.induct)
  case (1 out s)
  define part where "part = takeWhile (\<lambda>c. c \<noteq> SLASH) s"
  define rest where "rest = dropWhile (\<lambda>c. c \<noteq> SLASH) s"
  define cs' where "cs' = (if part = ''.'' \<or> part = [] then cs else cs @ [part])"
  have ns: "SLASH \<notin> set part" using set_takeWhileD by (fastforce simp: part_def)
  have comps: "components s = (if part = [] then [] else [part]) @ components (tl rest)"
  proof (cases "rest = []")
    case True
    then have "s = part" unfolding part_def rest_def by (metis self_append_conv takeWhile_dropWhile_id)
    then show ?thesis using True ns components_plain [of part] by simp
  next
    case False
    then have "s = part @ SLASH # tl rest" unfolding part_def rest_def by (rule split_slash)
    then have "components s = components part @ components (tl rest)" by (simp only: components_append)
    then show ?thesis using ns components_plain [of part] by simp
  qed
  show ?case
  proof (cases "part = ''..''")
    case True
    then show ?thesis using comps by (subst norm_loop.simps) (simp add: part_def [symmetric])
  next
    case False
    define out' where "out' = (if part = ''.'' \<or> part = [] then out
      else (if out \<noteq> [] then out @ [SLASH] else out) @ part)"
    have "part \<noteq> ''.'' \<Longrightarrow> part \<noteq> [] \<Longrightarrow> plain_name part" using False ns by (simp add: plain_name_def)
    then have cs': "list_all plain_name cs'" using "1.prems"(1) by (auto simp: cs'_def)
    have out': "out' = join_slash cs'"
      using "1.prems" join_empty [of cs] join_snoc [of cs part] by (auto simp: out'_def cs'_def)
    have fil: "cs @ filter (\<lambda>c. c \<noteq> ''.'') (components s) = cs' @ filter (\<lambda>c. c \<noteq> ''.'') (components (tl rest))"
      using comps by (simp add: cs'_def)
    have dd: "''..'' \<in> set (components s) \<longleftrightarrow> ''..'' \<in> set (components (tl rest))" using comps False by auto
    have step: "norm_loop out s = (if rest = [] then Some out' else norm_loop out' (tl rest))"
      using False by (subst norm_loop.simps) (simp add: part_def [symmetric] rest_def [symmetric] Let_def out'_def)
    show ?thesis
    proof (cases "rest = []")
      case True
      then show ?thesis using step out' fil dd by simp
    next
      case rest: False
      have "norm_loop out' (tl rest) = (if ''..'' \<in> set (components (tl rest)) then None
          else Some (join_slash (cs' @ filter (\<lambda>c. c \<noteq> ''.'') (components (tl rest)))))"
        using "1.IH" [OF part_def rest_def False out'_def rest cs' out'] .
      then show ?thesis using step rest fil dd by simp
    qed
  qed
qed

lemma norm_loop_normal:
  assumes "norm_loop [] s = Some e" and "cstring s"
  shows "normal_entry e"
proof -
  let ?cs = "filter (\<lambda>c. c \<noteq> ''.'') (components s)"
  from assms(1) have nd: "''..'' \<notin> set (components s)" and e: "e = join_slash ?cs"
    using norm_loop_components [of "[]" "[]" s] by (auto split: if_splits)
  have pl: "list_all plain_name ?cs"
    using nd components_wf by (auto simp: list_all_iff plain_name_def)
  have "NUL \<notin> set (join_slash ds)" if "\<forall>d\<in>set ds. NUL \<notin> set d" for ds
    using that by (induction ds rule: join_slash.induct) (auto simp: NUL_def)
  moreover have "\<forall>d\<in>set ?cs. NUL \<notin> set d" using components_chars assms(2) by (fastforce simp: cstring_def)
  ultimately have "cstring e" unfolding cstring_def e by blast
  then show ?thesis using components_join [OF pl] pl by (simp add: normal_entry_def e)
qed

section \<open>Loading\<close>

lemma string_list_add_items:
  "string_list_add mem l t = (b, l') \<Longrightarrow> set (sl_items l') \<subseteq> insert t (set (sl_items l))"
  by (auto simp: string_list_add_def Let_def str_dup_def split: if_splits option.splits)

lemma c_str_cstring: "cstring (c_str s)"
  by (auto simp: c_str_def cstring_def dest: set_takeWhileD)

lemma normalize_entry_items:
  assumes "normalize_entry mem raw strip out = (r, out')"
  shows "\<forall>e\<in>set (sl_items out') - set (sl_items out). normal_entry e"
  using assms norm_loop_normal [OF _ c_str_cstring] string_list_add_items
  by (fastforce simp: normalize_entry_def Let_def split: if_splits option.splits prod.splits bool.splits)

lemma read_entries_normal:
  "read_entries mem nul stream buf raw = Inr raw' \<Longrightarrow> \<forall>e\<in>set (sl_items raw). normal_entry e \<Longrightarrow>
   \<forall>e\<in>set (sl_items raw'). normal_entry e"
proof (induction stream arbitrary: buf raw rule: measure_induct_rule [where f = length])
  case (less stream)
  let ?d = "if nul then NUL else CHR 0x0A"
  obtain r buf' rest where g: "utils_getdelim_bounded mem stream buf ?d UTILS_MAX_LINE_LEN = (r, buf', rest)"
    by (metis prod_cases3)
  show ?case
  proof (cases r)
    case (GD_LINE line)
    obtain n raw1 where n: "normalize_entry mem line (\<not> nul) raw = (n, raw1)" by fastforce
    have "\<forall>e\<in>set (sl_items raw1). normal_entry e" using normalize_entry_items [OF n] less.prems(2) by blast
    moreover have "read_entries mem nul rest buf' raw1 = Inr raw'"
      using less.prems(1) g GD_LINE n by (subst (asm) read_entries.simps) (simp split: entry_result.splits)
    ultimately show ?thesis using less.IH getdelim_consumes g GD_LINE by blast
  qed (use less.prems g in \<open>subst (asm) read_entries.simps, simp\<close>)+
qed

text \<open>A loaded set: normal entries and the index over exactly them.\<close>

lemma file_list_load_set:
  assumes "file_list_load mem xxh fopen path nul = Some (Inr fset)"
  shows "\<forall>e\<in>set (fl_entries fset). normal_entry e"
    and "path_index_build mem xxh (fl_entries fset) = Some (Some (fl_index fset))"
    and "whole_tree fset \<longleftrightarrow> [] \<in> set (fl_entries fset)"
proof -
  obtain content raw where raw: "read_entries mem nul content None \<lparr>sl_items = [], sl_capacity = 0\<rparr> = Inr raw"
    and ix: "file_list_index_build mem xxh (sl_items raw) = Some (Inr fset)"
    using assms by (auto simp: file_list_load_def string_list_to_set_def split: if_splits option.splits sum.splits)
  obtain index where "path_index_build mem xxh (sl_items raw) = Some (Some index)"
    "fset = \<lparr>fl_entries = sl_items raw, fl_index = index, whole_tree = ([] \<in> set (sl_items raw))\<rparr>"
    using ix by (auto simp: file_list_index_build_def split: option.splits)
  then show "\<forall>e\<in>set (fl_entries fset). normal_entry e"
    and "path_index_build mem xxh (fl_entries fset) = Some (Some (fl_index fset))"
    and "whole_tree fset \<longleftrightarrow> [] \<in> set (fl_entries fset)"
    using read_entries_normal [OF raw] by simp_all
qed

section \<open>Queries\<close>

lemma slash_cut:
  assumes "p @ SLASH # t = e @ SLASH # u" and "SLASH \<notin> set t"
  shows "e = p \<or> (\<exists>v. p = e @ SLASH # v)"
proof -
  from assms(1) consider us where "p = e @ us" "us @ SLASH # t = SLASH # u"
    | us where "p @ us = e" "SLASH # t = us @ SLASH # u"
    by (auto simp: append_eq_append_conv2)
  then show ?thesis
  proof cases
    case 1
    then show ?thesis by (cases us) auto
  next
    case 2
    then show ?thesis using assms(2) by (cases us) auto
  qed
qed

lemma ancestor_scan_correct:
  assumes "\<And>k. contains k = Some (k \<in> S)"
  shows "ancestor_scan contains rel = Some (\<exists>e\<in>S. \<exists>t. rel = e @ SLASH # t)"
  using assms
proof (induction contains rel rule: ancestor_scan.induct)
  case (1 contains rel)
  define upto where "upto = dropWhile (\<lambda>c. c \<noteq> SLASH) (rev rel)"
  show ?case
  proof (cases "upto = []")
    case True
    then have "SLASH \<notin> set rel" by (auto simp: upto_def)
    then have "\<not> (\<exists>e\<in>S. \<exists>t. rel = e @ SLASH # t)" by auto
    moreover have "ancestor_scan contains rel = Some False"
      by (subst ancestor_scan.simps) (simp add: upto_def [symmetric] True)
    ultimately show ?thesis by simp
  next
    case False
    define p where "p = rev (tl upto)"
    define t where "t = rev (takeWhile (\<lambda>c. c \<noteq> SLASH) (rev rel))"
    have "rev rel = rev t @ SLASH # rev p"
      using split_slash [of "rev rel"] False by (simp add: t_def p_def upto_def)
    then have "rev (rev rel) = rev (rev t @ SLASH # rev p)" by (rule arg_cong)
    then have rel: "rel = p @ SLASH # t" by simp
    have t: "SLASH \<notin> set t" by (auto simp: t_def dest: set_takeWhileD)
    have step: "ancestor_scan contains rel = (if p \<in> S then Some True else ancestor_scan contains p)"
      using False "1.prems" by (subst ancestor_scan.simps) (simp add: upto_def [symmetric] p_def [symmetric])
    have IH: "ancestor_scan contains p = Some (\<exists>e\<in>S. \<exists>u. p = e @ SLASH # u)" if "p \<notin> S"
    proof -
      have "contains p = Some False" using "1.prems" that by simp
      from "1.IH" [OF upto_def False p_def this refl "1.prems"] show ?thesis .
    qed
    have "(\<exists>e\<in>S. \<exists>u. rel = e @ SLASH # u) \<longleftrightarrow> p \<in> S \<or> (\<exists>e\<in>S. \<exists>u. p = e @ SLASH # u)"
    proof
      assume "\<exists>e\<in>S. \<exists>u. rel = e @ SLASH # u"
      then obtain e u where "e \<in> S" "p @ SLASH # t = e @ SLASH # u" unfolding rel by blast
      with slash_cut [OF this(2) t] show "p \<in> S \<or> (\<exists>e\<in>S. \<exists>u. p = e @ SLASH # u)" by blast
    next
      assume "p \<in> S \<or> (\<exists>e\<in>S. \<exists>u. p = e @ SLASH # u)"
      then show "\<exists>e\<in>S. \<exists>u. rel = e @ SLASH # u"
      proof
        assume "\<exists>e\<in>S. \<exists>u. p = e @ SLASH # u"
        then obtain e u where "e \<in> S" "p = e @ SLASH # u" by blast
        then show ?thesis unfolding rel by (intro bexI [of _ e] exI [of _ "u @ SLASH # t"]) simp_all
      qed (use rel in blast)
    qed
    then show ?thesis using step IH by auto
  qed
qed

text \<open>What the entries of a list say about a path: it is listed, below a listed directory, or above a
  listed entry.\<close>

definition listed :: "string set \<Rightarrow> string \<Rightarrow> bool" where
  "listed S rel \<longleftrightarrow> [] \<in> S \<or> rel \<in> S \<or> (\<exists>e\<in>S. \<exists>t. rel = e @ SLASH # t)"

definition above_listed :: "string set \<Rightarrow> string \<Rightarrow> bool" where
  "above_listed S rel \<longleftrightarrow> rel \<noteq> [] \<and> (\<exists>e\<in>S. \<exists>t. e = rel @ SLASH # t)"

lemma loaded_queries:
  assumes "path_index_build mem xxh ents = Some (Some index)" and "\<forall>e\<in>set ents. cstring e" and "cstring rel"
  shows "path_index_contains xxh index rel = Some (rel \<in> set ents)"
    and "ancestor_scan (path_index_contains xxh index) rel = Some (\<exists>e\<in>set ents. \<exists>t. rel = e @ SLASH # t)"
    and "path_index_has_descendant index rel \<longleftrightarrow> above_listed (set ents) rel"
  using path_index_answers [OF assms(1)] ancestor_scan_correct [of "path_index_contains xxh index" "set ents"]
    assms(2,3)
  by (simp_all add: above_listed_def)

lemma read_entries_line:
  assumes "\<forall>n. mem n" and "line_fits line"
    and "normalize_entry mem (line @ [CHR 0x0A]) True raw = (r, raw')" and "\<forall>e. r \<noteq> Invalid e"
  shows "\<exists>buf'. read_entries mem False (line @ CHR 0x0A # rest) buf raw = read_entries mem False rest buf' raw'"
proof -
  obtain buf' where "utils_getdelim_bounded mem (line @ CHR 0x0A # rest) buf (CHR 0x0A) UTILS_MAX_LINE_LEN =
      (GD_LINE (line @ [CHR 0x0A]), buf', rest)"
    using getdelim_line [OF assms(1,2)] by blast
  then show ?thesis using assms(3,4)
    by (subst read_entries.simps) (auto split: entry_result.split)
qed

lemma load_example:
  "\<exists>fset. file_list_load (\<lambda>_. True) length (\<lambda>_. Some (text_lines [''a//b/'', ''./c''])) ''list'' False =
     Some (Inr fset) \<and> fl_entries fset = [''a/b'', ''c'']"
proof -
  let ?mem = "\<lambda>_ :: nat. True" and ?nl = "CHR 0x0A"
  let ?r1 = "\<lparr>sl_items = [''a/b''], sl_capacity = 16\<rparr>" and ?r2 = "\<lparr>sl_items = [''a/b'', ''c''], sl_capacity = 16\<rparr>"
  have loops: "norm_loop [] ''a//b/'' = Some ''a/b''" "norm_loop [] ''./c'' = Some ''c''" by code_simp+
  have n: "normalize_entry ?mem (''a//b/'' @ [?nl]) True \<lparr>sl_items = [], sl_capacity = 0\<rparr> = (Added, ?r1)"
    "normalize_entry ?mem (''./c'' @ [?nl]) True ?r1 = (Added, ?r2)"
    using loops by (simp_all add: normalize_entry_def trimmed_len_def is_eol_def c_str_def NUL_def
        string_list_add_def str_dup_def)
  have fits: "line_fits ''a//b/''" "line_fits ''./c''" by (simp_all add: line_fits_def UTILS_MAX_LINE_LEN_def)
  obtain b1 where "read_entries ?mem False (''a//b/'' @ ?nl # ''./c'' @ ?nl # []) None \<lparr>sl_items = [], sl_capacity = 0\<rparr> =
      read_entries ?mem False (''./c'' @ ?nl # []) b1 ?r1"
    using read_entries_line [OF _ fits(1) n(1), of "''./c'' @ ?nl # []" None] by auto
  moreover obtain b2 where
    "read_entries ?mem False (''./c'' @ ?nl # []) b1 ?r1 = read_entries ?mem False [] b2 ?r2"
    using read_entries_line [OF _ fits(2) n(2), of "[]" b1] by auto
  moreover have "read_entries ?mem False [] b2 ?r2 = Inr ?r2"
    using getdelim_end [of ?mem b2 ?nl] by (subst read_entries.simps) auto
  ultimately have "read_entries ?mem False (text_lines [''a//b/'', ''./c'']) None \<lparr>sl_items = [], sl_capacity = 0\<rparr> = Inr ?r2"
    by (simp add: text_lines_def)
  moreover obtain index where "path_index_build ?mem length [''a/b'', ''c''] = Some (Some index)"
    using path_index_returns [of "[''a/b'', ''c'']" ?mem length] by (auto simp: SIZE_MAX_def)
  ultimately show ?thesis
    by (simp add: file_list_load_def string_list_to_set_def file_list_index_build_def)
qed

section \<open>Properties\<close>

text \<open>C32: The \<open>--files-from\<close> queries answer for the listed entries. For a loaded list and any path, the
  scan predicate holds exactly when the path is listed, lies below a listed directory or is above a
  listed entry, and the directory-scope predicate exactly when it is listed or below one; both
  queries end.\<close>

theorem file_list_queries_correct:
  assumes "file_list_load mem xxh fopen path nul = Some (Inr fset)" and "cstring rel"
  defines "S \<equiv> set (fl_entries fset)"
  shows "file_list_affects xxh (Some fset) rel = Some (listed S rel \<or> above_listed S rel) \<and>
    file_list_dir_in_scope xxh (Some fset) rel = Some ([] \<in> S \<or> rel \<noteq> [] \<and> listed S rel)"
proof -
  note l = file_list_load_set [OF assms(1)]
  have "\<forall>e\<in>set (fl_entries fset). cstring e" using l(1) by (simp add: normal_entry_def)
  note q = loaded_queries [OF l(2) this assms(2)]
  show ?thesis using q l(3)
    by (auto simp: file_list_affects_def file_list_dir_in_scope_def listed_def S_def split: option.split bool.split)
qed

theorem file_list_queries_correct_witness:
  "\<exists>fset. file_list_load (\<lambda>_. True) length (\<lambda>_. Some (text_lines [''a//b/'', ''./c''])) ''list'' False =
      Some (Inr fset) \<and> file_list_affects length (Some fset) ''a'' = Some True \<and>
    file_list_affects length (Some fset) ''a/b/x'' = Some True \<and>
    file_list_affects length (Some fset) ''a/c'' = Some False \<and>
    file_list_dir_in_scope length (Some fset) ''a'' = Some False"
proof -
  obtain fset where l: "file_list_load (\<lambda>_. True) length (\<lambda>_. Some (text_lines [''a//b/'', ''./c''])) ''list'' False =
      Some (Inr fset)" and e: "fl_entries fset = [''a/b'', ''c'']"
    using load_example by blast
  have cs: "cstring ''a''" "cstring ''a/b/x''" "cstring ''a/c''" by code_simp+
  show ?thesis
    using file_list_queries_correct [OF l cs(1)] file_list_queries_correct [OF l cs(2)]
      file_list_queries_correct [OF l cs(3)] l e
    by (auto simp: listed_def above_listed_def Cons_eq_append_conv)
qed

text \<open>C33: Loaded entries are confined to the source tree. Every entry of a loaded list is in normal form:
  relative, without empty, \<open>.\<close> or \<open>..\<close> components and without NUL bytes, so none of them names a
  path outside the source root.\<close>

theorem file_list_entries_normal:
  assumes "file_list_load mem xxh fopen path nul = Some (Inr fset)" and "e \<in> set (fl_entries fset)"
  shows "normal_entry e \<and> char_at e 0 \<noteq> SLASH \<and> ''..'' \<notin> set (components e)"
proof -
  have n: "normal_entry e" using file_list_load_set(1) [OF assms(1)] assms(2) by blast
  have "''..'' \<notin> set (components e)" using n by (auto simp: normal_entry_def plain_name_def list_all_iff)
  moreover have "char_at (join_slash cs) 0 \<noteq> SLASH" if "list_all plain_name cs" for cs
    using that by (cases cs rule: join_slash.cases) (auto simp: char_at_def plain_name_def NUL_def nth_append neq_Nil_conv)
  ultimately show ?thesis using n by (metis normal_entry_def)
qed

theorem file_list_entries_normal_witness:
  "\<exists>fset. file_list_load (\<lambda>_. True) length (\<lambda>_. Some (text_lines [''a//b/'', ''./c''])) ''list'' False =
      Some (Inr fset) \<and> ''a/b'' \<in> set (fl_entries fset) \<and> normal_entry ''a/b''"
proof -
  obtain fset where l: "file_list_load (\<lambda>_. True) length (\<lambda>_. Some (text_lines [''a//b/'', ''./c''])) ''list'' False =
      Some (Inr fset)" and e: "''a/b'' \<in> set (fl_entries fset)"
    using load_example by fastforce
  show ?thesis using file_list_entries_normal [OF l e] l e by blast
qed

text \<open>Under \<open>--from0\<close> a blank entry lists the whole tree. In line mode a blank entry is skipped; with
  NUL-terminated entries the delimiter counts as a byte of the entry, the entry normalises to the
  empty path, and the loaded set affects every path.\<close>

lemma from0_blank_entry_lists_all:
  "\<exists>fset. file_list_load (\<lambda>_. True) xxh (\<lambda>_. Some [NUL]) ''list'' True = Some (Inr fset) \<and>
     file_list_affects xxh (Some fset) rel = Some True"
proof -
  let ?mem = "\<lambda>_ :: nat. True" and ?r = "\<lparr>sl_items = [[]], sl_capacity = 16\<rparr>"
  have "norm_loop [] [] = Some []" by code_simp
  then have n: "normalize_entry ?mem [NUL] False \<lparr>sl_items = [], sl_capacity = 0\<rparr> = (Added, ?r)"
    by (simp add: normalize_entry_def c_str_def string_list_add_def str_dup_def NUL_def)
  obtain b where "utils_getdelim_bounded ?mem [NUL] None NUL UTILS_MAX_LINE_LEN = (GD_LINE [NUL], b, [])"
    by (simp add: utils_getdelim_bounded_def UTILS_MAX_LINE_LEN_def)
  moreover obtain b' where "utils_getdelim_bounded ?mem [] b NUL UTILS_MAX_LINE_LEN = (GD_EOF, b', [])"
    using getdelim_end [of ?mem b NUL] by blast
  ultimately have "read_entries ?mem True [NUL] None \<lparr>sl_items = [], sl_capacity = 0\<rparr> = Inr ?r"
    using n by (simp add: read_entries.simps [of _ _ "[NUL]"] read_entries.simps [of _ _ "[]"])
  moreover obtain index where "path_index_build ?mem xxh [[]] = Some (Some index)"
    using path_index_returns [of "[[]]" ?mem xxh] by (auto simp: SIZE_MAX_def)
  ultimately show ?thesis
    by (simp add: file_list_load_def string_list_to_set_def file_list_index_build_def file_list_affects_def)
qed

end
