(* ===== verification/Symlink.thy ===== *)
theory Symlink
  imports File_List
begin

text \<open>
  The symlink policy of \<open>src/src/shared/file.c\<close>: the lexical test whether a link's target leaves the
  transfer tree, the stricter containment test, and the munging of targets. The reference for the
  test is \<open>climb\<close>, the walk over the target's components from the link's directory.
\<close>

section \<open>Definitions\<close>

text \<open>The loop over leading \<open>../\<close> and the slashes after each of them.\<close>

function skip_parents :: "string \<Rightarrow> string" where
  "skip_parents s =
     (if take 3 s = ''../'' then skip_parents (dropWhile (\<lambda>c. c = SLASH) (drop 3 s)) else s)"
  by pat_completeness auto

termination
proof (relation "measure length")
  fix s :: string
  assume "take 3 s = ''../''"
  then have "length (take 3 s) = 3" by simp
  then have "3 \<le> length s" by simp
  moreover have "length (dropWhile (\<lambda>c. c = SLASH) (drop 3 s)) \<le> length s - 3"
    by (metis length_drop length_dropWhile_le)
  ultimately show "(dropWhile (\<lambda>c. c = SLASH) (drop 3 s), s) \<in> measure length" by simp
qed simp

declare skip_parents.simps [simp del]

text \<open>\<open>strstr(s, sub) != NULL\<close>\<close>

fun strstr :: "string \<Rightarrow> string \<Rightarrow> bool" where
  "strstr [] sub = (sub = [])"
| "strstr (c # cs) sub = (take (length sub) (c # cs) = sub \<or> strstr cs sub)"

lemma next_segment_shorter:
  "SLASH \<in> set name \<Longrightarrow> length (dropWhile (\<lambda>c. c = SLASH) (dropWhile (\<lambda>c. c \<noteq> SLASH) name)) < length name"
proof (induction name)
  case (Cons c name)
  show ?case
  proof (cases "c = SLASH")
    case True
    then show ?thesis using length_dropWhile_le [of "\<lambda>c. c = SLASH" name] by simp
  next
    case False
    then show ?thesis using Cons by simp
  qed
qed simp

text \<open>The first loop: the depth of the link's own directory. A segment that a slash ends is \<open>.\<close> (nothing),
  \<open>..\<close> (the depth is given up) or a name. What follows the last slash comes back as well.\<close>

function link_depth :: "int \<Rightarrow> string \<Rightarrow> int \<times> string" where
  "link_depth depth name =
     (if SLASH \<notin> set name then (depth, name)
      else let seg = takeWhile (\<lambda>c. c \<noteq> SLASH) name;
               rest = dropWhile (\<lambda>c. c = SLASH) (dropWhile (\<lambda>c. c \<noteq> SLASH) name)
        in link_depth (if seg = ''.'' then depth else if seg = ''..'' then 0 else depth + 1) rest)"
  by pat_completeness auto

termination
  by (relation "measure (\<lambda>(_, name). length name)") (auto intro: next_segment_shorter)

text \<open>The second loop: the target from that depth. \<open>None\<close> is the early return.\<close>

function target_scan :: "int \<Rightarrow> string \<Rightarrow> (int \<times> string) option" where
  "target_scan depth name =
     (if SLASH \<notin> set name then Some (depth, name)
      else let seg = takeWhile (\<lambda>c. c \<noteq> SLASH) name;
               rest = dropWhile (\<lambda>c. c = SLASH) (dropWhile (\<lambda>c. c \<noteq> SLASH) name)
        in if seg = ''.'' then target_scan depth rest
           else if seg = ''..'' then (if depth - 1 < 0 then None else target_scan (depth - 1) rest)
           else target_scan (depth + 1) rest)"
  by pat_completeness auto

termination
  by (relation "measure (\<lambda>(_, name). length name)") (auto intro: next_segment_shorter)

declare link_depth.simps [simp del] target_scan.simps [simp del]

definition file_symlink_unsafe :: "string \<Rightarrow> string \<Rightarrow> bool" where
  "file_symlink_unsafe target link_path =
     (if target = [] \<or> hd target = SLASH then True
      else if strstr (skip_parents target) ''/../'' then True
      else if 3 < length target \<and> drop (length target - 3) target = ''/..'' then True
      else let (d, nm) = link_depth 0 link_path; depth = (if nm = ''..'' then 0 else d) in
        (case target_scan depth target of
           None \<Rightarrow> True
         | Some (d', nm') \<Rightarrow> (if nm' = ''..'' then d' - 1 else d') < 0))"

fun no_parent_segment :: "string \<Rightarrow> string \<Rightarrow> bool" where
  "no_parent_segment acc [] = (acc \<noteq> ''..'')"
| "no_parent_segment acc (c # cs) =
     (if c = SLASH then acc \<noteq> ''..'' \<and> no_parent_segment [] cs else no_parent_segment (acc @ [c]) cs)"

definition file_symlink_target_contained :: "string \<Rightarrow> bool" where
  "file_symlink_target_contained target =
     (if target = [] \<or> hd target = SLASH then False else no_parent_segment [] target)"

definition SYMLINK_MUNGE_PREFIX :: string where
  "SYMLINK_MUNGE_PREFIX = ''/rsyncd-munged/''"

definition file_symlink_unmunge :: "string \<Rightarrow> bool \<times> string" where
  "file_symlink_unmunge target =
     (let marker_len = length SYMLINK_MUNGE_PREFIX in
      if take marker_len target \<noteq> SYMLINK_MUNGE_PREFIX then (False, target)
      else (True, drop marker_len target))"

definition file_symlink_munge :: "allocator \<Rightarrow> string \<Rightarrow> string option" where
  "file_symlink_munge mem target =
     (if mem (length SYMLINK_MUNGE_PREFIX + length target + 1) then Some (SYMLINK_MUNGE_PREFIX @ target) else None)"

section \<open>The reference walk\<close>

text \<open>The depth below the transfer root after following components from depth \<open>d\<close>; \<open>None\<close> once the walk
  leaves the root.\<close>

fun climb :: "int \<Rightarrow> string list \<Rightarrow> int option" where
  "climb d [] = Some d"
| "climb d (c # cs) =
     (if c = ''.'' then climb d cs
      else if c = ''..'' then (if d - 1 < 0 then None else climb (d - 1) cs)
      else climb (d + 1) cs)"

lemma segment_components:
  assumes "SLASH \<in> set s"
  shows "components s = (let seg = takeWhile (\<lambda>c. c \<noteq> SLASH) s in if seg = [] then [] else [seg]) @
    components (dropWhile (\<lambda>c. c = SLASH) (dropWhile (\<lambda>c. c \<noteq> SLASH) s))"
proof -
  let ?seg = "takeWhile (\<lambda>c. c \<noteq> SLASH) s" and ?rest = "dropWhile (\<lambda>c. c \<noteq> SLASH) s"
  have ne: "?rest \<noteq> []" using assms by auto
  have "SLASH \<notin> set ?seg" by (auto dest: set_takeWhileD)
  moreover have "components s = components ?seg @ components (tl ?rest)"
    using arg_cong [OF split_slash [OF ne], of components] unfolding components_append .
  moreover have "components ?rest = components (tl ?rest)"
  proof -
    have "?rest = SLASH # tl ?rest" using ne hd_dropWhile [OF ne] by (cases ?rest) simp_all
    from arg_cong [OF this, of components] show ?thesis unfolding components_simps .
  qed
  ultimately show ?thesis using components_plain [of ?seg] by simp
qed

lemma target_scan_climb:
  assumes "s = [] \<or> hd s \<noteq> SLASH" and "0 \<le> d"
  shows "(case target_scan d s of None \<Rightarrow> True | Some (d', nm') \<Rightarrow> (if nm' = ''..'' then d' - 1 else d') < 0) \<longleftrightarrow>
    climb d (components s) = None"
  using assms
proof (induction d s rule: target_scan.induct)
  case (1 depth name)
  show ?case
  proof (cases "SLASH \<in> set name")
    case False
    then show ?thesis using "1.prems" by (auto simp: target_scan.simps components_plain)
  next
    case True
    define seg where "seg = takeWhile (\<lambda>c. c \<noteq> SLASH) name"
    define rest where "rest = dropWhile (\<lambda>c. c = SLASH) (dropWhile (\<lambda>c. c \<noteq> SLASH) name)"
    have seg: "seg \<noteq> []" using "1.prems"(1) True by (cases name) (auto simp: seg_def)
    then have comps: "components name = seg # components rest"
      using segment_components [OF True] by (simp add: seg_def [symmetric] rest_def [symmetric])
    have nr: "rest = [] \<or> hd rest \<noteq> SLASH" unfolding rest_def using hd_dropWhile by blast
    have scan: "target_scan depth name = (if seg = ''.'' then target_scan depth rest
        else if seg = ''..'' then (if depth - 1 < 0 then None else target_scan (depth - 1) rest)
        else target_scan (depth + 1) rest)"
      using True by (subst target_scan.simps) (simp add: seg_def rest_def Let_def)
    have nt: "\<not> SLASH \<notin> set name" using True by simp
    consider "seg = ''.''" | "seg = ''..''" "depth - 1 < 0" | "seg = ''..''" "\<not> depth - 1 < 0"
      | "seg \<noteq> ''.''" "seg \<noteq> ''..''" by blast
    then show ?thesis
    proof cases
      case 1
      show ?thesis using "1.IH"(1) [OF nt seg_def rest_def 1 nr "1.prems"(2)] 1 unfolding scan comps by simp
    next
      case 2
      then show ?thesis unfolding scan comps by simp
    next
      case 3
      then have "seg \<noteq> ''.''" "0 \<le> depth - 1" by simp_all
      then show ?thesis using "1.IH"(2) [OF nt seg_def rest_def _ 3 nr] 3 unfolding scan comps by simp
    next
      case 4
      then show ?thesis using "1.IH"(3) [OF nt seg_def rest_def 4 nr] "1.prems"(2) unfolding scan comps by simp
    qed
  qed
qed

lemma join_plain_head: "list_all plain_name (c # cs) \<Longrightarrow> join_slash (c # cs) \<noteq> [] \<and> hd (join_slash (c # cs)) \<noteq> SLASH"
  by (cases cs) (auto simp: plain_name_def neq_Nil_conv)

lemma split_at_slash:
  "SLASH \<notin> set c \<Longrightarrow> takeWhile (\<lambda>c. c \<noteq> SLASH) (c @ SLASH # r) = c"
  "SLASH \<notin> set c \<Longrightarrow> dropWhile (\<lambda>c. c \<noteq> SLASH) (c @ SLASH # r) = SLASH # r"
  by (induction c) auto

lemma link_depth_names:
  "list_all plain_name (ds @ [nm]) \<Longrightarrow> link_depth d (join_slash (ds @ [nm])) = (d + int (length ds), nm)"
proof (induction ds arbitrary: d)
  case Nil
  then show ?case by (subst link_depth.simps) (simp add: plain_name_def)
next
  case (Cons c ds)
  let ?r = "join_slash (ds @ [nm])"
  obtain c' cs' where cs': "ds @ [nm] = c' # cs'" by (cases "ds @ [nm]") auto
  have j: "join_slash ((c # ds) @ [nm]) = c @ SLASH # ?r" using cs' by simp
  have c: "plain_name c" using Cons.prems by simp
  have "?r \<noteq> [] \<and> hd ?r \<noteq> SLASH" using join_plain_head [of c' cs'] Cons.prems cs' by simp
  then have "dropWhile (\<lambda>c. c = SLASH) ?r = ?r" by (cases ?r) auto
  moreover have "takeWhile (\<lambda>c. c \<noteq> SLASH) (c @ SLASH # ?r) = c" "dropWhile (\<lambda>c. c \<noteq> SLASH) (c @ SLASH # ?r) = SLASH # ?r"
    using c split_at_slash [of c] by (simp_all add: plain_name_def)
  ultimately have "link_depth d (c @ SLASH # ?r) = link_depth (d + 1) ?r"
    using c by (subst link_depth.simps) (simp add: Let_def plain_name_def)
  also have "\<dots> = (d + 1 + int (length ds), nm)" using Cons by simp
  finally show ?case unfolding j by simp
qed

text \<open>A walk that stays at or below the root never uses \<open>..\<close> at the root: resolution from the link's
  directory is then resolution within the tree.\<close>

lemma climb_resolves:
  "climb (int (length dirs)) cs = Some d \<Longrightarrow> int (length (resolve_dots dirs cs)) = d"
proof (induction cs arbitrary: dirs)
  case (Cons c cs)
  show ?case
  proof (cases "c = ''..''")
    case True
    with Cons.prems have "dirs \<noteq> []" and c: "climb (int (length dirs) - 1) cs = Some d" by (auto split: if_splits)
    then have "int (length (butlast dirs)) = int (length dirs) - 1" by (cases dirs) auto
    with c Cons.IH [of "butlast dirs"] True show ?thesis by simp
  next
    case False
    then show ?thesis using Cons.IH [of dirs] Cons.IH [of "dirs @ [c]"] Cons.prems by (auto simp: add.commute split: if_splits)
  qed
qed simp

lemma symlink_unsafe_iff:
  assumes "list_all plain_name (ds @ [nm])"
  shows "file_symlink_unsafe target (join_slash (ds @ [nm])) \<longleftrightarrow>
    target = [] \<or> hd target = SLASH \<or> strstr (skip_parents target) ''/../'' \<or>
    (3 < length target \<and> drop (length target - 3) target = ''/..'') \<or>
    climb (int (length ds)) (components target) = None"
proof -
  have nm: "nm \<noteq> ''..''" using assms by (simp add: plain_name_def)
  show ?thesis
  proof (cases "target = [] \<or> hd target = SLASH")
    case False
    then have "target = [] \<or> hd target \<noteq> SLASH" by simp
    from target_scan_climb [OF this, of "int (length ds)"] False nm show ?thesis
      by (auto simp: file_symlink_unsafe_def link_depth_names [OF assms])
  qed (auto simp: file_symlink_unsafe_def)
qed

section \<open>Properties\<close>

text \<open>C26: A link that passes the lexical test stays inside the transfer tree. For a link at any proper
  path of the tree whose target is not classed unsafe, the target is relative, following it from
  the link's directory never climbs above the transfer root, and the walk ends at the depth of the
  path it resolves to; conversely every target whose walk climbs out is classed unsafe.\<close>

theorem symlink_safe_stays_inside:
  assumes "list_all plain_name (ds @ [nm])"
  shows "(\<not> file_symlink_unsafe target (join_slash (ds @ [nm])) \<longrightarrow>
      hd target \<noteq> SLASH \<and>
      climb (int (length ds)) (components target) = Some (int (length (resolve_dots ds (components target))))) \<and>
    (climb (int (length ds)) (components target) = None \<longrightarrow> file_symlink_unsafe target (join_slash (ds @ [nm])))"
  using symlink_unsafe_iff [OF assms, of target] climb_resolves [of ds "components target"] by auto

theorem symlink_safe_stays_inside_witness:
  "\<not> file_symlink_unsafe ''../x/y'' ''a/b/link'' \<and>
   climb 2 (components ''../x/y'') = Some 3 \<and> file_symlink_unsafe ''../../../y'' ''a/b/link''"
proof -
  have p: "list_all plain_name ([''a'', ''b''] @ [''link''])" by (simp add: plain_name_def)
  have "\<not> file_symlink_unsafe ''../x/y'' ''a/b/link''" "components ''../x/y'' = [''..'', ''x'', ''y'']"
    "components ''../../../y'' = [''..'', ''..'', ''..'', ''y'']" by code_simp+
  then show ?thesis
    using symlink_safe_stays_inside [OF p, of "''../x/y''"] symlink_safe_stays_inside [OF p, of "''../../../y''"]
    by simp
qed

end
