(* ===== verification/Hardlink.thy ===== *)
theory Hardlink
  imports Paths
begin

text \<open>
  The sender's hard-link table of \<open>src/src/shared/hardlink.c\<close>: every source inode gets a group id, and
  the first member seen carries the data. The abstract view is a map from inodes to the group id and
  the path of the first member; the refinement lemma is \<open>hardlink_assign_refines\<close>.

  An assignment allocates up to three times, twice for the same path, and each allocation may be refused
  on its own: \<open>mem k n\<close> is the verdict on the request of \<open>n\<close> bytes at the place \<open>k\<close> of the code: the array (0),
  the table's copy of the path (1), the caller's copy (2).
\<close>

section \<open>Definitions\<close>

record hardlink_item =
  hl_dev :: nat
  hl_ino :: nat
  hl_gid :: int
  hl_first_path :: string

record hardlink_table =
  hl_items :: "hardlink_item list"
  hl_capacity :: nat
  next_gid :: int

abbreviation TABLE_BYTES :: nat where
  "TABLE_BYTES \<equiv> 72"

abbreviation ITEM_BYTES :: nat where
  "ITEM_BYTES \<equiv> 32"

definition hardlink_table_create :: "allocator \<Rightarrow> bool \<Rightarrow> hardlink_table option" where
  "hardlink_table_create mem mtx_init_ok =
     (if \<not> mem TABLE_BYTES then None
      else if \<not> mtx_init_ok then None
      else Some \<lparr>hl_items = [], hl_capacity = 0, next_gid = 1\<rparr>)"

definition hardlink_table_find_locked :: "hardlink_table \<Rightarrow> nat \<Rightarrow> nat \<Rightarrow> hardlink_item option" where
  "hardlink_table_find_locked t dev ino = find (\<lambda>i. hl_dev i = dev \<and> hl_ino i = ino) (hl_items t)"

definition hardlink_table_add_locked ::
  "(nat \<Rightarrow> allocator) \<Rightarrow> hardlink_table \<Rightarrow> nat \<Rightarrow> nat \<Rightarrow> string \<Rightarrow> int \<Rightarrow> bool \<times> hardlink_table" where
  "hardlink_table_add_locked mem t dev ino path g =
     (let full = (length (hl_items t) = hl_capacity t);
          new_capacity = (if hl_capacity t = 0 then 8 else (hl_capacity t * 2) mod (SIZE_MAX + 1));
          t' = (if full then t\<lparr>hl_capacity := new_capacity\<rparr> else t)
      in if full \<and> new_capacity < hl_capacity t then (False, t)
         else if full \<and> \<not> mem 0 ((new_capacity * ITEM_BYTES) mod (SIZE_MAX + 1)) then (False, t)
         else (case str_dup (mem 1) path of
                 None \<Rightarrow> (False, t')
               | Some dup \<Rightarrow>
                   (True, t'\<lparr>hl_items := hl_items t' @
                       [\<lparr>hl_dev = dev, hl_ino = ino, hl_gid = g, hl_first_path = dup\<rparr>]\<rparr>)))"

text \<open>\<open>next_gid++\<close> on a 32-bit \<open>int\<close>, with the wrap-around the guard \<open>next_gid <= 0\<close> looks for.\<close>

definition gid_increment :: "int \<Rightarrow> int" where
  "gid_increment g = (if g = 2 ^ 31 - 1 then - (2 ^ 31) else g + 1)"

text \<open>The result: whether it succeeded, the table, and \<open>gid\<close>, \<open>is_first\<close> and the first member's path.\<close>

definition hardlink_table_assign ::
  "(nat \<Rightarrow> allocator) \<Rightarrow> bool \<Rightarrow> hardlink_table \<Rightarrow> string \<Rightarrow> nat \<Rightarrow> nat \<Rightarrow> hardlink_table \<times> (int \<times> bool \<times> string) option" where
  "hardlink_table_assign mem lock_ok t wire_path dev ino =
     (if \<not> lock_ok then (t, None)
      else case hardlink_table_find_locked t dev ino of
        Some item \<Rightarrow>
          (case str_dup (mem 2) (hl_first_path item) of
             None \<Rightarrow> (t, None)
           | Some dup \<Rightarrow> (t, Some (hl_gid item, False, dup)))
      | None \<Rightarrow>
          if next_gid t \<le> 0 then (t, None)
          else (case hardlink_table_add_locked mem t dev ino wire_path (next_gid t) of
                  (False, t') \<Rightarrow> (t', None)
                | (True, t') \<Rightarrow>
                    (case str_dup (mem 2) wire_path of
                       None \<Rightarrow> (t'\<lparr>hl_items := butlast (hl_items t')\<rparr>, None)
                     | Some dup \<Rightarrow>
                         (t'\<lparr>next_gid := gid_increment (next_gid t)\<rparr>, Some (next_gid t, True, dup)))))"

section \<open>The abstract map\<close>

definition group_map :: "hardlink_table \<Rightarrow> nat \<times> nat \<Rightarrow> (int \<times> string) option" where
  "group_map t = map_of (map (\<lambda>i. ((hl_dev i, hl_ino i), (hl_gid i, hl_first_path i))) (hl_items t))"

text \<open>Inodes are listed once, and ids are handed out in order; after the last id the table is closed.\<close>

definition table_ok :: "hardlink_table \<Rightarrow> bool" where
  "table_ok t \<longleftrightarrow> distinct (map (\<lambda>i. (hl_dev i, hl_ino i)) (hl_items t)) \<and>
     length (hl_items t) \<le> hl_capacity t \<and>
     map hl_gid (hl_items t) = map (\<lambda>n. int n + 1) [0..<length (hl_items t)] \<and>
     next_gid t = (if length (hl_items t) = 2 ^ 31 - 1 then - (2 ^ 31) else int (length (hl_items t)) + 1) \<and>
     length (hl_items t) < 2 ^ 31"

lemma find_group_map:
  "group_map t (dev, ino) =
     map_option (\<lambda>i. (hl_gid i, hl_first_path i)) (hardlink_table_find_locked t dev ino)"
proof -
  have "map_of (map (\<lambda>i. ((hl_dev i, hl_ino i), (hl_gid i, hl_first_path i))) is) (dev, ino) =
      map_option (\<lambda>i. (hl_gid i, hl_first_path i)) (find (\<lambda>i. hl_dev i = dev \<and> hl_ino i = ino) is)" for "is"
    by (induction "is") auto
  then show ?thesis by (simp add: group_map_def hardlink_table_find_locked_def)
qed

lemma group_map_snoc:
  "group_map t (d, n) = None \<Longrightarrow>
   group_map (t\<lparr>hl_items := hl_items t @ [\<lparr>hl_dev = d, hl_ino = n, hl_gid = g, hl_first_path = p\<rparr>]\<rparr>) =
     (group_map t)((d, n) \<mapsto> (g, p))"
  by (auto simp: group_map_def map_add_def fun_eq_iff split: option.splits dest!: map_of_SomeD)

lemma add_locked_items:
  assumes "hardlink_table_add_locked mem t dev ino path g = (True, t')"
  shows "\<exists>c. t' = t\<lparr>hl_capacity := c, hl_items := hl_items t @
      [\<lparr>hl_dev = dev, hl_ino = ino, hl_gid = g, hl_first_path = path\<rparr>]\<rparr> \<and>
    (length (hl_items t) \<le> hl_capacity t \<longrightarrow> length (hl_items t) < 2 ^ 31 \<longrightarrow> length (hl_items t) < c)"
proof (cases "length (hl_items t) = hl_capacity t")
  case False
  let ?t = "t\<lparr>hl_items := hl_items t @ [\<lparr>hl_dev = dev, hl_ino = ino, hl_gid = g, hl_first_path = path\<rparr>]\<rparr>"
  have "t' = ?t" using assms False
    by (auto simp: hardlink_table_add_locked_def str_dup_def Let_def split: if_splits)
  moreover have "?t = ?t\<lparr>hl_capacity := hl_capacity t\<rparr>" by simp
  ultimately show ?thesis using False by (intro exI [of _ "hl_capacity t"]) auto
next
  case True
  let ?c = "if hl_capacity t = 0 then 8 else (hl_capacity t * 2) mod (SIZE_MAX + 1)"
  have "t' = t\<lparr>hl_capacity := ?c, hl_items := hl_items t @
      [\<lparr>hl_dev = dev, hl_ino = ino, hl_gid = g, hl_first_path = path\<rparr>]\<rparr>"
    using assms True
    by (auto simp: hardlink_table_add_locked_def str_dup_def Let_def split: if_split_asm)
  moreover have "length (hl_items t) < ?c" if "length (hl_items t) < 2 ^ 31"
    using that True by (simp add: SIZE_MAX_def)
  ultimately show ?thesis by blast
qed

lemma add_locked_failed:
  assumes "hardlink_table_add_locked mem t dev ino path g = (False, t')"
  shows "hl_items t' = hl_items t \<and> next_gid t' = next_gid t \<and>
    (length (hl_items t) < 2 ^ 31 \<longrightarrow> length (hl_items t) \<le> hl_capacity t \<longrightarrow> length (hl_items t) \<le> hl_capacity t')"
  using assms
  by (auto simp: hardlink_table_add_locked_def str_dup_def Let_def SIZE_MAX_def split: if_split_asm)

lemma create_table_ok: "hardlink_table_create mem m = Some t \<Longrightarrow> table_ok t \<and> group_map t = Map.empty"
  by (auto simp: hardlink_table_create_def table_ok_def group_map_def split: if_splits)

lemma new_group:
  assumes ok: "table_ok t" and free: "hardlink_table_find_locked t dev ino = None" and pos: "0 < next_gid t"
    and add: "hardlink_table_add_locked mem t dev ino path (next_gid t) = (True, t1)"
  shows "table_ok (t1\<lparr>next_gid := gid_increment (next_gid t)\<rparr>) \<and>
    group_map (t1\<lparr>next_gid := gid_increment (next_gid t)\<rparr>) = (group_map t)((dev, ino) \<mapsto> (next_gid t, path)) \<and>
    (\<forall>k g p. group_map t k = Some (g, p) \<longrightarrow> g < next_gid t)"
proof -
  let ?n = "length (hl_items t)"
  from add_locked_items [OF add] obtain c where t1: "t1 = t\<lparr>hl_capacity := c, hl_items := hl_items t @
      [\<lparr>hl_dev = dev, hl_ino = ino, hl_gid = next_gid t, hl_first_path = path\<rparr>]\<rparr>"
    and c: "?n \<le> hl_capacity t \<longrightarrow> ?n < 2 ^ 31 \<longrightarrow> ?n < c" by blast
  have n: "next_gid t = int ?n + 1" "?n < 2 ^ 31 - 1" using ok pos by (auto simp: table_ok_def split: if_splits)
  have "(dev, ino) \<notin> (\<lambda>i. (hl_dev i, hl_ino i)) ` set (hl_items t)"
    using free by (auto simp: hardlink_table_find_locked_def find_None_iff)
  moreover have "length (hl_items t) < c" using c ok by (simp add: table_ok_def)
  ultimately have "table_ok (t1\<lparr>next_gid := gid_increment (next_gid t)\<rparr>)"
    using ok n by (simp add: table_ok_def t1 gid_increment_def)
  moreover have "group_map t (dev, ino) = None" using free by (simp add: find_group_map)
  then have "group_map (t1\<lparr>next_gid := gid_increment (next_gid t)\<rparr>) = (group_map t)((dev, ino) \<mapsto> (next_gid t, path))"
    using group_map_snoc [of t dev ino "next_gid t" path] by (simp add: group_map_def t1)
  moreover have "g < next_gid t" if "group_map t k = Some (g, p)" for k g p
  proof -
    have "g \<in> set (map hl_gid (hl_items t))" using that by (auto simp: group_map_def dest!: map_of_SomeD)
    then have "g \<in> set (map (\<lambda>n. int n + 1) [0..<?n])" using ok by (simp only: table_ok_def)
    then show ?thesis using n(1) by auto
  qed
  ultimately show ?thesis by blast
qed

text \<open>When the caller's copy is refused the new item is taken off again.\<close>

lemma rolled_back:
  assumes "table_ok t" and add: "hardlink_table_add_locked mem t dev ino path g = (True, t1)"
  shows "table_ok (t1\<lparr>hl_items := butlast (hl_items t1)\<rparr>) \<and>
    group_map (t1\<lparr>hl_items := butlast (hl_items t1)\<rparr>) = group_map t"
proof -
  from add_locked_items [OF add] obtain c where
    "t1\<lparr>hl_items := butlast (hl_items t1)\<rparr> = t\<lparr>hl_capacity := c\<rparr>" "length (hl_items t) < c"
    using assms(1) by (auto simp: table_ok_def)
  then show ?thesis using assms(1) by (simp add: table_ok_def group_map_def)
qed

section \<open>Properties\<close>

text \<open>C27: The hard-link table implements a map from inodes to groups. Assigning a path to an inode that is
  known answers with the id and the first path of its group and changes nothing; a new inode is
  recorded as its own first member under an id above all ids in use; when the assignment fails, for
  want of ids or of memory for the array, the table's copy or the caller's copy of the path, the groups
  and the next id are those of before. The table stays well formed.\<close>

theorem hardlink_assign_refines:
  assumes "table_ok t" and "hardlink_table_assign mem lock_ok t path dev ino = (t', r)"
  shows "table_ok t' \<and>
    (case r of
       None \<Rightarrow> group_map t' = group_map t \<and> hl_items t' = hl_items t \<and> next_gid t' = next_gid t
     | Some (g, is_first, p) \<Rightarrow>
         (if is_first then
            p = path \<and> group_map t (dev, ino) = None \<and> (\<forall>k h q. group_map t k = Some (h, q) \<longrightarrow> h < g) \<and>
            group_map t' = (group_map t)((dev, ino) \<mapsto> (g, path))
          else t' = t \<and> group_map t (dev, ino) = Some (g, p)))"
proof (cases "lock_ok \<and> hardlink_table_find_locked t dev ino = None \<and> 0 < next_gid t")
  case False
  then show ?thesis using assms find_group_map [of t dev ino]
    by (auto simp: hardlink_table_assign_def str_dup_def split: if_splits option.splits)
next
  case True
  obtain b t1 where add: "hardlink_table_add_locked mem t dev ino path (next_gid t) = (b, t1)" by fastforce
  consider (refused) "\<not> b" | (undone) "b" "\<not> mem 2 (length path + 1)" | (new) "b" "mem 2 (length path + 1)" by blast
  then show ?thesis
  proof cases
    case refused
    then have "t' = t1" "r = None" using assms(2) True add by (auto simp: hardlink_table_assign_def)
    moreover have "group_map t1 = group_map t" "table_ok t1" "hl_items t1 = hl_items t" "next_gid t1 = next_gid t"
      using add_locked_failed [of mem t dev ino path "next_gid t" t1] add refused assms(1)
      by (simp_all add: group_map_def table_ok_def)
    ultimately show ?thesis by simp
  next
    case undone
    then have add1: "hardlink_table_add_locked mem t dev ino path (next_gid t) = (True, t1)" using add by simp
    have "t' = t1\<lparr>hl_items := butlast (hl_items t1)\<rparr>" "r = None"
      using assms(2) True add1 undone(2) by (auto simp: hardlink_table_assign_def str_dup_def)
    with rolled_back [OF assms(1) add1] add_locked_items [OF add1] show ?thesis by auto
  next
    case new
    then have add1: "hardlink_table_add_locked mem t dev ino path (next_gid t) = (True, t1)" using add by simp
    have "t' = t1\<lparr>next_gid := gid_increment (next_gid t)\<rparr>" "r = Some (next_gid t, True, path)"
      using assms(2) True add1 new(2) by (auto simp: hardlink_table_assign_def str_dup_def)
    then show ?thesis using new_group [OF assms(1) _ _ add1] True find_group_map [of t dev ino] by simp
  qed
qed

text \<open>A refused copy, then the same path again, then a second member.\<close>

theorem hardlink_assign_refines_witness:
  "\<exists>t t0 t' t'' g. hardlink_table_create (\<lambda>_. True) True = Some t \<and>
    hardlink_table_assign (\<lambda>k _. k < 2) True t ''a'' 1 7 = (t0, None) \<and> group_map t0 = Map.empty \<and>
    hardlink_table_assign (\<lambda>_ _. True) True t0 ''a'' 1 7 = (t', Some (g, True, ''a'')) \<and>
    hardlink_table_assign (\<lambda>_ _. True) True t' ''b'' 1 7 = (t'', Some (g, False, ''a'')) \<and>
    group_map t' (1, 7) = Some (g, ''a'') \<and> table_ok t''"
proof -
  let ?t = "\<lparr>hl_items = [], hl_capacity = 0, next_gid = 1\<rparr>"
  let ?u = "\<lparr>hl_items = [], hl_capacity = 8, next_gid = 1\<rparr>"
  let ?t' = "\<lparr>hl_items = [\<lparr>hl_dev = 1, hl_ino = 7, hl_gid = 1, hl_first_path = ''a''\<rparr>], hl_capacity = 8, next_gid = 2\<rparr>"
  note defs = hardlink_table_assign_def hardlink_table_find_locked_def hardlink_table_add_locked_def str_dup_def
    gid_increment_def
  have c: "hardlink_table_create (\<lambda>_. True) True = Some ?t"
    by (simp add: hardlink_table_create_def)
  have z: "hardlink_table_assign (\<lambda>k _. k < 2) True ?t ''a'' 1 7 = (?u, None)"
    by (simp add: defs)
  have a: "hardlink_table_assign (\<lambda>_ _. True) True ?u ''a'' 1 7 = (?t', Some (1, True, ''a''))" by (simp add: defs)
  have b: "hardlink_table_assign (\<lambda>_ _. True) True ?t' ''b'' 1 7 = (?t', Some (1, False, ''a''))" by (simp add: defs)
  have ok: "table_ok ?t" "group_map ?t = Map.empty" using create_table_ok [OF c] by simp_all
  note t0 = hardlink_assign_refines [OF ok(1) z]
  have ok0: "table_ok ?u" and m0: "group_map ?u = Map.empty" using t0 ok(2) by simp_all
  note t' = hardlink_assign_refines [OF ok0 a]
  have ok': "table_ok ?t'" using t' by simp
  note t'' = hardlink_assign_refines [OF ok' b]
  have "group_map ?t' (1, 7) = Some (1, ''a'')" using t' by simp
  with c z m0 a b ok' show ?thesis by blast
qed

end
