(* ===== verification/Selection.thy ===== *)
theory Selection
  imports Symlink Hardlink Queue
begin

text \<open>
  The scanner's selection layer, \<open>src/src/client/scanner_filter.c\<close>: the chain of per-directory
  filters with the command-line rules at its end, the symlink policy, the inspection of one directory
  entry, the paths sent over the wire, and the lists that protect destination paths from deletion.
  System calls (\<open>lstat\<close>, \<open>stat\<close>, \<open>readlink\<close>, \<open>fopen\<close>) are parameters.
\<close>

section \<open>Definitions\<close>

subsection \<open>The filter chain\<close>

text \<open>A chain of \<open>FilterNode\<close>s is the list of their own rule lists, innermost directory first.\<close>

type_synonym filter_chain = "filter_rule_list list"

definition filter_node_alloc :: "allocator \<Rightarrow> filter_chain \<Rightarrow> filter_rule_list \<Rightarrow> filter_chain option" where
  "filter_node_alloc mem parent own = (if mem 16 then Some (own # parent) else None)"

record filter_outcome =
  hide :: bool
  protect :: bool

text \<open>One list of the chain: each side that is not decided yet takes the list's verdict. The state is the
  outcome with the two \<open>decided\<close> flags.\<close>

definition chain_list ::
  "allocator \<Rightarrow> filter_rule_list option \<Rightarrow> string \<Rightarrow> string \<Rightarrow> bool \<Rightarrow> bool \<times> bool \<times> filter_outcome \<Rightarrow>
   bool \<times> bool \<times> filter_outcome" where
  "chain_list mem l rel leaf is_dir st =
     (case st of (sender_decided, receiver_decided, out) \<Rightarrow>
      case l of
        None \<Rightarrow> st
      | Some _ \<Rightarrow>
          let sa = filter_rules_apply_side mem l rel leaf is_dir FILTER_SIDE_SENDER;
              s_now = (\<not> sender_decided \<and> sa \<noteq> FILTER_ACTION_NONE);
              out1 = (if s_now then out\<lparr>hide := (sa = FILTER_ACTION_EXCLUDE)\<rparr> else out);
              ra = filter_rules_apply_side mem l rel leaf is_dir FILTER_SIDE_RECEIVER;
              r_now = (\<not> receiver_decided \<and> ra \<noteq> FILTER_ACTION_NONE);
              out2 = (if r_now then out1\<lparr>protect := (ra = FILTER_ACTION_PROTECT)\<rparr> else out1)
          in (sender_decided \<or> s_now, receiver_decided \<or> r_now, out2))"

fun chain_loop ::
  "allocator \<Rightarrow> filter_rule_list option \<Rightarrow> string \<Rightarrow> string \<Rightarrow> bool \<Rightarrow> filter_chain \<Rightarrow>
   bool \<times> bool \<times> filter_outcome \<Rightarrow> filter_outcome" where
  "chain_loop mem base rel leaf is_dir [] (sd, rd, out) =
     (if sd \<and> rd then out else snd (snd (chain_list mem base rel leaf is_dir (sd, rd, out))))"
| "chain_loop mem base rel leaf is_dir (n # ns) (sd, rd, out) =
     (if sd \<and> rd then out
      else chain_loop mem base rel leaf is_dir ns (chain_list mem (Some n) rel leaf is_dir (sd, rd, out)))"

definition chain_rules_outcome ::
  "allocator \<Rightarrow> filter_rule_list option \<Rightarrow> filter_chain \<Rightarrow> string \<Rightarrow> string \<Rightarrow> bool \<Rightarrow> filter_outcome" where
  "chain_rules_outcome mem base node rel leaf is_dir =
     chain_loop mem base rel leaf is_dir node (False, False, \<lparr>hide = False, protect = False\<rparr>)"

text \<open>The result and \<open>*protect_out\<close>.\<close>

definition entry_allowed ::
  "allocator \<Rightarrow> filter_rule_list option \<Rightarrow> filter_chain \<Rightarrow> string \<Rightarrow> string \<Rightarrow> bool \<Rightarrow> bool \<Rightarrow> bool \<times> bool" where
  "entry_allowed mem base node rel leaf is_dir exclude_filter_files =
     (if exclude_filter_files \<and> \<not> is_dir \<and> leaf = ''.rsync-filter'' then (False, False)
      else let out = chain_rules_outcome mem base node rel leaf is_dir in (\<not> hide out, protect out))"

definition entry_passes_selection ::
  "allocator \<Rightarrow> xxh64 \<Rightarrow> file_list_set option \<Rightarrow> filter_rule_list option \<Rightarrow> filter_chain \<Rightarrow> string \<Rightarrow> string \<Rightarrow>
   bool \<Rightarrow> bool \<Rightarrow> bool \<Rightarrow> (bool \<times> bool) option" where
  "entry_passes_selection mem xxh file_list base node rel leaf is_dir per_dir exclude_filter_files =
     (case (case file_list of None \<Rightarrow> Some True | Some _ \<Rightarrow> file_list_affects xxh file_list rel) of
        None \<Rightarrow> None
      | Some False \<Rightarrow> Some (False, False)
      | Some True \<Rightarrow>
          if base \<noteq> None \<or> per_dir
          then Some (entry_allowed mem base node rel leaf is_dir exclude_filter_files)
          else Some (True, False))"

subsection \<open>Directory entries and links\<close>

record dir_entry =
  de_path :: string
  de_depth :: int
  de_context :: filter_chain

definition dir_entry_create :: "allocator \<Rightarrow> string \<Rightarrow> int \<Rightarrow> filter_chain \<Rightarrow> dir_entry option" where
  "dir_entry_create mem path depth ctx =
     (if \<not> mem 24 then None
      else case str_dup mem path of
        None \<Rightarrow> None
      | Some p \<Rightarrow> Some \<lparr>de_path = p, de_depth = depth, de_context = ctx\<rparr>)"

text \<open>The options the layer reads.\<close>

record scanner_options =
  follow_symlinks :: bool
  copy_links :: bool
  safe_links :: bool
  copy_unsafe_links :: bool
  copy_dirlinks :: bool
  munge_links :: bool
  exclude_patterns :: "string list"
  include_patterns :: "string list"
  max_size :: nat
  min_size :: nat
  base_filters :: "filter_rule_list option"
  per_dir_filters :: bool
  so_delete_excluded :: bool
  so_file_list :: "file_list_set option"
  relative_prefix :: "string option"

datatype file_kind = S_REG | S_DIR | S_LNK | S_CHR | S_BLK | S_FIFO | S_SOCK

record file_stat =
  st_kind :: file_kind
  st_size :: nat
  st_rdev_major :: int
  st_rdev_minor :: int

datatype link_action = LINK_ACTION_SKIP | LINK_ACTION_SKIP_PROTECTED | LINK_ACTION_DEREF | LINK_ACTION_CARRY

text \<open>\<open>readlink\<close> fills at most \<open>target_size - 1\<close> bytes. The second component is the target read.\<close>

definition scanner_link_action ::
  "(string \<Rightarrow> string option) \<Rightarrow> (string \<Rightarrow> file_stat option) \<Rightarrow> scanner_options \<Rightarrow> string \<Rightarrow> string \<Rightarrow> nat \<Rightarrow>
   link_action \<times> string" where
  "scanner_link_action readlink stat opts path link_rel tsize =
     (if \<not> follow_symlinks opts \<and> \<not> copy_links opts \<and> \<not> safe_links opts \<and> \<not> copy_unsafe_links opts \<and>
         \<not> copy_dirlinks opts then (LINK_ACTION_SKIP, [])
      else case readlink path of
        None \<Rightarrow> (LINK_ACTION_SKIP, [])
      | Some value \<Rightarrow>
          let target = take (tsize - 1) value; unsafe = file_symlink_unsafe target link_rel in
          if copy_links opts \<or> (copy_unsafe_links opts \<and> unsafe) then (LINK_ACTION_DEREF, target)
          else if copy_dirlinks opts \<and> (case stat path of None \<Rightarrow> False | Some s \<Rightarrow> st_kind s = S_DIR)
          then (LINK_ACTION_DEREF, target)
          else if safe_links opts \<and> (unsafe \<or> munge_links opts) then (LINK_ACTION_SKIP_PROTECTED, target)
          else if \<not> follow_symlinks opts \<or> target = [] then (LINK_ACTION_SKIP, target)
          else (LINK_ACTION_CARRY, target))"

definition scanner_same_filesystem :: "int \<Rightarrow> nat \<Rightarrow> nat \<Rightarrow> bool" where
  "scanner_same_filesystem one_file_system root_device entry_device \<longleftrightarrow>
     one_file_system \<le> 0 \<or> entry_device = root_device"

subsection \<open>Paths\<close>

definition strip_root :: "string \<Rightarrow> string" where
  "strip_root root = (if root = [] then [] else hd root # rev (dropWhile (\<lambda>c. c = SLASH) (rev (tl root))))"

definition scanner_path_relative :: "allocator \<Rightarrow> string \<Rightarrow> string \<Rightarrow> string option" where
  "scanner_path_relative mem root fs_path =
     (let r = strip_root root; root_len = length r in
      if take root_len fs_path \<noteq> r then None
      else if r = [SLASH] then
        (if char_at fs_path 1 = NUL then str_dup mem [] else str_dup mem (drop 1 fs_path))
      else if char_at fs_path root_len = NUL then str_dup mem []
      else if char_at fs_path root_len \<noteq> SLASH then None
      else str_dup mem (drop (root_len + 1) fs_path))"

text \<open>What follows the first occurrence of \<open>/./\<close>.\<close>

fun after_cut :: "string \<Rightarrow> string option" where
  "after_cut [] = None"
| "after_cut (c # cs) = (if take 3 (c # cs) = ''/./'' then Some (drop 3 (c # cs)) else after_cut cs)"

lemma prefix_rest_shorter:
  "s \<noteq> [] \<Longrightarrow> length (dropWhile (\<lambda>c. c \<noteq> SLASH) (dropWhile (\<lambda>c. c = SLASH) s)) < length s"
proof (cases s)
  case (Cons c s')
  have le: "length (dropWhile (\<lambda>c. c \<noteq> SLASH) t) \<le> length t" for t by (rule length_dropWhile_le)
  show ?thesis
  proof (cases "c = SLASH")
    case True
    have "length (dropWhile (\<lambda>c. c = SLASH) s') \<le> length s'" by (rule length_dropWhile_le)
    with le [of "dropWhile (\<lambda>c. c = SLASH) s'"] show ?thesis using Cons True by simp
  next
    case False
    then show ?thesis using Cons le [of s'] by simp
  qed
qed simp

function prefix_loop :: "string \<Rightarrow> string \<Rightarrow> string" where
  "prefix_loop out s =
     (if s = [] then out
      else let s1 = dropWhile (\<lambda>c. c = SLASH) s; comp = takeWhile (\<lambda>c. c \<noteq> SLASH) s1;
               rest = dropWhile (\<lambda>c. c \<noteq> SLASH) s1
        in if comp = [] \<or> comp = ''.'' then prefix_loop out rest
           else prefix_loop ((if out \<noteq> [] then out @ [SLASH] else out) @ comp) rest)"
  by pat_completeness auto

termination
  by (relation "measure (\<lambda>(_, s). length s)") (auto intro: prefix_rest_shorter)

declare prefix_loop.simps [simp del]

definition scanner_relative_prefix :: "allocator \<Rightarrow> string \<Rightarrow> string option" where
  "scanner_relative_prefix mem spec =
     (if spec = [] then None
      else let after = (if take 2 spec = ''./'' then drop 2 spec
                        else case after_cut spec of Some a \<Rightarrow> a | None \<Rightarrow> spec)
        in if \<not> mem (length spec + 1) then None else Some (prefix_loop [] after))"

definition child_rel_path :: "allocator \<Rightarrow> string option \<Rightarrow> string \<Rightarrow> string option" where
  "child_rel_path mem parent_rel name =
     (case parent_rel of
        None \<Rightarrow> str_dup mem name
      | Some p \<Rightarrow> if p = [] then str_dup mem name else path_cat mem (Some p) (Some name))"

definition scanner_prefix_send_path :: "allocator \<Rightarrow> string \<Rightarrow> string \<Rightarrow> string option" where
  "scanner_prefix_send_path mem prefix rel =
     (if prefix = [] then str_dup mem rel
      else if rel = [] then str_dup mem prefix
      else path_cat mem (Some prefix) (Some rel))"

subsection \<open>Special files and hard links\<close>

record scan_file =
  is_special :: bool
  data_size :: nat
  has_data :: bool
  rdev_major :: int
  rdev_minor :: int
  wire_path :: string
  link_group :: int
  link_first :: bool
  hardlink_target :: "string option"

datatype scanner_special = SCANNER_SPECIAL_REGULAR | SCANNER_SPECIAL_RECREATE | SCANNER_SPECIAL_SKIP

definition scanner_prepare_special ::
  "bool \<Rightarrow> bool \<Rightarrow> bool \<Rightarrow> scan_file \<Rightarrow> file_stat \<Rightarrow> scanner_special \<times> scan_file" where
  "scanner_prepare_special preserve_devices preserve_specials copy_devices f stats =
     (let is_device = (st_kind stats = S_CHR \<or> st_kind stats = S_BLK);
          is_fifo = (st_kind stats = S_FIFO); is_socket = (st_kind stats = S_SOCK)
      in if \<not> is_device \<and> \<not> is_fifo \<and> \<not> is_socket then (SCANNER_SPECIAL_REGULAR, f)
         else if is_device \<and> copy_devices then (SCANNER_SPECIAL_REGULAR, f)
         else if \<not> (if is_device then preserve_devices else preserve_specials) then (SCANNER_SPECIAL_SKIP, f)
         else let f' = f\<lparr>is_special := True, data_size := 0, has_data := False\<rparr> in
           (SCANNER_SPECIAL_RECREATE,
            if is_device then f'\<lparr>rdev_major := st_rdev_major stats, rdev_minor := st_rdev_minor stats\<rparr> else f'))"

text \<open>The result: the table, the file and whether the scanner is marked failed.\<close>

definition scanner_assign_hardlink ::
  "(nat \<Rightarrow> allocator) \<Rightarrow> bool \<Rightarrow> hardlink_table \<Rightarrow> scan_file \<Rightarrow> nat \<Rightarrow> nat \<Rightarrow> hardlink_table \<times> scan_file \<times> bool" where
  "scanner_assign_hardlink mem lock_ok t f dev ino =
     (case hardlink_table_assign mem lock_ok t (wire_path f) dev ino of
        (t', None) \<Rightarrow> (t', f, True)
      | (t', Some (g, is_first, first_path)) \<Rightarrow>
          let f1 = f\<lparr>link_group := g, link_first := is_first\<rparr> in
          (t', if is_first then f1 else f1\<lparr>hardlink_target := Some first_path, data_size := 0\<rparr>, False))"

subsection \<open>The delete-protection lists\<close>

definition excluded_sink_append :: "allocator \<Rightarrow> string array_list option \<Rightarrow> string \<Rightarrow> bool \<times> string array_list option" where
  "excluded_sink_append mem sink rel =
     (case sink of
        None \<Rightarrow> (True, None)
      | Some l \<Rightarrow>
          (case str_dup mem rel of
             None \<Rightarrow> (False, sink)
           | Some dup \<Rightarrow> (case array_list_add mem l dup of (ok, l') \<Rightarrow> (ok, Some l'))))"

text \<open>The scanner's state as this layer changes it.\<close>

record dir_scanner =
  failed :: bool
  current_node :: filter_chain
  filter_nodes :: "filter_chain array_list"
  excluded_paths :: "string array_list option"
  size_skipped_paths :: "string array_list option"
  synced_dirs :: "string array_list option"
  plan_dirs :: "string array_list option"

definition drop_slash :: "string \<Rightarrow> string" where
  "drop_slash p = (if p \<noteq> [] \<and> hd p = SLASH then tl p else p)"

definition scanner_record_protected ::
  "allocator \<Rightarrow> string array_list option \<Rightarrow> string \<Rightarrow> bool \<times> string array_list option" where
  "scanner_record_protected mem sink fs_path = excluded_sink_append mem sink (drop_slash fs_path)"

definition scanner_record_excluded :: "allocator \<Rightarrow> dir_scanner \<Rightarrow> string \<Rightarrow> dir_scanner" where
  "scanner_record_excluded mem sc fs_path =
     (case scanner_record_protected mem (excluded_paths sc) fs_path of
        (ok, sink) \<Rightarrow> sc\<lparr>excluded_paths := sink, failed := failed sc \<or> \<not> ok\<rparr>)"

definition scanner_record_size_skipped :: "allocator \<Rightarrow> dir_scanner \<Rightarrow> string \<Rightarrow> dir_scanner" where
  "scanner_record_size_skipped mem sc fs_path =
     (case scanner_record_protected mem (size_skipped_paths sc) fs_path of
        (ok, sink) \<Rightarrow> sc\<lparr>size_skipped_paths := sink, failed := failed sc \<or> \<not> ok\<rparr>)"

text \<open>The wire form of a synchronised directory: \<open>.\<close> for the receive root. \<open>None\<close> is a refused
  allocation.\<close>

definition synced_dest :: "allocator \<Rightarrow> string option \<Rightarrow> string \<Rightarrow> string \<Rightarrow> bool \<Rightarrow> string option" where
  "synced_dest mem prefix fs_path rel relative_mode =
     map_option (\<lambda>dest. let d = drop_slash dest in if d = [] then ''.'' else d)
       (if relative_mode then Some rel
        else case prefix of
          Some p \<Rightarrow> scanner_prefix_send_path mem p rel
        | None \<Rightarrow> Some fs_path)"

definition scanner_record_synced_dir ::
  "allocator \<Rightarrow> xxh64 \<Rightarrow> scanner_options \<Rightarrow> dir_scanner \<Rightarrow> string \<Rightarrow> string \<Rightarrow> bool \<Rightarrow> (bool \<times> dir_scanner) option" where
  "scanner_record_synced_dir mem xxh opts sc fs_path rel relative_mode =
     (if synced_dirs sc = None \<and> plan_dirs sc = None then Some (True, sc)
      else case file_list_dir_in_scope xxh (so_file_list opts) rel of
        None \<Rightarrow> None
      | Some False \<Rightarrow> Some (True, sc)
      | Some True \<Rightarrow>
          (case synced_dest mem (relative_prefix opts) fs_path rel relative_mode of
             None \<Rightarrow> Some (False, sc)
           | Some dest \<Rightarrow>
               let (ok1, s1) = excluded_sink_append mem (synced_dirs sc) dest;
                   sc1 = sc\<lparr>synced_dirs := s1\<rparr>
               in if ok1 \<and> dest \<noteq> ''.'' then
                    let (ok2, s2) = excluded_sink_append mem (plan_dirs sc1) dest
                    in Some (ok2, sc1\<lparr>plan_dirs := s2\<rparr>)
                  else Some (ok1, sc1)))"

subsection \<open>Per-directory filters\<close>

fun append_dir_merges ::
  "allocator \<Rightarrow> (string \<Rightarrow> string option) \<Rightarrow> filter_parse_options option \<Rightarrow> string \<Rightarrow> string \<Rightarrow> string list \<Rightarrow>
   bool \<Rightarrow> filter_rule_list \<Rightarrow> filter_error + (bool \<times> filter_rule_list)" where
  "append_dir_merges mem fopen opts dir_path rel [] any own = Inr (any, own)"
| "append_dir_merges mem fopen opts dir_path rel (name # names) any own =
     (case filter_file_append mem fopen own dir_path name (Some rel) opts of
        (Some e, ex, own') \<Rightarrow> Inl e
      | (None, ex, own') \<Rightarrow> append_dir_merges mem fopen opts dir_path rel names (any \<or> ex) own')"

text \<open>\<open>Inr None\<close>: there is nothing to read, \<open>NULL\<close> without an error. \<open>Inr (Some (any_exists, list))\<close>
  otherwise.\<close>

definition read_dir_filters ::
  "allocator \<Rightarrow> (string \<Rightarrow> string option) \<Rightarrow> scanner_options \<Rightarrow> string \<Rightarrow> string \<Rightarrow>
   filter_error + (bool \<times> filter_rule_list) option" where
  "read_dir_filters mem fopen opts dir_path rel =
     (let names = (if per_dir_filters opts then [''.rsync-filter''] else []) @
                  (case base_filters opts of None \<Rightarrow> [] | Some b \<Rightarrow> dir_merge_names b);
          popts = Some \<lparr>delete_excluded = so_delete_excluded opts, cvs_exclude = False\<rparr>
      in if names = [] then Inr None
         else case filter_rule_list_create mem of
           None \<Rightarrow> Inl NoMemory
         | Some own \<Rightarrow>
             (case append_dir_merges mem fopen popts dir_path rel names False own of
                Inl e \<Rightarrow> Inl e
              | Inr r \<Rightarrow> Inr (Some r)))"

definition open_directory_filter_context ::
  "allocator \<Rightarrow> (string \<Rightarrow> string option) \<Rightarrow> scanner_options \<Rightarrow> dir_scanner \<Rightarrow> string \<Rightarrow> string \<Rightarrow> filter_chain \<Rightarrow>
   int \<times> dir_scanner" where
  "open_directory_filter_context mem fopen opts sc current_path current_rel inherited =
     (case read_dir_filters mem fopen opts current_path current_rel of
        Inl e \<Rightarrow> (-1, sc\<lparr>failed := True\<rparr>)
      | Inr None \<Rightarrow> (0, sc\<lparr>current_node := inherited\<rparr>)
      | Inr (Some (any_exists, own)) \<Rightarrow>
          if any_exists \<and> (Filter_Rules.items own \<noteq> [] \<or> dir_merge_names own \<noteq> []) then
            (case filter_node_alloc mem inherited own of
               None \<Rightarrow> (-1, sc\<lparr>failed := True\<rparr>)
             | Some node \<Rightarrow>
                 (case array_list_add mem (filter_nodes sc) node of
                    (False, nodes) \<Rightarrow> (-1, sc\<lparr>filter_nodes := nodes, failed := True\<rparr>)
                  | (True, nodes) \<Rightarrow> (0, sc\<lparr>filter_nodes := nodes, current_node := node\<rparr>)))
          else (0, sc\<lparr>current_node := inherited\<rparr>))"

subsection \<open>Inspecting an entry\<close>

record scanner_entry =
  se_path :: "string option"
  se_stats :: "file_stat option"
  is_directory :: bool
  se_is_symlink :: bool
  link_target :: "string option"
  excluded :: bool
  size_excluded :: bool
  referent_error :: bool

definition skip_entry :: "scanner_entry \<Rightarrow> int \<times> scanner_entry" where
  "skip_entry e = (0, e\<lparr>se_path := None, link_target := None\<rparr>)"

text \<open>The exclude and include patterns and the size limits; \<open>size\<close> is \<open>st_size\<close> as an unsigned number.\<close>

definition apply_filters :: "allocator \<Rightarrow> scanner_options \<Rightarrow> string \<Rightarrow> nat \<Rightarrow> scanner_entry \<Rightarrow> int \<times> scanner_entry" where
  "apply_filters mem opts name sz e =
     (if list_ex (\<lambda>p. glob_match mem p name) (exclude_patterns opts) then skip_entry (e\<lparr>excluded := True\<rparr>)
      else if include_patterns opts \<noteq> [] \<and> \<not> list_ex (\<lambda>p. glob_match mem p name) (include_patterns opts)
      then skip_entry (e\<lparr>excluded := True\<rparr>)
      else if (0 < max_size opts \<and> max_size opts < sz) \<or> (0 < min_size opts \<and> sz < min_size opts)
      then skip_entry (e\<lparr>excluded := True, size_excluded := True\<rparr>)
      else (1, e))"

definition scanner_inspect_entry ::
  "allocator \<Rightarrow> (string \<Rightarrow> file_stat option) \<Rightarrow> (string \<Rightarrow> file_stat option) \<Rightarrow> (string \<Rightarrow> string option) \<Rightarrow>
   scanner_options \<Rightarrow> string \<Rightarrow> string \<Rightarrow> string \<Rightarrow> int \<times> scanner_entry" where
  "scanner_inspect_entry mem lstat stat readlink opts containing_dir link_rel name =
     (let e0 = \<lparr>se_path = None, se_stats = None, is_directory = False, se_is_symlink = False,
                link_target = None, excluded = False, size_excluded = False, referent_error = False\<rparr>
      in case path_cat mem (Some containing_dir) (Some name) of
        None \<Rightarrow> (-1, e0)
      | Some path \<Rightarrow>
          (case lstat path of
             None \<Rightarrow> (0, e0)
           | Some link_stats \<Rightarrow>
               let e = e0\<lparr>se_path := Some path\<rparr> in
               if st_kind link_stats \<noteq> S_LNK then
                 let e1 = e\<lparr>se_stats := Some link_stats, is_directory := (st_kind link_stats = S_DIR)\<rparr> in
                 if is_directory e1 then (1, e1) else apply_filters mem opts name (st_size link_stats) e1
               else case scanner_link_action readlink stat opts path link_rel 4096 of
                 (LINK_ACTION_SKIP, target) \<Rightarrow> skip_entry e
               | (LINK_ACTION_SKIP_PROTECTED, target) \<Rightarrow> skip_entry (e\<lparr>excluded := True\<rparr>)
               | (LINK_ACTION_DEREF, target) \<Rightarrow>
                   (case stat path of
                      None \<Rightarrow> skip_entry (e\<lparr>referent_error := True\<rparr>)
                    | Some s \<Rightarrow>
                        let e1 = e\<lparr>se_stats := Some s, is_directory := (st_kind s = S_DIR)\<rparr> in
                        if is_directory e1 then (1, e1) else apply_filters mem opts name (st_size s) e1)
               | (LINK_ACTION_CARRY, target) \<Rightarrow>
                   let e1 = e\<lparr>se_is_symlink := True, se_stats := Some link_stats\<rparr> in
                   (case str_dup mem target of
                      None \<Rightarrow> skip_entry e1
                    | Some t \<Rightarrow>
                        apply_filters mem opts name (st_size link_stats)
                          (e1\<lparr>link_target := Some (if munge_links opts then snd (file_symlink_unmunge t) else t)\<rparr>))))"

section \<open>The chain decides by the first match\<close>

lemma apply_rules_append:
  "apply_rules mem (xs @ ys) rel leaf is_dir side =
     (let a = apply_rules mem xs rel leaf is_dir side in
      if a \<noteq> FILTER_ACTION_NONE then a else apply_rules mem ys rel leaf is_dir side)"
  by (induction xs) (auto simp: Let_def)

text \<open>All the rules of a chain in the order of their precedence.\<close>

definition chain_rules :: "filter_rule_list option \<Rightarrow> filter_chain \<Rightarrow> filter_rule list" where
  "chain_rules base node = concat (map Filter_Rules.items node) @
     (case base of None \<Rightarrow> [] | Some b \<Rightarrow> Filter_Rules.items b)"

text \<open>What the loop's state says about the rules it has passed, \<open>seen\<close>.\<close>

definition chain_state ::
  "allocator \<Rightarrow> string \<Rightarrow> string \<Rightarrow> bool \<Rightarrow> filter_rule list \<Rightarrow> bool \<times> bool \<times> filter_outcome" where
  "chain_state mem rel leaf is_dir seen =
     (let s = apply_rules mem seen rel leaf is_dir FILTER_SIDE_SENDER;
          r = apply_rules mem seen rel leaf is_dir FILTER_SIDE_RECEIVER
      in (s \<noteq> FILTER_ACTION_NONE, r \<noteq> FILTER_ACTION_NONE,
          \<lparr>hide = (s = FILTER_ACTION_EXCLUDE), protect = (r = FILTER_ACTION_PROTECT)\<rparr>))"

lemma chain_list_state:
  "chain_list mem (Some l) rel leaf is_dir (chain_state mem rel leaf is_dir seen) =
   chain_state mem rel leaf is_dir (seen @ Filter_Rules.items l)"
  by (simp add: chain_list_def chain_state_def filter_rules_apply_side_def apply_rules_append Let_def)

lemma chain_state_decided:
  assumes "fst (chain_state mem rel leaf is_dir seen)" and "fst (snd (chain_state mem rel leaf is_dir seen))"
  shows "chain_state mem rel leaf is_dir (seen @ rs) = chain_state mem rel leaf is_dir seen"
  using assms by (simp add: chain_state_def apply_rules_append Let_def)

lemma chain_loop_state:
  "chain_loop mem base rel leaf is_dir node (chain_state mem rel leaf is_dir seen) =
   snd (snd (chain_state mem rel leaf is_dir (seen @ chain_rules base node)))"
proof (induction node arbitrary: seen)
  case Nil
  obtain sd rd out where st: "chain_state mem rel leaf is_dir seen = (sd, rd, out)" by (metis prod_cases3)
  show ?case
  proof (cases base)
    case None
    then show ?thesis by (simp add: st chain_rules_def chain_list_def)
  next
    case (Some b)
    then show ?thesis
      using chain_state_decided [of mem rel leaf is_dir seen "Filter_Rules.items b"]
        chain_list_state [of mem b rel leaf is_dir seen]
      by (simp add: st chain_rules_def)
  qed
next
  case (Cons n ns)
  obtain sd rd out where st: "chain_state mem rel leaf is_dir seen = (sd, rd, out)" by (metis prod_cases3)
  show ?case
    using chain_state_decided [of mem rel leaf is_dir seen "chain_rules base (n # ns)"]
      chain_list_state [of mem n rel leaf is_dir seen] Cons.IH [of "seen @ Filter_Rules.items n"]
    by (simp add: st) (simp add: chain_rules_def)
qed

lemma chain_first_match:
  "chain_rules_outcome mem base node rel leaf is_dir =
     \<lparr>hide = (apply_rules mem (chain_rules base node) rel leaf is_dir FILTER_SIDE_SENDER = FILTER_ACTION_EXCLUDE),
      protect = (apply_rules mem (chain_rules base node) rel leaf is_dir FILTER_SIDE_RECEIVER = FILTER_ACTION_PROTECT)\<rparr>"
proof -
  have "chain_state mem rel leaf is_dir [] = (False, False, \<lparr>hide = False, protect = False\<rparr>)"
    by (simp add: chain_state_def)
  then show ?thesis
    using chain_loop_state [of mem base rel leaf is_dir node "[]"]
    by (simp add: chain_rules_outcome_def chain_state_def Let_def)
qed

section \<open>Paths below the root\<close>

lemma strip_root_one:
  assumes "root \<noteq> []" and "butlast root = [] \<or> last (butlast root) \<noteq> SLASH"
  shows "strip_root root = (if last root = SLASH \<and> butlast root \<noteq> [] then butlast root else root)"
proof (cases root)
  case (Cons c cs)
  show ?thesis
  proof (cases cs rule: rev_cases)
    case Nil
    then show ?thesis using Cons by (simp add: strip_root_def)
  next
    case (snoc ds d)
    then show ?thesis using Cons assms by (cases ds rule: rev_cases) (auto simp: strip_root_def butlast_append split: if_splits)
  qed
qed (use assms in simp)

lemma path_relative_below:
  assumes root: "root \<noteq> []" "butlast root = [] \<or> last (butlast root) \<noteq> SLASH"
    and rel: "rel \<noteq> []" "hd rel \<noteq> SLASH" "cstring rel" and mem: "\<forall>n. mem n"
    and p: "path_cat mem (Some root) (Some rel) = Some p"
  shows "scanner_path_relative mem root p = Some rel"
proof -
  let ?r = "if last root = SLASH then butlast root else root"
  have p: "p = ?r @ SLASH # rel" using p root(1) rel by (auto simp: path_cat_def Let_def split: if_splits)
  obtain c rel' where c: "rel = c # rel'" "c \<noteq> NUL" using rel by (cases rel) (auto simp: cstring_def)
  show ?thesis
  proof (cases "root = [SLASH]")
    case True
    then have "p = SLASH # rel" by (simp add: p)
    moreover have "char_at (SLASH # rel) 1 = c" by (simp add: char_at_def c(1))
    ultimately show ?thesis using True c mem
      by (simp add: scanner_path_relative_def strip_root_def str_dup_def)
  next
    case False
    then have r: "strip_root root = ?r" using strip_root_one [OF root] root(1)
      by (cases root rule: rev_cases) (auto split: if_splits)
    have ne: "?r \<noteq> [SLASH]" using root False by (cases root rule: rev_cases) (auto split: if_splits)
    have at: "char_at (?r @ SLASH # rel) (length ?r) = SLASH" by (simp add: char_at_def)
    have "take (length ?r) (?r @ SLASH # rel) = ?r" "drop (length ?r + 1) (?r @ SLASH # rel) = rel" by simp_all
    then show ?thesis unfolding scanner_path_relative_def r p Let_def
      using ne at mem by (simp add: str_dup_def NUL_def del: take_append drop_append)
  qed
qed

section \<open>Carried links\<close>

lemma apply_filters_keeps:
  "apply_filters mem opts name sz e = (1, e') \<Longrightarrow> e' = e"
  by (auto simp: apply_filters_def skip_entry_def split: if_splits)

lemma carry_is_safe:
  assumes "scanner_link_action readlink stat opts path link_rel n = (LINK_ACTION_CARRY, target)" and "safe_links opts"
  shows "\<not> file_symlink_unsafe target link_rel \<and> \<not> munge_links opts"
  using assms by (auto simp: scanner_link_action_def Let_def split: if_splits option.splits)

lemma inspect_carried:
  assumes "scanner_inspect_entry mem lstat stat readlink opts dir link_rel name = (1, e)" and "se_is_symlink e"
  obtains path target where "scanner_link_action readlink stat opts path link_rel 4096 = (LINK_ACTION_CARRY, target)"
    and "link_target e = Some (if munge_links opts then snd (file_symlink_unmunge target) else target)"
proof -
  from assms(1) obtain path ls where ls: "path_cat mem (Some dir) (Some name) = Some path" "lstat path = Some ls"
    by (auto simp: scanner_inspect_entry_def Let_def split: option.splits)
  obtain a target where a: "scanner_link_action readlink stat opts path link_rel 4096 = (a, target)" by fastforce
  have "a = LINK_ACTION_CARRY \<and>
      link_target e = Some (if munge_links opts then snd (file_symlink_unmunge target) else target)"
    using assms ls a
    by (cases a)
      (auto simp: scanner_inspect_entry_def Let_def skip_entry_def str_dup_def
        dest!: apply_filters_keeps split: if_splits option.splits)
  then show ?thesis using that a by simp
qed

section \<open>Properties\<close>

text \<open>C24: The filter chain decides by the first matching rule, separately for the two sides. The loop that
  walks the per-directory lists from the innermost directory outwards and the command-line rules
  last, stopping once both sides are decided, gives the verdicts of a single first-match search
  through all these rules in that order.\<close>

theorem chain_outcome_first_match:
  "chain_rules_outcome mem base node rel leaf is_dir =
     \<lparr>hide = (apply_rules mem (chain_rules base node) rel leaf is_dir FILTER_SIDE_SENDER = FILTER_ACTION_EXCLUDE),
      protect = (apply_rules mem (chain_rules base node) rel leaf is_dir FILTER_SIDE_RECEIVER = FILTER_ACTION_PROTECT)\<rparr>"
  by (rule chain_first_match)

text \<open>C25: Under \<open>--safe-links\<close> no transferred link points out of the tree. When the inspection of an entry
  accepts it as a symlink, the target it sends is the one read, is relative, and followed from the
  link's own directory never climbs above the transfer root.\<close>

theorem safe_links_carried_inside:
  assumes "scanner_inspect_entry mem lstat stat readlink opts dir (join_slash (ds @ [nm])) name = (1, e)"
    and "se_is_symlink e" and "safe_links opts" and "list_all plain_name (ds @ [nm])"
  shows "\<exists>target path. link_target e = Some target \<and> map_option (take 4095) (readlink path) = Some target \<and>
    hd target \<noteq> SLASH \<and> climb (int (length ds)) (components target) \<noteq> None"
proof -
  obtain path target where c: "scanner_link_action readlink stat opts path (join_slash (ds @ [nm])) 4096 =
      (LINK_ACTION_CARRY, target)"
    and t: "link_target e = Some (if munge_links opts then snd (file_symlink_unmunge target) else target)"
    using inspect_carried [OF assms(1,2)] by blast
  have "map_option (take 4095) (readlink path) = Some target"
    using c by (auto simp: scanner_link_action_def Let_def split: if_splits option.splits)
  then show ?thesis
    using carry_is_safe [OF c assms(3)] t symlink_unsafe_iff [OF assms(4), of target] by auto
qed

theorem safe_links_carried_inside_witness:
  "\<exists>opts e. safe_links opts \<and>
    scanner_inspect_entry (\<lambda>_. True) (\<lambda>_. Some \<lparr>st_kind = S_LNK, st_size = 4, st_rdev_major = 0, st_rdev_minor = 0\<rparr>)
      (\<lambda>_. None) (\<lambda>_. Some ''../x'') opts ''/src/a'' ''a/link'' ''link'' = (1, e) \<and>
    (\<exists>target. link_target e = Some target \<and> climb 1 (components target) \<noteq> None)"
proof -
  let ?opts = "\<lparr>follow_symlinks = True, copy_links = False, safe_links = True, copy_unsafe_links = False,
    copy_dirlinks = False, munge_links = False, exclude_patterns = [], include_patterns = [], max_size = 0,
    min_size = 0, base_filters = None, per_dir_filters = False, so_delete_excluded = False,
    so_file_list = None, relative_prefix = None\<rparr>"
  let ?st = "\<lparr>st_kind = S_LNK, st_size = 4, st_rdev_major = 0, st_rdev_minor = 0\<rparr>"
  let ?e = "\<lparr>se_path = Some ''/src/a/link'', se_stats = Some ?st, is_directory = False, se_is_symlink = True,
    link_target = Some ''../x'', excluded = False, size_excluded = False, referent_error = False\<rparr>"
  have u: "\<not> file_symlink_unsafe ''../x'' ''a/link''" by code_simp
  have i: "scanner_inspect_entry (\<lambda>_. True) (\<lambda>_. Some ?st) (\<lambda>_. None) (\<lambda>_. Some ''../x'') ?opts
      ''/src/a'' (join_slash ([''a''] @ [''link''])) ''link'' = (1, ?e)"
    using u by (simp add: scanner_inspect_entry_def path_cat_def SIZE_MAX_def scanner_link_action_def
        str_dup_def apply_filters_def)
  have "list_all plain_name ([''a''] @ [''link''])" by (simp add: plain_name_def)
  from safe_links_carried_inside [OF i _ _ this] have "\<exists>target. link_target ?e = Some target \<and>
      climb 1 (components target) \<noteq> None" by auto
  then show ?thesis using i by (intro exI [of _ ?opts] exI [of _ ?e]) simp
qed

end
