(* ===== verification/Metadata.thy ===== *)
theory Metadata
  imports Prelude
begin

text \<open>
  File metadata on the wire, \<open>src/src/shared/metadata.c\<close>: the packed record of
  \<open>metadata_to_buf\<close> and \<open>metadata_from_buf\<close>, its framing by \<open>metadata_send\<close> and
  \<open>metadata_receive\<close>, the comparison of modification times within a window, and the rule that
  decides which mode the receiver applies. \<open>mode_t\<close>, \<open>uid_t\<close> and \<open>gid_t\<close> are 32 bits wide,
  \<open>time_t\<close> and \<open>long\<close> 64; a signed field is read with \<open>sint\<close>. A descriptor is the bytes still to
  be read from it.
\<close>

section \<open>Definitions\<close>

record file_metadata =
  mode :: u32
  uid :: u32
  gid :: u32
  mtime_sec :: u64
  mtime_nsec :: u64
  atime_valid :: bool
  atime_sec :: u64
  atime_nsec :: u64
  crtime_valid :: bool
  crtime_sec :: u64
  crtime_nsec :: u64

definition FILE_METADATA_WIRE_SIZE :: nat where
  "FILE_METADATA_WIRE_SIZE = 4 * 5 + 8 * 6"

text \<open>The bytes written at the cursor.\<close>

definition metadata_to_buf :: "file_metadata option \<Rightarrow> buffer" where
  "metadata_to_buf md =
     (case md of
        None \<Rightarrow> enc_u32 0
      | Some m \<Rightarrow>
          enc_u32 1 @ enc_u32 (mode m) @ enc_u32 (uid m) @ enc_u32 (gid m) @
          enc_u64 (mtime_sec m) @ enc_u64 (mtime_nsec m) @
          enc_u32 (if atime_valid m then 1 else 0) @ enc_u64 (atime_sec m) @ enc_u64 (atime_nsec m) @
          enc_u32 (if crtime_valid m then 1 else 0) @ enc_u64 (crtime_sec m) @ enc_u64 (crtime_nsec m))"

text \<open>The test on a nanosecond field.\<close>

definition nsec_ok :: "u64 \<Rightarrow> bool" where
  "nsec_ok w \<longleftrightarrow> \<not> (sint w < 0 \<or> 1000000000 \<le> sint w)"

text \<open>The decoder: the fields stand at fixed offsets behind the presence flag; they are checked after
  all of them have been read.\<close>

definition metadata_from_buf :: "allocator \<Rightarrow> buffer \<Rightarrow> file_metadata option" where
  "metadata_from_buf mem buf =
     (if length buf < 4 then None
      else if dec_u32 buf \<noteq> 1 then None
      else if length buf < 4 + FILE_METADATA_WIRE_SIZE then None
      else if \<not> mem 80 then None
      else
        let w_mode = dec_u32 (drop 4 buf); w_uid = dec_u32 (drop 8 buf); w_gid = dec_u32 (drop 12 buf);
            w_mtime_sec = dec_u64 (drop 16 buf); w_mtime_nsec = dec_u64 (drop 24 buf);
            w_atime_valid = dec_u32 (drop 32 buf);
            w_atime_sec = dec_u64 (drop 36 buf); w_atime_nsec = dec_u64 (drop 44 buf);
            w_crtime_valid = dec_u32 (drop 52 buf);
            w_crtime_sec = dec_u64 (drop 56 buf); w_crtime_nsec = dec_u64 (drop 64 buf)
        in if \<not> nsec_ok w_mtime_nsec \<or> sint w_mode < 0 \<or> sint w_uid < 0 \<or> sint w_gid < 0 \<or>
              sint w_atime_valid < 0 \<or> 1 < sint w_atime_valid \<or>
              sint w_crtime_valid < 0 \<or> 1 < sint w_crtime_valid \<or>
              (w_atime_valid \<noteq> 0 \<and> \<not> nsec_ok w_atime_nsec) \<or>
              (w_crtime_valid \<noteq> 0 \<and> \<not> nsec_ok w_crtime_nsec) then None
           else Some \<lparr>mode = w_mode, uid = w_uid, gid = w_gid,
                      mtime_sec = w_mtime_sec, mtime_nsec = w_mtime_nsec,
                      atime_valid = (w_atime_valid \<noteq> 0), atime_sec = w_atime_sec, atime_nsec = w_atime_nsec,
                      crtime_valid = (w_crtime_valid \<noteq> 0), crtime_sec = w_crtime_sec,
                      crtime_nsec = w_crtime_nsec\<rparr>)"

text \<open>The bytes handed to \<open>send_n_data\<close>, in one call.\<close>

definition metadata_send :: "file_metadata option \<Rightarrow> buffer" where
  "metadata_send md = (case md of None \<Rightarrow> enc_u32 0 | Some m \<Rightarrow> metadata_to_buf (Some m))"

text \<open>\<open>receive_n_data\<close> fails when the stream ends early. \<open>None\<close> is \<open>*ok = 0\<close>; otherwise the metadata,
  which may be absent, and the unread bytes.\<close>

definition metadata_receive :: "allocator \<Rightarrow> buffer \<Rightarrow> (file_metadata option \<times> buffer) option" where
  "metadata_receive mem fd =
     (case get_u32 fd of
        None \<Rightarrow> None
      | Some (present, rest) \<Rightarrow>
          if present = 0 then Some (None, rest)
          else if present \<noteq> 1 then None
          else (case get_bytes FILE_METADATA_WIRE_SIZE rest of
                  None \<Rightarrow> None
                | Some (body, rest') \<Rightarrow>
                    (case metadata_from_buf mem (enc_u32 present @ body) of
                       None \<Rightarrow> None
                     | Some m \<Rightarrow> Some (Some m, rest'))))"

text \<open>The comparison of modification times. A signed subtraction whose result does not fit 64 bits has no
  defined value: \<open>None\<close>.\<close>

definition i64 :: "int \<Rightarrow> bool" where
  "i64 x \<longleftrightarrow> - (2 ^ 63) \<le> x \<and> x < 2 ^ 63"

definition metadata_mtime_matches :: "int \<Rightarrow> int \<Rightarrow> int \<Rightarrow> int \<Rightarrow> int \<Rightarrow> bool option" where
  "metadata_mtime_matches left left_nsec right right_nsec modify_window =
     (let fwd = (right < left \<or> (left = right \<and> right_nsec \<le> left_nsec));
          seconds = (if fwd then left - right else right - left);
          nanoseconds = (if fwd then left_nsec - right_nsec else right_nsec - left_nsec)
      in if \<not> i64 seconds \<or> \<not> i64 nanoseconds then None
         else let (seconds, nanoseconds) =
                (if nanoseconds < 0 then (seconds - 1, nanoseconds + 1000000000) else (seconds, nanoseconds))
           in if modify_window = 0 then Some (left = right)
              else Some (seconds < modify_window \<or> (seconds = modify_window \<and> nanoseconds = 0)))"

subsection \<open>The mode rule\<close>

record file_attr_policy =
  perms :: bool
  times :: bool
  atimes :: bool
  executability :: bool
  super_permitted :: bool

datatype super_mode = SUPER_MODE_AUTO | SUPER_MODE_ON | SUPER_MODE_OFF

definition privilege_super_mode_permitted :: "super_mode \<Rightarrow> bool" where
  "privilege_super_mode_permitted m \<longleftrightarrow> m \<noteq> SUPER_MODE_OFF"

text \<open>The options the policy is built from.\<close>

record attr_config =
  preserve_perms :: bool
  preserve_times :: bool
  preserve_atimes :: bool
  use_executability :: bool
  c_super_mode :: super_mode

definition file_attr_policy_from_config :: "attr_config option \<Rightarrow> file_attr_policy" where
  "file_attr_policy_from_config config =
     (case config of
        None \<Rightarrow> \<lparr>perms = False, times = False, atimes = False, executability = False, super_permitted = False\<rparr>
      | Some c \<Rightarrow> \<lparr>perms = preserve_perms c, times = preserve_times c, atimes = preserve_atimes c,
                   executability = use_executability c,
                   super_permitted = privilege_super_mode_permitted (c_super_mode c)\<rparr>)"

text \<open>Octal \<open>07000\<close>, \<open>0777\<close>, \<open>0111\<close> and \<open>0444\<close>.\<close>

definition special_bits :: u32 where
  "special_bits = 0xE00"

definition perm_bits :: u32 where
  "perm_bits = 0x1FF"

definition execute_bits :: u32 where
  "execute_bits = 0x49"

definition read_bits :: u32 where
  "read_bits = 0x124"

text \<open>\<open>Some\<close> is the result \<open>true\<close> with the mode stored.\<close>

definition metadata_mode_for_policy :: "u32 \<Rightarrow> u32 \<Rightarrow> file_attr_policy \<Rightarrow> u32 option" where
  "metadata_mode_for_policy source_mode current_mode policy =
     (if perms policy then
        (let bits = source_mode AND (special_bits OR perm_bits) in
         Some (if \<not> super_permitted policy then bits AND NOT special_bits else bits))
      else if executability policy then
        (let base = current_mode AND (special_bits OR perm_bits);
             base = (if \<not> super_permitted policy then base AND NOT special_bits else base)
         in if source_mode AND execute_bits \<noteq> 0 then Some (base OR drop_bit 2 (base AND read_bits))
            else Some (base AND NOT execute_bits))
      else None)"

section \<open>The wire record\<close>

definition metadata_valid :: "file_metadata \<Rightarrow> bool" where
  "metadata_valid m \<longleftrightarrow> 0 \<le> sint (mode m) \<and> 0 \<le> sint (uid m) \<and> 0 \<le> sint (gid m) \<and>
     nsec_ok (mtime_nsec m) \<and> (atime_valid m \<longrightarrow> nsec_ok (atime_nsec m)) \<and>
     (crtime_valid m \<longrightarrow> nsec_ok (crtime_nsec m))"

lemma length_metadata_to_buf: "length (metadata_to_buf md) = (if md = None then 4 else 4 + FILE_METADATA_WIRE_SIZE)"
  by (simp add: metadata_to_buf_def FILE_METADATA_WIRE_SIZE_def split: option.splits)

lemma flag_word:
  assumes "\<not> sint w < 0" and "\<not> 1 < sint w"
  shows "(if w \<noteq> 0 then 1 else 0) = (w :: u32)"
proof (cases "w = 0")
  case False
  then have "sint w \<noteq> sint (0 :: u32)" using signed_word_eqI [of w 0] by blast
  with assms have "sint w = sint (1 :: u32)" by simp
  then have "w = 1" by (rule signed_word_eqI)
  then show ?thesis by simp
qed simp

lemma metadata_from_to_buf:
  assumes "mem 80"
  shows "metadata_from_buf mem (metadata_to_buf (Some m) @ rest) = (if metadata_valid m then Some m else None)"
  using assms
  by (simp add: metadata_from_buf_def metadata_to_buf_def FILE_METADATA_WIRE_SIZE_def Let_def
      metadata_valid_def not_less)

lemma enc_dec_at:
  "n + 4 \<le> length buf \<Longrightarrow> enc_u32 (dec_u32 (drop n buf)) @ drop (n + 4) buf = drop n buf"
  "n + 8 \<le> length buf \<Longrightarrow> enc_u64 (dec_u64 (drop n buf)) @ drop (n + 8) buf = drop n buf"
  using enc_dec_u32_append [of "drop n buf"] enc_dec_u64_append [of "drop n buf"] by (simp_all add: add.commute)

lemma metadata_from_buf_sound:
  assumes "metadata_from_buf mem buf = Some m"
  shows "metadata_valid m \<and> buf = metadata_to_buf (Some m) @ drop (4 + FILE_METADATA_WIRE_SIZE) buf"
proof -
  let ?l = "4 + FILE_METADATA_WIRE_SIZE"
  have len: "72 \<le> length buf" and one: "dec_u32 buf = 1"
    using assms by (auto simp: metadata_from_buf_def FILE_METADATA_WIRE_SIZE_def Let_def split: if_splits)
  let ?a = "dec_u32 (drop 32 buf)" and ?c = "dec_u32 (drop 52 buf)"
  have "\<not> sint ?a < 0 \<and> \<not> 1 < sint ?a \<and> \<not> sint ?c < 0 \<and> \<not> 1 < sint ?c"
    using assms by (auto simp: metadata_from_buf_def Let_def split: if_splits)
  then have fl: "(if ?a \<noteq> 0 then 1 else 0) = ?a" "(if ?c \<noteq> 0 then 1 else 0) = ?c"
    using flag_word by blast+
  have m: "m = \<lparr>mode = dec_u32 (drop 4 buf), uid = dec_u32 (drop 8 buf), gid = dec_u32 (drop 12 buf),
      mtime_sec = dec_u64 (drop 16 buf), mtime_nsec = dec_u64 (drop 24 buf),
      atime_valid = (?a \<noteq> 0), atime_sec = dec_u64 (drop 36 buf), atime_nsec = dec_u64 (drop 44 buf),
      crtime_valid = (?c \<noteq> 0), crtime_sec = dec_u64 (drop 56 buf), crtime_nsec = dec_u64 (drop 64 buf)\<rparr>"
    and valid: "metadata_valid m"
    using assms by (auto simp: metadata_from_buf_def Let_def metadata_valid_def split: if_splits)
  have "metadata_to_buf (Some m) @ drop 72 buf = buf"
    using enc_dec_u32_append [of buf] one len
      enc_dec_at(1) [of 4 buf] enc_dec_at(1) [of 8 buf] enc_dec_at(1) [of 12 buf] enc_dec_at(2) [of 16 buf]
      enc_dec_at(2) [of 24 buf] enc_dec_at(1) [of 32 buf] enc_dec_at(2) [of 36 buf] enc_dec_at(2) [of 44 buf]
      enc_dec_at(1) [of 52 buf] enc_dec_at(2) [of 56 buf] enc_dec_at(2) [of 64 buf]
    by (simp add: metadata_to_buf_def m fl del: drop_append)
  with valid show ?thesis by (simp add: FILE_METADATA_WIRE_SIZE_def)
qed

lemma metadata_to_buf_split: "metadata_to_buf (Some m) = enc_u32 1 @ drop 4 (metadata_to_buf (Some m))"
  by (simp add: metadata_to_buf_def)

definition opt_valid :: "file_metadata option \<Rightarrow> bool" where
  "opt_valid md = (case md of None \<Rightarrow> True | Some m \<Rightarrow> metadata_valid m)"

lemma metadata_receive_send:
  assumes "mem 80"
  shows "metadata_receive mem (metadata_send md @ rest) = (if opt_valid md then Some (md, rest) else None)"
proof (cases md)
  case None
  then show ?thesis by (simp add: metadata_receive_def metadata_send_def opt_valid_def)
next
  case (Some m)
  let ?b = "drop 4 (metadata_to_buf (Some m))"
  have "length ?b = FILE_METADATA_WIRE_SIZE" by (simp add: length_metadata_to_buf)
  moreover have "metadata_from_buf mem (enc_u32 1 @ ?b) = (if metadata_valid m then Some m else None)"
    using metadata_from_to_buf [where mem = mem and rest = "[]" and m = m, OF assms]
    by (simp only: metadata_to_buf_split [symmetric] append_Nil2)
  moreover have "metadata_send md @ rest = enc_u32 1 @ ?b @ rest"
    using Some metadata_to_buf_split [of m] by (simp add: metadata_send_def)
  ultimately show ?thesis using Some by (simp add: metadata_receive_def opt_valid_def)
qed

lemma metadata_receive_sound:
  assumes "metadata_receive mem fd = Some (md, rest)"
  shows "opt_valid md \<and> fd = metadata_send md @ rest"
proof -
  obtain p r where p: "get_u32 fd = Some (p, r)" using assms by (auto simp: metadata_receive_def split: option.splits)
  then have fd: "fd = enc_u32 p @ r" using u32.dec_sound by blast
  show ?thesis
  proof (cases "p = 0")
    case True
    with assms p fd show ?thesis by (simp add: metadata_receive_def metadata_send_def opt_valid_def split: option.splits)
  next
    case False
    with assms p obtain b m where one: "p = 1" and b: "get_bytes FILE_METADATA_WIRE_SIZE r = Some (b, rest)"
      and m: "metadata_from_buf mem (enc_u32 p @ b) = Some m" and md: "md = Some m"
      by (auto simp: metadata_receive_def split: option.splits if_splits)
    from b have "length b = FILE_METADATA_WIRE_SIZE" and r: "r = b @ rest" by (simp_all add: get_bytes_Some)
    with metadata_from_buf_sound [OF m] show ?thesis
      by (simp add: fd r md one opt_valid_def metadata_send_def)
  qed
qed

interpretation metadata_frame: strict_codec metadata_send "metadata_receive (\<lambda>_. True)" opt_valid
  by unfold_locales (simp_all add: metadata_receive_send metadata_receive_sound)

section \<open>Modification times\<close>

lemma mtime_window_arith:
  assumes "0 \<le> (ns :: int)" and "ns < 1000000000"
  shows "s < w \<or> (s = w \<and> ns = 0) \<longleftrightarrow> s * 1000000000 + ns \<le> w * 1000000000"
proof (cases "s < w")
  case True
  then have "s + 1 \<le> w" by simp
  then have "(s + 1) * 1000000000 \<le> w * 1000000000" by (rule mult_right_mono) simp
  with True assms show ?thesis by simp
next
  case False
  then have "w * 1000000000 \<le> s * 1000000000" by (intro mult_right_mono) simp_all
  with False assms show ?thesis by auto
qed

lemma mtime_matches_eq:
  assumes "0 \<le> ln" "ln < 1000000000" "0 \<le> rn" "rn < 1000000000" and "i64 (l - r)" and "i64 (r - l)" and "0 < w"
  shows "metadata_mtime_matches l ln r rn w =
    Some (\<bar>(l * 1000000000 + ln) - (r * 1000000000 + rn)\<bar> \<le> w * 1000000000)"
proof -
  let ?fwd = "r < l \<or> (l = r \<and> rn \<le> ln)"
  define s where "s = (if ?fwd then l - r else r - l)"
  define n where "n = (if ?fwd then ln - rn else rn - ln)"
  have bounds: "i64 s" "i64 n" "- 1000000000 < n" "n < 1000000000" "w \<noteq> 0"
    using assms by (auto simp: s_def n_def i64_def)
  have gap: "\<bar>(l * 1000000000 + ln) - (r * 1000000000 + rn)\<bar> = s * 1000000000 + n"
    using assms(1-4) by (auto simp: s_def n_def)
  have "metadata_mtime_matches l ln r rn w =
    (if n < 0 then Some (s - 1 < w \<or> (s - 1 = w \<and> n + 1000000000 = 0)) else Some (s < w \<or> (s = w \<and> n = 0)))"
    using bounds by (simp add: metadata_mtime_matches_def Let_def s_def [symmetric] n_def [symmetric])
  also have "\<dots> = Some (s * 1000000000 + n \<le> w * 1000000000)"
    using mtime_window_arith [of n s w] mtime_window_arith [of "n + 1000000000" "s - 1" w] bounds
    by (simp add: algebra_simps)
  finally show ?thesis by (simp add: gap)
qed

section \<open>The mode rule\<close>

lemma mode_bits [simp]:
  "bit special_bits n \<longleftrightarrow> n \<in> {9, 10, 11}"
  "bit perm_bits n \<longleftrightarrow> n < 9"
  "bit execute_bits n \<longleftrightarrow> n \<in> {0, 3, 6}"
  "bit read_bits n \<longleftrightarrow> n \<in> {2, 5, 8}"
proof -
  have special_bits: "special_bits = push_bit 9 1 OR push_bit 10 1 OR push_bit 11 1" by (simp add: special_bits_def)
  show "bit special_bits n \<longleftrightarrow> n \<in> {9, 10, 11}" unfolding special_bits by (simp only: bit_or_iff bit_push_bit_iff bit_mask_iff bit_1_iff) auto
  have perm_bits: "perm_bits = mask 9" by (simp add: perm_bits_def mask_eq_exp_minus_1)
  show "bit perm_bits n \<longleftrightarrow> n < 9" unfolding perm_bits by (simp only: bit_or_iff bit_push_bit_iff bit_mask_iff bit_1_iff) auto
  have execute_bits: "execute_bits = push_bit 0 1 OR push_bit 3 1 OR push_bit 6 1" by (simp add: execute_bits_def)
  show "bit execute_bits n \<longleftrightarrow> n \<in> {0, 3, 6}" unfolding execute_bits by (simp only: bit_or_iff bit_push_bit_iff bit_mask_iff bit_1_iff) auto
  have read_bits: "read_bits = push_bit 2 1 OR push_bit 5 1 OR push_bit 8 1" by (simp add: read_bits_def)
  show "bit read_bits n \<longleftrightarrow> n \<in> {2, 5, 8}" unfolding read_bits by (simp only: bit_or_iff bit_push_bit_iff bit_mask_iff bit_1_iff) auto
qed

lemma any_execute: "s AND execute_bits \<noteq> 0 \<longleftrightarrow> bit s 0 \<or> bit s 3 \<or> bit s 6"
proof -
  have "s AND execute_bits = 0 \<longleftrightarrow> (\<forall>n. \<not> bit (s AND execute_bits) n)"
    by (auto intro: bit_eqI simp del: bit_and_iff)
  then show ?thesis by (auto simp: bit_and_iff)
qed

text \<open>The bits of the destination a policy lets through.\<close>

lemma allowed_bits:
  "bit (if \<not> sp then (x AND (special_bits OR perm_bits)) AND NOT special_bits else x AND (special_bits OR perm_bits)) n
   \<longleftrightarrow> n < (if sp then 12 else 9) \<and> bit x n"
proof -
  have "n < 12 \<longleftrightarrow> n < 9 \<or> n = 9 \<or> n = 10 \<or> n = 11" by auto
  then show ?thesis by (auto simp: bit_and_iff bit_or_iff bit_not_iff possible_bit_def)
qed

lemma executable_bits:
  "bit (x OR drop_bit 2 (x AND read_bits)) n \<longleftrightarrow> bit x n \<or> (n \<in> {0, 3, 6} \<and> bit x (n + 2))"
  "bit (x AND NOT execute_bits) n \<longleftrightarrow> bit x n \<and> n \<notin> {0, 3, 6}"
proof -
  have "2 + n \<in> {2, 5, 8} \<longleftrightarrow> n \<in> {0, 3, 6}" by auto
  then show "bit (x OR drop_bit 2 (x AND read_bits)) n \<longleftrightarrow> bit x n \<or> (n \<in> {0, 3, 6} \<and> bit x (n + 2))"
    by (simp only: bit_or_iff bit_drop_bit_eq comp_def bit_and_iff mode_bits) (auto simp: add.commute)
  show "bit (x AND NOT execute_bits) n \<longleftrightarrow> bit x n \<and> n \<notin> {0, 3, 6}"
    by (auto simp: bit_and_iff bit_not_iff dest: bit_imp_possible_bit)
qed

lemma mode_for_policy_bits:
  assumes "metadata_mode_for_policy s c policy = Some r"
  shows "bit r n \<longleftrightarrow>
    n < (if super_permitted policy then 12 else 9) \<and>
    (if perms policy then bit s n
     else if n \<in> {0, 3, 6} then (bit s 0 \<or> bit s 3 \<or> bit s 6) \<and> (bit c n \<or> bit c (n + 2))
     else bit c n)"
proof -
  define base where "base x = (if \<not> super_permitted policy then (x AND (special_bits OR perm_bits)) AND NOT special_bits
    else x AND (special_bits OR perm_bits))" for x
  let ?x = "bit s 0 \<or> bit s 3 \<or> bit s 6"
  have b: "bit (base x) k \<longleftrightarrow> k < (if super_permitted policy then 12 else 9) \<and> bit x k" for x k
    unfolding base_def by (rule allowed_bits)
  have "r = (if perms policy then base s
      else if ?x then base c OR drop_bit 2 (base c AND read_bits) else base c AND NOT execute_bits)"
    using assms by (auto simp: metadata_mode_for_policy_def Let_def any_execute base_def split: if_splits)
  then have "bit r n = (if perms policy then bit (base s) n
      else if ?x then bit (base c) n \<or> (n \<in> {0, 3, 6} \<and> bit (base c) (n + 2))
      else bit (base c) n \<and> n \<notin> {0, 3, 6})"
    by (simp only: if_distrib [of "\<lambda>x. bit x n"] executable_bits)
  moreover have "n \<in> {0, 3, 6} \<Longrightarrow> n < 9 \<and> n + 2 < 9 \<and> n < 12 \<and> n + 2 < 12" by auto
  ultimately show ?thesis unfolding b by (cases "n \<in> {0, 3, 6}") (simp_all split: if_splits)
qed

section \<open>Properties\<close>

text \<open>C36: The metadata frame. What the sender writes for valid metadata (or for none) is read back unchanged, and
  the bytes behind the frame are left for the next reader; metadata with a field the decoder refuses, such as a
  user id of 2^31 or more, makes the receiver fail. Whatever the receiver accepts is valid, and is exactly the
  frame the sender writes for it.\<close>

theorem metadata_frame_exact:
  assumes "mem 80"
  shows "metadata_receive mem (metadata_send md @ rest) = (if opt_valid md then Some (md, rest) else None) \<and>
    (metadata_receive mem fd = Some (md', rest') \<longleftrightarrow> opt_valid md' \<and> fd = metadata_send md' @ rest')"
proof -
  have "metadata_receive mem = metadata_receive (\<lambda>_. True)"
    using assms by (simp add: metadata_receive_def metadata_from_buf_def fun_eq_iff split: option.splits)
  then show ?thesis using metadata_receive_send [where mem = mem, OF assms] metadata_frame.dec_iff by simp
qed

definition demo_metadata :: file_metadata where
  "demo_metadata = \<lparr>mode = 0x81A4, uid = 1000, gid = 1000, mtime_sec = 1700000000, mtime_nsec = 5,
     atime_valid = False, atime_sec = 0, atime_nsec = 0, crtime_valid = False, crtime_sec = 0, crtime_nsec = 0\<rparr>"

theorem metadata_frame_exact_witness:
  "metadata_receive (\<lambda>n. n \<le> 80) (metadata_send (Some demo_metadata) @ [7]) = Some (Some demo_metadata, [7]) \<and>
   metadata_receive (\<lambda>n. n \<le> 80) (metadata_send (Some (demo_metadata\<lparr>uid := 0xFFFFFFFE\<rparr>)) @ [7]) = None"
  using metadata_frame_exact [where mem = "\<lambda>n. n \<le> 80" and md = "Some demo_metadata" and rest = "[7]"]
    metadata_frame_exact [where mem = "\<lambda>n. n \<le> 80" and md = "Some (demo_metadata\<lparr>uid := 0xFFFFFFFE\<rparr>)" and rest = "[7]"]
  by (simp add: opt_valid_def metadata_valid_def demo_metadata_def nsec_ok_def)

text \<open>C38: The comparison of modification times, as long as the difference of the seconds fits 64 bits. With a positive
  window two times match exactly when they are at most that many seconds apart, to the nanosecond, in either order. The
  window 0 is not the limit of this: it compares the seconds alone, so that times whose nanoseconds differ match.\<close>

theorem mtime_matches_window:
  assumes "0 \<le> ln" "ln < 1000000000" "0 \<le> rn" "rn < 1000000000" and "i64 (l - r)" and "i64 (r - l)" and "0 \<le> w"
  shows "metadata_mtime_matches l ln r rn w =
    Some (if w = 0 then l = r else \<bar>(l * 1000000000 + ln) - (r * 1000000000 + rn)\<bar> \<le> w * 1000000000)"
proof (cases "w = 0")
  case True
  with assms show ?thesis by (auto simp: metadata_mtime_matches_def Let_def i64_def)
next
  case False
  with mtime_matches_eq [OF assms(1-6), of w] assms(7) show ?thesis by simp
qed

theorem mtime_matches_window_witness:
  "metadata_mtime_matches 100 5 98 5 2 = Some True \<and> metadata_mtime_matches 100 6 98 5 2 = Some False \<and>
   metadata_mtime_matches 100 6 100 5 0 = Some True"
  using mtime_matches_window [of 5 5 100 98 2] mtime_matches_window [of 6 5 100 98 2]
    mtime_matches_window [of 6 5 100 100 0]
  by (simp add: i64_def)

text \<open>C37: The mode the receiver applies, bit by bit. A mode is applied exactly under \<open>--perms\<close> or
  \<open>--executability\<close>. Bits 12 and up are never set; setuid, setgid and sticky (bits 9 to 11) are taken from the source
  under \<open>--perms\<close> and from the destination otherwise, and only if super-user activities are permitted. Under
  \<open>--perms\<close> the permission bits are the source's, group and other write included; under \<open>--executability\<close> they are
  the destination's, where a class may execute if the source is executable at all and the class could execute or
  read.\<close>

theorem mode_for_policy_exact:
  "case metadata_mode_for_policy s c policy of
     None \<Rightarrow> \<not> perms policy \<and> \<not> executability policy
   | Some r \<Rightarrow> (perms policy \<or> executability policy) \<and>
       (\<forall>n. bit r n =
          (if 12 \<le> n then False
           else if 9 \<le> n then super_permitted policy \<and> bit (if perms policy then s else c) n
           else if perms policy then bit s n
           else if n mod 3 = 0 then (bit s 0 \<or> bit s 3 \<or> bit s 6) \<and> (bit c n \<or> bit c (n + 2))
           else bit c n))"
proof (cases "metadata_mode_for_policy s c policy")
  case None
  then show ?thesis by (auto simp: metadata_mode_for_policy_def Let_def split: if_splits)
next
  case (Some r)
  have "n < 9 \<Longrightarrow> n mod 3 = 0 \<longleftrightarrow> n \<in> {0, 3, 6}" for n :: nat by simp presburger
  moreover have "n \<notin> {0, 3, 6}" if "9 \<le> n" for n :: nat using that by auto
  ultimately have "bit r n =
      (if 12 \<le> n then False
       else if 9 \<le> n then super_permitted policy \<and> bit (if perms policy then s else c) n
       else if perms policy then bit s n
       else if n mod 3 = 0 then (bit s 0 \<or> bit s 3 \<or> bit s 6) \<and> (bit c n \<or> bit c (n + 2))
       else bit c n)" for n
    unfolding mode_for_policy_bits [OF Some, of n] by auto
  moreover have "perms policy \<or> executability policy"
    using Some by (auto simp: metadata_mode_for_policy_def split: if_splits)
  ultimately show ?thesis by (simp add: Some)
qed

end
