(* ===== verification/Chunk.thy ===== *)
theory Chunk
  imports Metadata Paths Queue
begin

text \<open>
  Chunks, \<open>src/src/shared/chunk.c\<close>: many files packed into one buffer, with the buffers of
  \<open>src/src/shared/data.c\<close> and the connection's memory budget they are charged to.

  A converter of names is an argument: \<open>None\<close> when \<open>--iconv\<close> is off, else the conversion of
  \<open>charset_wire_apply\<close>, which rests on the \<open>iconv\<close> of the C library. A session is the number of
  bytes reserved from its budget; \<open>None\<close> is the null pointer. The compare-and-swap loops on that
  number are single steps.
\<close>

section \<open>Definitions\<close>

subsection \<open>Buffers and the budget\<close>

definition MAX_CONNECTION_MEMORY :: nat where
  "MAX_CONNECTION_MEMORY = 256 * 1024 * 1024"

definition MAX_CHUNK_FILE_DATA_SIZE :: nat where
  "MAX_CHUNK_FILE_DATA_SIZE = 64 * 1024 * 1024"

definition MAX_FILES_PER_CHUNK :: nat where
  "MAX_FILES_PER_CHUNK = 65536"

lemmas [limits] = MAX_CONNECTION_MEMORY_def MAX_CHUNK_FILE_DATA_SIZE_def MAX_FILES_PER_CHUNK_def

type_synonym session = "nat option"

text \<open>\<open>payload\<close> is the memory behind the \<open>data\<close> pointer, \<open>owned\<close> whether \<open>owner\<close> is set.\<close>

record data =
  payload :: "buffer option"
  dsize :: nat
  protocol_charge :: nat
  owned :: bool

definition data_create_reserve :: "allocator \<Rightarrow> nat \<Rightarrow> data option" where
  "data_create_reserve mem n =
     (if mem 32 then Some \<lparr>payload = None, dsize = n, protocol_charge = 0, owned = False\<rparr> else None)"

definition data_create :: "allocator \<Rightarrow> buffer \<Rightarrow> nat \<Rightarrow> data option" where
  "data_create mem b n =
     (if mem 32 then Some \<lparr>payload = Some b, dsize = n, protocol_charge = 0, owned = False\<rparr> else None)"

text \<open>The memory is filled afterwards; \<open>b\<close> is what is written to it.\<close>

definition data_create_empty :: "allocator \<Rightarrow> nat \<Rightarrow> buffer \<Rightarrow> data option" where
  "data_create_empty mem n b = (if mem (if 0 < n then n else 1) then data_create mem b n else None)"

definition protocol_release_memory_for_session :: "session \<Rightarrow> nat \<Rightarrow> session" where
  "protocol_release_memory_for_session s charge =
     (case s of None \<Rightarrow> None | Some allocated \<Rightarrow> Some (if allocated \<le> charge then 0 else allocated - charge))"

text \<open>
  The effect on the owner's session. A charge is only ever recorded together with its owner (\<open>data_charge_session\<close>,
  \<open>protocol_receive_data\<close>), so the branch of the code for a charge without an owner, a release from the session
  bound to the thread, is not entered by the data of a chunk.
\<close>

definition data_destroy :: "session \<Rightarrow> data \<Rightarrow> session" where
  "data_destroy s d =
     (if protocol_charge d \<noteq> 0 \<and> owned d then protocol_release_memory_for_session s (protocol_charge d) else s)"

definition chunk_session_reserve :: "nat \<Rightarrow> nat \<Rightarrow> nat option" where
  "chunk_session_reserve allocated charge =
     (if MAX_CONNECTION_MEMORY < allocated \<or> MAX_CONNECTION_MEMORY - allocated < charge then None
      else Some (allocated + charge))"

definition data_charge_session :: "data \<Rightarrow> session \<Rightarrow> nat \<Rightarrow> (data \<times> session) option" where
  "data_charge_session d s charge =
     (if charge = 0 then Some (d, s)
      else case s of
        None \<Rightarrow> Some (d, s)
      | Some allocated \<Rightarrow>
          (case chunk_session_reserve allocated charge of
             None \<Rightarrow> None
           | Some a \<Rightarrow> Some (d\<lparr>owned := True, protocol_charge := charge\<rparr>, Some a)))"

subsection \<open>Files\<close>

text \<open>The fields of \<open>File\<close> a chunk carries. \<open>path\<close> and \<open>data\<close> are never null in a file that
  \<open>file_create\<close> made.\<close>

record chunk_file =
  path :: string
  send_path :: "string option"
  fdata :: data
  metadata :: "file_metadata option"
  is_dir :: bool
  is_symlink :: bool
  symlink_target :: "string option"
  is_special :: bool
  rdev_major :: u32
  rdev_minor :: u32

definition file_create :: "allocator \<Rightarrow> string \<Rightarrow> chunk_file option" where
  "file_create mem p =
     (if \<not> mem 176 then None
      else if \<not> mem (length p + 1) then None
      else (case data_create_reserve mem 0 of
              None \<Rightarrow> None
            | Some d \<Rightarrow> Some \<lparr>path = p, send_path = None, fdata = d, metadata = None, is_dir = False,
                              is_symlink = False, symlink_target = None, is_special = False,
                              rdev_major = 0, rdev_minor = 0\<rparr>))"

definition file_destroy :: "session \<Rightarrow> chunk_file \<Rightarrow> session" where
  "file_destroy s f = data_destroy s (fdata f)"

definition file_wire_path :: "chunk_file \<Rightarrow> string" where
  "file_wire_path f = (case send_path f of Some p \<Rightarrow> p | None \<Rightarrow> path f)"

definition chunk_create :: "allocator \<Rightarrow> chunk_file list \<Rightarrow> chunk_file list option" where
  "chunk_create mem fs =
     (if \<not> mem 16 then None
      else if fs = [] then Some []
      else if SIZE_MAX div 8 < length fs then None
      else if \<not> mem (length fs * 8) then None
      else Some fs)"

subsection \<open>Packing\<close>

type_synonym converter = "(string \<Rightarrow> string option) option"

definition chunk_encode_wire :: "allocator \<Rightarrow> converter \<Rightarrow> string \<Rightarrow> string option" where
  "chunk_encode_wire mem wire p = (case wire of None \<Rightarrow> str_dup mem p | Some conv \<Rightarrow> conv p)"

text \<open>One guarded addition to the running size; \<open>None\<close> is the early \<open>return 0\<close>.\<close>

definition grow_size :: "nat \<Rightarrow> nat option \<Rightarrow> nat option" where
  "grow_size n acc = (case acc of None \<Rightarrow> None | Some sz \<Rightarrow> if UINT64_MAX - sz < n then None else Some (sz + n))"

definition link_text :: "chunk_file \<Rightarrow> string" where
  "link_text f = (case symlink_target f of Some t \<Rightarrow> t | None \<Rightarrow> [])"

definition per_file_serialize_size :: "allocator \<Rightarrow> converter \<Rightarrow> chunk_file \<Rightarrow> bool \<Rightarrow> nat" where
  "per_file_serialize_size mem wire f use_metadata =
     (case chunk_encode_wire mem wire (file_wire_path f) of
        None \<Rightarrow> 0
      | Some wire_path \<Rightarrow>
          let metadata_size = (if use_metadata then 4 + (if metadata f \<noteq> None then FILE_METADATA_WIRE_SIZE else 0) else 0);
              sz = grow_size metadata_size (grow_size (length wire_path) (Some 8));
              sz = grow_size 4 sz;
              sz = (if is_special f then grow_size 8 sz else sz);
              sz = grow_size (dsize (fdata f)) (grow_size 8 sz);
              sz = (if is_symlink f then
                      (case chunk_encode_wire mem wire (link_text f) of
                         None \<Rightarrow> None
                       | Some wire_target \<Rightarrow> grow_size (length wire_target) (grow_size 8 sz))
                    else sz)
          in (case sz of None \<Rightarrow> 0 | Some n \<Rightarrow> n))"

text \<open>The first loop of \<open>chunk_serialize\<close>: the checks of every file and the total.\<close>

definition file_refused :: "allocator \<Rightarrow> chunk_file \<Rightarrow> bool" where
  "file_refused mem f \<longleftrightarrow> (0 < dsize (fdata f) \<and> payload (fdata f) = None) \<or> path f = [] \<or>
     has_path_traversal mem (path f) \<or> file_wire_path f = []"

fun serialize_total :: "allocator \<Rightarrow> converter \<Rightarrow> bool \<Rightarrow> chunk_file list \<Rightarrow> nat \<Rightarrow> nat option" where
  "serialize_total mem wire um [] data_size = Some data_size"
| "serialize_total mem wire um (f # fs) data_size =
     (if file_refused mem f then None
      else let file_size = per_file_serialize_size mem wire f um in
        if file_size = 0 \<or> UINT64_MAX - data_size < file_size \<or> SIZE_MAX < data_size + file_size then None
        else serialize_total mem wire um fs (data_size + file_size))"

definition string_bytes :: "string \<Rightarrow> buffer" where
  "string_bytes s = map byte_of_char s"

text \<open>A length-prefixed string.\<close>

definition counted :: "string \<Rightarrow> buffer" where
  "counted s = le_bytes 8 (length s) @ string_bytes s"

definition entry_type :: "chunk_file \<Rightarrow> u32" where
  "entry_type f = (if is_dir f then 1 else if is_symlink f then 2 else if is_special f then 3 else 0)"

text \<open>The bytes the second loop writes for one file. \<open>memcpy\<close> copies \<open>dsize\<close> bytes.\<close>

definition file_bytes :: "allocator \<Rightarrow> converter \<Rightarrow> bool \<Rightarrow> chunk_file \<Rightarrow> buffer option" where
  "file_bytes mem wire um f =
     (case chunk_encode_wire mem wire (file_wire_path f) of
        None \<Rightarrow> None
      | Some wire_path \<Rightarrow>
          let front = counted wire_path @ enc_u32 (entry_type f) @
                (if is_special f then enc_u32 (rdev_major f) @ enc_u32 (rdev_minor f) else []) @
                (if um then metadata_to_buf (metadata f) else []) @
                le_bytes 8 (dsize (fdata f)) @
                (case payload (fdata f) of Some b \<Rightarrow> take (dsize (fdata f)) b | None \<Rightarrow> [])
          in if is_symlink f then
               (case chunk_encode_wire mem wire (link_text f) of
                  None \<Rightarrow> None
                | Some wire_target \<Rightarrow> Some (front @ counted wire_target))
             else Some front)"

fun serialize_files :: "allocator \<Rightarrow> converter \<Rightarrow> bool \<Rightarrow> chunk_file list \<Rightarrow> buffer option" where
  "serialize_files mem wire um [] = Some []"
| "serialize_files mem wire um (f # fs) =
     (case file_bytes mem wire um f of
        None \<Rightarrow> None
      | Some b \<Rightarrow> (case serialize_files mem wire um fs of None \<Rightarrow> None | Some bs \<Rightarrow> Some (b @ bs)))"

text \<open>The buffer has the computed size, and the written bytes are its contents.\<close>

definition chunk_serialize :: "allocator \<Rightarrow> converter \<Rightarrow> chunk_file list \<Rightarrow> bool \<Rightarrow> data option" where
  "chunk_serialize mem wire fs um =
     (case serialize_total mem wire um fs 0 of
        None \<Rightarrow> None
      | Some data_size \<Rightarrow>
          (case serialize_files mem wire um fs of
             None \<Rightarrow> None
           | Some written \<Rightarrow> data_create_empty mem data_size written))"

subsection \<open>Unpacking\<close>

text \<open>The sections of one entry, in the order of the loop body. Each takes the unread bytes and returns what it
  read with the bytes behind it; \<open>None\<close> is the jump to \<open>error\<close>.\<close>

definition decode_wire :: "converter \<Rightarrow> string \<Rightarrow> string option" where
  "decode_wire wire s = (case wire of None \<Rightarrow> Some s | Some conv \<Rightarrow> conv s)"

definition read_path :: "allocator \<Rightarrow> converter \<Rightarrow> buffer \<Rightarrow> (string \<times> buffer) option" where
  "read_path mem wire bs =
     (if length bs < 8 then None
      else let path_len = le_nat (take 8 bs); rest = drop 8 bs in
        if SIZE_MAX - 1 < path_len \<or> length rest < path_len then None
        else if \<not> mem (path_len + 1) then None
        else let raw = map char_of_byte (take path_len rest) in
          if NUL \<in> set raw then None
          else (case decode_wire wire raw of
                  None \<Rightarrow> None
                | Some p \<Rightarrow> if p = [] \<or> has_path_traversal mem p then None else Some (p, drop path_len rest)))"

definition read_entry_type :: "chunk_file \<Rightarrow> buffer \<Rightarrow> (chunk_file \<times> buffer) option" where
  "read_entry_type f bs =
     (if length bs < 4 then None
      else let t = dec_u32 bs in
        if t \<noteq> 0 \<and> t \<noteq> 1 \<and> t \<noteq> 2 \<and> t \<noteq> 3 then None
        else Some (f\<lparr>is_dir := (t = 1), is_symlink := (t = 2), is_special := (t = 3)\<rparr>, drop 4 bs))"

definition rdev_ok :: "u32 \<Rightarrow> u32 \<Rightarrow> bool" where
  "rdev_ok major minor \<longleftrightarrow> \<not> (sint major < 0 \<or> sint minor < 0 \<or> 0xffff < sint major \<or> 0x00ffffff < sint minor)"

definition read_rdev :: "chunk_file \<Rightarrow> buffer \<Rightarrow> (chunk_file \<times> buffer) option" where
  "read_rdev f bs =
     (if \<not> is_special f then Some (f, bs)
      else if length bs < 8 then None
      else let major = dec_u32 bs; minor = dec_u32 (drop 4 bs) in
        if \<not> rdev_ok major minor then None
        else Some (f\<lparr>rdev_major := major, rdev_minor := minor\<rparr>, drop 8 bs))"

definition read_metadata :: "allocator \<Rightarrow> bool \<Rightarrow> chunk_file \<Rightarrow> buffer \<Rightarrow> (chunk_file \<times> buffer) option" where
  "read_metadata mem um f bs =
     (if \<not> um then Some (f, bs)
      else if length bs < 4 then None
      else let present_flag = dec_u32 bs in
        if (present_flag \<noteq> 0 \<and> present_flag \<noteq> 1) \<or>
           (present_flag = 1 \<and> length bs < 4 + FILE_METADATA_WIRE_SIZE) then None
        else let md = metadata_from_buf mem bs in
          if present_flag = 1 then
            (if md = None then None else Some (f\<lparr>metadata := md\<rparr>, drop (4 + FILE_METADATA_WIRE_SIZE) bs))
          else Some (f\<lparr>metadata := md\<rparr>, drop 4 bs))"

definition read_data ::
  "allocator \<Rightarrow> session \<Rightarrow> chunk_file \<Rightarrow> buffer \<Rightarrow> (chunk_file \<times> session \<times> buffer) option" where
  "read_data mem s f bs =
     (if length bs < 8 then None
      else let file_data_size = le_nat (take 8 bs); rest = drop 8 bs in
        if length rest < file_data_size then None
        else if MAX_CHUNK_FILE_DATA_SIZE < file_data_size then None
        else let allocation_size = (if 0 < file_data_size then file_data_size else 1) in
          if \<not> mem allocation_size then None
          else (case data_create mem (take file_data_size rest) file_data_size of
                  None \<Rightarrow> None
                | Some replacement \<Rightarrow>
                    (case data_charge_session replacement s allocation_size of
                       None \<Rightarrow> None
                     | Some (d, s') \<Rightarrow>
                         Some (f\<lparr>fdata := d\<rparr>, data_destroy s' (fdata f), drop file_data_size rest))))"

definition read_target :: "allocator \<Rightarrow> converter \<Rightarrow> chunk_file \<Rightarrow> buffer \<Rightarrow> (chunk_file \<times> buffer) option" where
  "read_target mem wire f bs =
     (if \<not> is_symlink f then Some (f, bs)
      else if length bs < 8 then None
      else let target_len = le_nat (take 8 bs); rest = drop 8 bs in
        if target_len = 0 \<or> length rest < target_len then None
        else if \<not> mem (target_len + 1) then None
        else let raw = map char_of_byte (take target_len rest) in
          if NUL \<in> set raw then None
          else (case decode_wire wire raw of
                  None \<Rightarrow> None
                | Some t \<Rightarrow> Some (f\<lparr>symlink_target := Some t\<rparr>, drop target_len rest)))"

text \<open>The parts before the payload leave the session alone.\<close>

definition read_head :: "allocator \<Rightarrow> converter \<Rightarrow> bool \<Rightarrow> buffer \<Rightarrow> (chunk_file \<times> buffer) option" where
  "read_head mem wire um bs =
     (case read_path mem wire bs of
        None \<Rightarrow> None
      | Some (p, bs1) \<Rightarrow>
          (case file_create mem p of
             None \<Rightarrow> None
           | Some f0 \<Rightarrow>
               (case read_entry_type f0 bs1 of
                  None \<Rightarrow> None
                | Some (f1, bs2) \<Rightarrow>
                    (case read_rdev f1 bs2 of
                       None \<Rightarrow> None
                     | Some (f2, bs3) \<Rightarrow> read_metadata mem um f2 bs3))))"

text \<open>One turn of the loop up to \<open>array_list_add\<close>. A file that fails behind its payload is destroyed, which
  returns its charge.\<close>

definition read_file ::
  "allocator \<Rightarrow> converter \<Rightarrow> bool \<Rightarrow> session \<Rightarrow> buffer \<Rightarrow> session \<times> (chunk_file \<times> buffer) option" where
  "read_file mem wire um s bs =
     (case read_head mem wire um bs of
        None \<Rightarrow> (s, None)
      | Some (f, bs1) \<Rightarrow>
          (case read_data mem s f bs1 of
             None \<Rightarrow> (s, None)
           | Some (f, s', bs2) \<Rightarrow>
               (case read_target mem wire f bs2 of
                  None \<Rightarrow> (file_destroy s' f, None)
                | Some (f, bs3) \<Rightarrow> (s', Some (f, bs3)))))"

text \<open>\<open>array_list_delete\<close> with \<open>file_destroy\<close> as the destroyer.\<close>

definition destroy_files :: "session \<Rightarrow> chunk_file array_list \<Rightarrow> session" where
  "destroy_files s files = fold (\<lambda>f s. file_destroy s f) (elems files) s"

lemma read_path_shorter: "read_path mem wire bs = Some (p, rest) \<Longrightarrow> length rest < length bs"
  by (auto simp: read_path_def Let_def split: if_splits option.splits)

lemma read_entry_type_shorter: "read_entry_type f bs = Some (f', rest) \<Longrightarrow> length rest \<le> length bs"
  by (auto simp: read_entry_type_def Let_def split: if_splits)

lemma read_rdev_shorter: "read_rdev f bs = Some (f', rest) \<Longrightarrow> length rest \<le> length bs"
  by (auto simp: read_rdev_def Let_def split: if_splits)

lemma read_metadata_shorter: "read_metadata mem um f bs = Some (f', rest) \<Longrightarrow> length rest \<le> length bs"
  by (auto simp: read_metadata_def Let_def split: if_splits)

lemma read_data_shorter: "read_data mem s f bs = Some (f', s', rest) \<Longrightarrow> length rest \<le> length bs"
  by (auto simp: read_data_def Let_def split: if_splits option.splits)

lemma read_target_shorter: "read_target mem wire f bs = Some (f', rest) \<Longrightarrow> length rest \<le> length bs"
  by (auto simp: read_target_def Let_def split: if_splits option.splits)

lemma read_head_shorter: "read_head mem wire um bs = Some (f, rest) \<Longrightarrow> length rest < length bs"
  by (fastforce simp: read_head_def split: option.splits prod.splits
      dest: read_path_shorter read_entry_type_shorter read_rdev_shorter read_metadata_shorter)

lemma read_file_shorter: "read_file mem wire um s bs = (s', Some (f, rest)) \<Longrightarrow> length rest < length bs"
  by (fastforce simp: read_file_def split: option.splits prod.splits
      dest: read_head_shorter read_data_shorter read_target_shorter)

text \<open>The loop over the entries.\<close>

function read_files ::
  "allocator \<Rightarrow> converter \<Rightarrow> bool \<Rightarrow> session \<Rightarrow> chunk_file array_list \<Rightarrow> buffer \<Rightarrow> session \<times> chunk_file array_list option" where
  "read_files mem wire um s files bs =
     (if bs = [] then (s, Some files)
      else if MAX_FILES_PER_CHUNK \<le> length (elems files) then (destroy_files s files, None)
      else (case read_file mem wire um s bs of
              (s', None) \<Rightarrow> (destroy_files s' files, None)
            | (s', Some (f, rest)) \<Rightarrow>
                (case array_list_add mem files f of
                   (False, _) \<Rightarrow> (destroy_files (file_destroy s' f) files, None)
                 | (True, files') \<Rightarrow> read_files mem wire um s' files' rest)))"
  by pat_completeness auto

termination
  by (relation "measure (\<lambda>(_, _, _, _, _, bs). length bs)") (auto dest: read_file_shorter [OF sym])

declare read_files.simps [simp del]

text \<open>\<open>s\<close> is the session of \<open>data->owner\<close>.\<close>

definition chunk_deserialize ::
  "allocator \<Rightarrow> converter \<Rightarrow> bool \<Rightarrow> data \<Rightarrow> session \<Rightarrow> session \<times> chunk_file list option" where
  "chunk_deserialize mem wire um d s =
     (if payload d = None \<and> dsize d \<noteq> 0 then (s, None)
      else case array_list_create mem of
        None \<Rightarrow> (s, None)
      | Some files \<Rightarrow>
          (case read_files mem wire um s files (case payload d of Some b \<Rightarrow> take (dsize d) b | None \<Rightarrow> []) of
             (s', None) \<Rightarrow> (s', None)
           | (s', Some files') \<Rightarrow>
               if elems files' \<noteq> [] \<and> array_list_to_array mem files' = None then (destroy_files s' files', None)
               else (case chunk_create mem (elems files') of
                       None \<Rightarrow> (destroy_files s' files', None)
                     | Some chunk \<Rightarrow> (s', Some chunk))))"

section \<open>What the decoder accepts\<close>

definition cost :: "chunk_file \<Rightarrow> nat" where
  "cost f = (if 0 < dsize (fdata f) then dsize (fdata f) else 1)"

definition payload_ok :: "data \<Rightarrow> bool" where
  "payload_ok d \<longleftrightarrow> (\<exists>b. payload d = Some b \<and> length b = dsize d) \<and> dsize d \<le> MAX_CHUNK_FILE_DATA_SIZE"

text \<open>The entry kinds exclude each other, and only the fields of the kind are set.\<close>

definition kind_ok :: "chunk_file \<Rightarrow> bool" where
  "kind_ok f \<longleftrightarrow> \<not> (is_dir f \<and> is_symlink f) \<and> \<not> (is_dir f \<and> is_special f) \<and> \<not> (is_symlink f \<and> is_special f) \<and>
     (if is_special f then rdev_ok (rdev_major f) (rdev_minor f) else rdev_major f = 0 \<and> rdev_minor f = 0)"

definition head_ok :: "bool \<Rightarrow> chunk_file \<Rightarrow> bool" where
  "head_ok um f \<longleftrightarrow> path f \<noteq> [] \<and> ''..'' \<notin> set (components (path f)) \<and> send_path f = None \<and> kind_ok f \<and>
     opt_valid (metadata f) \<and> (\<not> um \<longrightarrow> metadata f = None)"

definition file_ok :: "bool \<Rightarrow> chunk_file \<Rightarrow> bool" where
  "file_ok um f \<longleftrightarrow> head_ok um f \<and> payload_ok (fdata f) \<and> (symlink_target f \<noteq> None \<longleftrightarrow> is_symlink f)"

text \<open>The charge of a received file, and what a list of such files adds to a session.\<close>

definition charged :: "session \<Rightarrow> chunk_file \<Rightarrow> bool" where
  "charged s f \<longleftrightarrow> protocol_charge (fdata f) = (if s = None then 0 else cost f) \<and> owned (fdata f) = (s \<noteq> None)"

definition charge_all :: "chunk_file list \<Rightarrow> session \<Rightarrow> session" where
  "charge_all fs s = map_option (\<lambda>a. a + sum_list (map cost fs)) s"

lemma cost_pos [simp]: "0 < cost f"
  by (simp add: cost_def)

lemma charge_all_simps [simp]: "charge_all [] s = s" "charge_all fs None = None"
  "charge_all fs s = None \<longleftrightarrow> s = None"
  by (cases s; simp add: charge_all_def)+

lemma charge_all_snoc: "charge_all (fs @ [f]) s = map_option (\<lambda>a. a + cost f) (charge_all fs s)"
  by (cases s) (simp_all add: charge_all_def)

lemma file_destroy_charged: "charged s f \<Longrightarrow> (t = None \<longleftrightarrow> s = None) \<Longrightarrow> file_destroy t f = map_option (\<lambda>a. a - cost f) t"
  by (cases t) (auto simp: file_destroy_def data_destroy_def charged_def protocol_release_memory_for_session_def)

lemma destroy_charged:
  "list_all (charged s) fs \<Longrightarrow> fold (\<lambda>f s. file_destroy s f) fs (charge_all fs s) = s"
proof (induction fs)
  case (Cons f fs)
  have "file_destroy (charge_all (f # fs) s) f = charge_all fs s"
    using file_destroy_charged [of s f "charge_all (f # fs) s"] Cons.prems
    by (cases s) (simp_all add: charge_all_def)
  with Cons show ?case by simp
qed simp

lemma destroy_files_charged:
  assumes "list_all (charged s) (elems files)"
  shows "destroy_files (charge_all (elems files) s) files = s"
  unfolding destroy_files_def by (rule destroy_charged [OF assms])

lemma array_list_add_elems: "array_list_add mem l x = (True, l') \<Longrightarrow> elems l' = elems l @ [x]"
  by (auto simp: array_list_add_def array_list_extend_def Let_def split: if_splits option.splits)

lemma array_list_create_elems: "array_list_create mem = Some l \<Longrightarrow> elems l = []"
  by (auto simp: array_list_create_def split: if_splits)

lemma read_path_ok:
  "read_path mem wire bs = Some (p, rest) \<Longrightarrow> p \<noteq> [] \<and> ''..'' \<notin> set (components p)"
  by (auto simp: read_path_def Let_def has_path_traversal_def str_dup_def list_ex_iff split: if_splits option.splits)

lemma file_create_ok:
  "file_create mem p = Some f \<Longrightarrow> path f = p \<and> send_path f = None \<and> metadata f = None \<and> symlink_target f = None \<and>
     rdev_major f = 0 \<and> rdev_minor f = 0 \<and> protocol_charge (fdata f) = 0"
  by (auto simp: file_create_def data_create_reserve_def split: if_splits)

lemma read_metadata_ok:
  assumes "read_metadata mem um f bs = Some (f', rest)" and "metadata f = None"
  shows "\<exists>md. f' = f\<lparr>metadata := md\<rparr> \<and> opt_valid md \<and> (\<not> um \<longrightarrow> md = None)"
proof (cases um)
  case False
  with assms have "f' = f\<lparr>metadata := None\<rparr>" by (simp add: read_metadata_def)
  then show ?thesis by (auto simp: opt_valid_def)
next
  case True
  let ?md = "metadata_from_buf mem bs"
  have "opt_valid ?md"
    using metadata_from_buf_sound [of mem bs] by (simp add: opt_valid_def split: option.splits)
  moreover have "f' = f\<lparr>metadata := ?md\<rparr>"
    using assms(1) True by (simp add: read_metadata_def Let_def split: if_splits)
  ultimately show ?thesis using True by blast
qed

lemma read_head_ok:
  assumes "read_head mem wire um bs = Some (f, rest)"
  shows "head_ok um f \<and> symlink_target f = None \<and> protocol_charge (fdata f) = 0"
proof -
  obtain p bs1 f0 f1 bs2 f2 bs3 where p: "read_path mem wire bs = Some (p, bs1)" and f0: "file_create mem p = Some f0"
    and f1: "read_entry_type f0 bs1 = Some (f1, bs2)" and f2: "read_rdev f1 bs2 = Some (f2, bs3)"
    and f: "read_metadata mem um f2 bs3 = Some (f, rest)"
    using assms by (auto simp: read_head_def split: option.splits prod.splits)
  have e: "f1 = f0\<lparr>is_dir := (dec_u32 bs1 = 1), is_symlink := (dec_u32 bs1 = 2), is_special := (dec_u32 bs1 = 3)\<rparr>"
    using f1 by (simp add: read_entry_type_def Let_def split: if_splits)
  have r: "(f2 = f1 \<and> \<not> is_special f1) \<or>
      (\<exists>ma mi. f2 = f1\<lparr>rdev_major := ma, rdev_minor := mi\<rparr> \<and> rdev_ok ma mi \<and> is_special f1)"
    using f2 by (auto simp: read_rdev_def Let_def split: if_splits)
  have k: "kind_ok f2" "path f2 = p" "send_path f2 = None" "metadata f2 = None" "symlink_target f2 = None"
    "protocol_charge (fdata f2) = 0"
    using r file_create_ok [OF f0] by (auto simp: kind_ok_def e)
  from read_metadata_ok [OF f k(4)] obtain md where "f = f2\<lparr>metadata := md\<rparr>" and "opt_valid md" and "\<not> um \<longrightarrow> md = None"
    by blast
  with k read_path_ok [OF p] show ?thesis by (simp add: head_ok_def kind_ok_def)
qed

lemma charge_ok:
  assumes "data_charge_session d s n = Some (d', s')" and "protocol_charge d = 0" and "\<not> owned d" and "0 < n"
  shows "payload d' = payload d \<and> dsize d' = dsize d \<and> protocol_charge d' = (if s = None then 0 else n) \<and>
    owned d' = (s \<noteq> None) \<and> s' = map_option (\<lambda>a. a + n) s \<and> (\<forall>a. s' = Some a \<longrightarrow> a \<le> MAX_CONNECTION_MEMORY)"
  using assms by (auto simp: data_charge_session_def chunk_session_reserve_def split: if_splits option.splits)

lemma read_data_ok:
  assumes "read_data mem s f bs = Some (f', s', rest)" and "protocol_charge (fdata f) = 0"
  shows "\<exists>d. f' = f\<lparr>fdata := d\<rparr> \<and> payload_ok d \<and> charged s f' \<and> s' = map_option (\<lambda>a. a + cost f') s \<and>
    (\<forall>a. s' = Some a \<longrightarrow> a \<le> MAX_CONNECTION_MEMORY) \<and> dsize d + length rest \<le> length bs"
proof -
  let ?n = "le_nat (take 8 bs)"
  let ?a = "if 0 < ?n then ?n else 1"
  obtain r d where len: "\<not> length bs < 8" "\<not> length (drop 8 bs) < ?n" "\<not> MAX_CHUNK_FILE_DATA_SIZE < ?n"
    and r: "data_create mem (take ?n (drop 8 bs)) ?n = Some r" and d: "data_charge_session r s ?a = Some (d, s')"
    and f': "f' = f\<lparr>fdata := d\<rparr>" and rest: "rest = drop ?n (drop 8 bs)"
    using assms by (simp add: read_data_def Let_def data_destroy_def split: if_splits option.splits prod.splits)
  have rr: "r = \<lparr>payload = Some (take ?n (drop 8 bs)), dsize = ?n, protocol_charge = 0, owned = False\<rparr>"
    using r by (simp add: data_create_def split: if_splits)
  have "0 < ?a" by simp
  from charge_ok [OF d _ _ this] have c: "payload d = Some (take ?n (drop 8 bs))" "dsize d = ?n"
    "protocol_charge d = (if s = None then 0 else ?a)" "owned d = (s \<noteq> None)" "s' = map_option (\<lambda>a. a + ?a) s"
    "\<forall>a. s' = Some a \<longrightarrow> a \<le> MAX_CONNECTION_MEMORY"
    by (simp_all add: rr)
  have cost: "cost f' = ?a" by (simp add: cost_def f' c(2))
  have "payload_ok d" using len by (simp add: payload_ok_def c(1,2) not_less)
  moreover have "charged s f'" by (simp add: charged_def cost) (simp add: f' c(3,4))
  moreover have "dsize d + length rest \<le> length bs" using len by (simp add: c(2) rest)
  ultimately show ?thesis using f' c(5,6) unfolding cost by blast
qed

lemma read_target_ok:
  assumes "read_target mem wire f bs = Some (f', rest)" and "symlink_target f = None"
  shows "\<exists>t. f' = f\<lparr>symlink_target := t\<rparr> \<and> (t \<noteq> None \<longleftrightarrow> is_symlink f) \<and> length rest \<le> length bs"
proof (cases "is_symlink f")
  case True
  with assms show ?thesis by (auto simp: read_target_def Let_def split: if_splits option.splits)
next
  case False
  with assms show ?thesis by (intro exI [of _ None]) (simp add: read_target_def)
qed

lemma read_file_ok:
  assumes "read_file mem wire um s bs = (s', Some (f, rest))"
  shows "file_ok um f \<and> charged s f \<and> s' = map_option (\<lambda>a. a + cost f) s \<and>
    (\<forall>a. s' = Some a \<longrightarrow> a \<le> MAX_CONNECTION_MEMORY) \<and> dsize (fdata f) + length rest < length bs"
proof -
  obtain f1 bs1 f2 bs2 where h: "read_head mem wire um bs = Some (f1, bs1)"
    and d: "read_data mem s f1 bs1 = Some (f2, s', bs2)" and t: "read_target mem wire f2 bs2 = Some (f, rest)"
    using assms by (auto simp: read_file_def split: option.splits prod.splits)
  from read_head_ok [OF h] have f1: "head_ok um f1" "symlink_target f1 = None" "protocol_charge (fdata f1) = 0" by simp_all
  from read_data_ok [OF d f1(3)] obtain dd where f2: "f2 = f1\<lparr>fdata := dd\<rparr>" "payload_ok dd" "charged s f2"
    "s' = map_option (\<lambda>a. a + cost f2) s" "\<forall>a. s' = Some a \<longrightarrow> a \<le> MAX_CONNECTION_MEMORY"
    "dsize dd + length bs2 \<le> length bs1" by blast
  have "symlink_target f2 = None" by (simp add: f2(1) f1(2))
  from read_target_ok [OF t this] obtain tt where f: "f = f2\<lparr>symlink_target := tt\<rparr>" "tt \<noteq> None \<longleftrightarrow> is_symlink f2"
    "length rest \<le> length bs2" by blast
  have c: "cost f = cost f2" "charged s f = charged s f2" by (simp_all add: f(1) cost_def charged_def)
  have "head_ok um f" using f1(1) by (simp add: f(1) f2(1) head_ok_def kind_ok_def)
  then have "file_ok um f" using f2(2) f(2) by (simp add: file_ok_def f(1) f2(1))
  moreover have "dsize (fdata f) + length rest < length bs"
    using f2(6) f(3) read_head_shorter [OF h] by (simp add: f(1) f2(1))
  ultimately show ?thesis unfolding c using f2(3-5) by blast
qed

lemma read_file_failed:
  assumes "read_file mem wire um s bs = (s', None)"
  shows "s' = s"
proof (cases "read_head mem wire um bs")
  case None
  with assms show ?thesis by (simp add: read_file_def)
next
  case (Some x)
  obtain f1 bs1 where x: "x = (f1, bs1)" by (cases x)
  show ?thesis
  proof (cases "read_data mem s f1 bs1")
    case None
    with assms Some x show ?thesis by (simp add: read_file_def)
  next
    case (Some y)
    obtain f2 s2 bs2 where y: "y = (f2, s2, bs2)" by (cases y)
    from read_head_ok \<open>read_head mem wire um bs = Some x\<close> x have "protocol_charge (fdata f1) = 0" by blast
    from read_data_ok [OF Some [unfolded y] this] have c: "charged s f2" "s2 = map_option (\<lambda>a. a + cost f2) s" by auto
    have "s' = file_destroy s2 f2"
      using assms Some \<open>read_head mem wire um bs = Some x\<close> x y by (simp add: read_file_def split: option.splits prod.splits)
    also have "\<dots> = s" using file_destroy_charged [OF c(1), of s2] c(2) by (cases s) simp_all
    finally show ?thesis .
  qed
qed

text \<open>The loop keeps this of the files read so far, from the session \<open>s\<close> it started with.\<close>

definition files_ok :: "bool \<Rightarrow> session \<Rightarrow> chunk_file list \<Rightarrow> bool" where
  "files_ok um s fs \<longleftrightarrow> list_all (file_ok um) fs \<and> list_all (charged s) fs \<and> length fs \<le> MAX_FILES_PER_CHUNK \<and>
     (fs \<noteq> [] \<longrightarrow> (\<forall>a. charge_all fs s = Some a \<longrightarrow> a \<le> MAX_CONNECTION_MEMORY))"

lemma charged_charge_all [simp]: "charged (charge_all fs s) f = charged s f"
  by (simp add: charged_def)

definition sizes :: "chunk_file list \<Rightarrow> nat" where
  "sizes fs = sum_list (map (\<lambda>f. dsize (fdata f)) fs)"

lemma read_files_ok:
  assumes "files_ok um s0 (elems files)" and "s = charge_all (elems files) s0"
    and "read_files mem wire um s files bs = (s', res)"
  shows "(case res of
      None \<Rightarrow> s' = s0
    | Some files' \<Rightarrow> files_ok um s0 (elems files') \<and> s' = charge_all (elems files') s0 \<and>
        sizes (elems files') \<le> sizes (elems files) + length bs)"
  using assms
proof (induction mem wire um s files bs rule: read_files.induct)
  case (1 mem wire um s files bs)
  note IH = "1.IH" and ok = "1.prems"(1) and s = "1.prems"(2)
  note run = "1.prems"(3) [unfolded read_files.simps [of mem wire um s files bs]]
  have ch: "list_all (charged s0) (elems files)" using ok by (simp add: files_ok_def)
  have undo: "destroy_files s files = s0" unfolding s by (rule destroy_files_charged [OF ch])
  show ?case
  proof (cases "bs = [] \<or> MAX_FILES_PER_CHUNK \<le> length (elems files)")
    case True
    then show ?thesis using run ok s undo by (cases "bs = []") auto
  next
    case False
    then have ne: "bs \<noteq> []" "\<not> MAX_FILES_PER_CHUNK \<le> length (elems files)" by auto
    obtain s1 r where rf: "read_file mem wire um s bs = (s1, r)" by (cases "read_file mem wire um s bs")
    show ?thesis
    proof (cases r)
      case None
      with read_file_failed [of mem wire um s bs s1] rf have "s1 = s" by simp
      with run undo have "s' = s0 \<and> res = None" by (simp only: ne rf None prod.case option.case if_False simp_thms) simp
      then show ?thesis by simp
    next
      case (Some q)
      obtain f rest where q: "q = (f, rest)" by (cases q)
      have fok: "file_ok um f" "charged s0 f" "s1 = charge_all (elems files @ [f]) s0"
        "\<forall>a. s1 = Some a \<longrightarrow> a \<le> MAX_CONNECTION_MEMORY" "dsize (fdata f) + length rest < length bs"
        using read_file_ok [of mem wire um s bs s1 f rest] rf Some q by (simp_all add: charge_all_snoc s)
      obtain b files1 where add: "array_list_add mem files f = (b, files1)" by (cases "array_list_add mem files f")
      show ?thesis
      proof (cases b)
        case True
        have e: "elems files1 = elems files @ [f]" using array_list_add_elems [of mem files f files1] add True by simp
        have ok1: "files_ok um s0 (elems files1)" using ok fok(1-4) ne by (simp add: files_ok_def e)
        have s1: "s1 = charge_all (elems files1) s0" by (simp add: e fok(3))
        have bT: "b = True" using True by simp
        have "read_files mem wire um s1 files1 rest = (s', res)"
          using run by (simp only: ne rf Some q add bT prod.case option.case if_False simp_thms bool.case)
        from IH [OF ne rf [symmetric] Some q [symmetric] add [symmetric] bT ok1 s1 this]
        show ?thesis using fok(5) by (cases res) (simp_all add: sizes_def e)
      next
        case False
        have "file_destroy s1 f = s"
          using file_destroy_charged [OF fok(2), of s1] fok(3) by (cases s0) (simp_all add: s charge_all_def)
        moreover have bF: "b = False" using False by simp
        ultimately have "s' = s0 \<and> res = None"
          using run undo by (simp only: ne rf Some q add bF prod.case option.case if_False simp_thms bool.case) simp
        then show ?thesis by simp
      qed
    qed
  qed
qed

lemma deserialize_ok:
  assumes "chunk_deserialize mem wire um d s = (s', res)"
  shows "case res of
      None \<Rightarrow> s' = s
    | Some fs \<Rightarrow> files_ok um s fs \<and> s' = charge_all fs s \<and> sizes fs \<le> dsize d"
proof (cases "(payload d = None \<and> dsize d \<noteq> 0) \<or> array_list_create mem = (None :: chunk_file array_list option)")
  case True
  then show ?thesis using assms by (auto simp: chunk_deserialize_def split: if_splits)
next
  case False
  define bs where "bs = (case payload d of Some b \<Rightarrow> take (dsize d) b | None \<Rightarrow> [])"
  from False obtain files :: "chunk_file array_list" where c: "array_list_create mem = Some files" by auto
  obtain s1 r where rf: "read_files mem wire um s files bs = (s1, r)"
    by (cases "read_files mem wire um s files bs")
  have "files_ok um s (elems files)" "s = charge_all (elems files) s"
    using array_list_create_elems [OF c] by (simp_all add: files_ok_def)
  from read_files_ok [OF this rf] have inv: "case r of None \<Rightarrow> s1 = s | Some fl \<Rightarrow> files_ok um s (elems fl) \<and>
      s1 = charge_all (elems fl) s \<and> sizes (elems fl) \<le> length bs"
    using array_list_create_elems [OF c] by (cases r) (simp_all add: sizes_def)
  have len: "length bs \<le> dsize d" by (simp add: bs_def split: option.splits)
  have g: "(payload d = None \<and> dsize d \<noteq> 0) = False" using False by blast
  note run = assms [unfolded chunk_deserialize_def g if_False c option.case bs_def [symmetric] rf]
  show ?thesis
  proof (cases r)
    case None
    then show ?thesis using run inv by simp
  next
    case (Some fl)
    then have undo: "destroy_files s1 fl = s" using inv destroy_files_charged [of s fl] by (simp add: files_ok_def)
    have "(if elems fl \<noteq> [] \<and> array_list_to_array mem fl = None then (s, None)
        else (case chunk_create mem (elems fl) of None \<Rightarrow> (s, None) | Some chunk \<Rightarrow> (s1, Some chunk))) = (s', res)"
      using run by (simp only: Some undo option.case prod.case)
    moreover have "chunk_create mem (elems fl) = Some fs \<Longrightarrow> fs = elems fl" for fs
      by (simp add: chunk_create_def split: if_splits)
    ultimately have "(s', res) = (s, None) \<or> (s', res) = (s1, Some (elems fl))"
      by (cases "chunk_create mem (elems fl)") (auto split: if_splits)
    then show ?thesis using inv Some len by auto
  qed
qed

section \<open>The sizes\<close>

text \<open>The conversion as both ends see it when memory is granted, and the size of an entry without the overflow
  checks.\<close>

definition encoded :: "converter \<Rightarrow> string \<Rightarrow> string" where
  "encoded wire p = (case decode_wire wire p of Some q \<Rightarrow> q | None \<Rightarrow> [])"

definition entry_size :: "converter \<Rightarrow> bool \<Rightarrow> chunk_file \<Rightarrow> nat" where
  "entry_size wire um f =
     8 + length (encoded wire (file_wire_path f)) + (if um then length (metadata_to_buf (metadata f)) else 0) + 4 +
     (if is_special f then 8 else 0) + 8 + dsize (fdata f) +
     (if is_symlink f then 8 + length (encoded wire (link_text f)) else 0)"

abbreviation granted :: allocator where
  "granted \<equiv> \<lambda>_. True"

lemma encode_granted [simp]: "chunk_encode_wire granted wire p = decode_wire wire p"
  by (simp add: chunk_encode_wire_def decode_wire_def str_dup_def split: option.splits)

lemma grow_size_Some: "sz + n \<le> UINT64_MAX \<Longrightarrow> grow_size n (Some sz) = Some (sz + n)"
  by (simp add: grow_size_def)

lemma length_counted [simp]: "length (counted s) = 8 + length s"
  by (simp add: counted_def string_bytes_def)

lemma per_file_size:
  assumes "decode_wire wire (file_wire_path f) \<noteq> None" and "is_symlink f \<Longrightarrow> decode_wire wire (link_text f) \<noteq> None"
    and "entry_size wire um f \<le> UINT64_MAX"
  shows "per_file_serialize_size granted wire f um = entry_size wire um f"
proof -
  define np where "np = length (encoded wire (file_wire_path f))"
  define nm where "nm = (if um then 4 + (if metadata f \<noteq> None then FILE_METADATA_WIRE_SIZE else 0) else 0)"
  define nd where "nd = dsize (fdata f)"
  define nt where "nt = length (encoded wire (link_text f))"
  obtain q where q: "decode_wire wire (file_wire_path f) = Some q" "length q = np"
    using assms(1) by (auto simp: np_def encoded_def)
  have t: "is_symlink f \<Longrightarrow> \<exists>r. decode_wire wire (link_text f) = Some r \<and> length r = nt"
    using assms(2) by (auto simp: nt_def encoded_def)
  have sz: "entry_size wire um f = 8 + np + nm + 4 + (if is_special f then 8 else 0) + 8 + nd +
      (if is_symlink f then 8 + nt else 0)"
    by (simp add: entry_size_def np_def nm_def nd_def nt_def length_metadata_to_buf)
  note le = assms(3) [unfolded sz]
  show ?thesis
    using t le by (cases "is_special f"; cases "is_symlink f")
      (auto simp: per_file_serialize_size_def q grow_size_Some nm_def [symmetric] nd_def [symmetric] Let_def sz)
qed

lemma file_bytes_size:
  assumes "file_bytes granted wire um f = Some b" and "payload_ok (fdata f)"
  shows "length b = entry_size wire um f"
  using assms
  by (auto simp: file_bytes_def payload_ok_def entry_size_def encoded_def Let_def split: option.splits if_splits)

section \<open>Round trip\<close>

text \<open>A name survives the wire: it is encoded to a non-empty C string which the other end decodes to it.\<close>

definition carries :: "converter \<Rightarrow> converter \<Rightarrow> string \<Rightarrow> bool" where
  "carries w1 w2 p \<longleftrightarrow> (\<exists>q. decode_wire w1 p = Some q \<and> cstring q \<and> q \<noteq> [] \<and> length q < SIZE_MAX \<and>
     decode_wire w2 q = Some p)"

definition sendable :: "converter \<Rightarrow> converter \<Rightarrow> bool \<Rightarrow> chunk_file \<Rightarrow> bool" where
  "sendable w1 w2 um f \<longleftrightarrow> path f \<noteq> [] \<and> ''..'' \<notin> set (components (path f)) \<and>
     file_wire_path f \<noteq> [] \<and> ''..'' \<notin> set (components (file_wire_path f)) \<and> carries w1 w2 (file_wire_path f) \<and>
     kind_ok f \<and> payload_ok (fdata f) \<and> opt_valid (metadata f) \<and>
     (if is_symlink f then symlink_target f \<noteq> None \<and> carries w1 w2 (link_text f) else symlink_target f = None)"

text \<open>The file the receiver builds.\<close>

definition received :: "bool \<Rightarrow> session \<Rightarrow> chunk_file \<Rightarrow> chunk_file" where
  "received um s f = f\<lparr>path := file_wire_path f, send_path := None, metadata := (if um then metadata f else None),
     fdata := (fdata f)\<lparr>protocol_charge := (if s = None then 0 else cost f), owned := (s \<noteq> None)\<rparr>\<rparr>"

lemma chars_of_bytes [simp]: "map char_of_byte (string_bytes s) = s"
  by (simp add: string_bytes_def comp_def)

lemma le_nat_size: "n \<le> SIZE_MAX \<Longrightarrow> le_nat (le_bytes 8 n) = n"
  by (simp add: limits)

lemma take_counted:
  assumes "length q < SIZE_MAX"
  shows "le_nat (take 8 (counted q @ rest)) = length q" "take (length q) (drop 8 (counted q @ rest)) = string_bytes q"
    "drop (length q) (drop 8 (counted q @ rest)) = rest"
  using le_nat_size [of "length q"] assms by (simp_all add: counted_def string_bytes_def)

lemma no_traversal: "has_path_traversal granted p \<longleftrightarrow> ''..'' \<in> set (components p)"
  by (auto simp: has_path_traversal_def str_dup_def list_ex_iff)

lemma read_path_counted:
  assumes "cstring q" and "length q < SIZE_MAX" and "decode_wire w q = Some p"
  shows "read_path granted w (counted q @ rest) =
    (if p = [] \<or> ''..'' \<in> set (components p) then None else Some (p, rest))"
proof -
  have "\<not> length (counted q @ rest) < 8" "\<not> SIZE_MAX - 1 < length q" "\<not> length (drop 8 (counted q @ rest)) < length q"
    using assms(2) by auto
  then show ?thesis
    unfolding read_path_def Let_def take_counted [OF assms(2)]
    using assms(1,3) by (simp add: cstring_def no_traversal)
qed

lemma read_target_counted:
  assumes "cstring q" and "q \<noteq> []" and "length q < SIZE_MAX" and "decode_wire w q = Some t" and "is_symlink f"
  shows "read_target granted w f (counted q @ rest) = Some (f\<lparr>symlink_target := Some t\<rparr>, rest)"
proof -
  have "\<not> length (counted q @ rest) < 8" "\<not> length (drop 8 (counted q @ rest)) < length q" by auto
  then show ?thesis
    unfolding read_target_def Let_def take_counted [OF assms(3)]
    using assms(1,2,4,5) by (simp add: cstring_def)
qed

lemma read_entry_type_enc:
  assumes "kind_ok f"
  shows "read_entry_type g (enc_u32 (entry_type f) @ rest) =
    Some (g\<lparr>is_dir := is_dir f, is_symlink := is_symlink f, is_special := is_special f\<rparr>, rest)"
  using assms by (cases "is_dir f"; cases "is_symlink f"; cases "is_special f")
    (simp_all add: read_entry_type_def Let_def entry_type_def kind_ok_def)

lemma read_rdev_enc:
  assumes "kind_ok f" and "is_special g = is_special f" and "rdev_major g = 0" and "rdev_minor g = 0"
  shows "read_rdev g ((if is_special f then enc_u32 (rdev_major f) @ enc_u32 (rdev_minor f) else []) @ rest) =
    Some (g\<lparr>rdev_major := rdev_major f, rdev_minor := rdev_minor f\<rparr>, rest)"
  using assms by (cases g) (simp add: read_rdev_def Let_def kind_ok_def)

lemma read_metadata_enc:
  assumes "opt_valid md" and "metadata g = None"
  shows "read_metadata granted um g ((if um then metadata_to_buf md else []) @ rest) =
    Some (g\<lparr>metadata := (if um then md else None)\<rparr>, rest)"
proof (cases "um \<and> md \<noteq> None")
  case False
  then show ?thesis using assms(2)
    by (cases g) (auto simp: read_metadata_def metadata_to_buf_def metadata_from_buf_def)
next
  case True
  then obtain m where md: "md = Some m" by auto
  let ?b = "metadata_to_buf (Some m) @ rest"
  have "dec_u32 ?b = 1" by (simp add: metadata_to_buf_def)
  moreover have "metadata_from_buf granted ?b = Some m"
    using metadata_from_to_buf [of granted m rest] assms(1) by (simp add: md opt_valid_def)
  ultimately show ?thesis using True
    by (simp add: read_metadata_def md length_metadata_to_buf)
qed

lemma read_data_enc:
  assumes "payload d = Some b" and "length b = dsize d" and "dsize d \<le> MAX_CHUNK_FILE_DATA_SIZE"
    and "protocol_charge (fdata g) = 0" and "\<forall>a. s = Some a \<longrightarrow> a + (if 0 < dsize d then dsize d else 1) \<le> MAX_CONNECTION_MEMORY"
  shows "read_data granted s g (le_bytes 8 (dsize d) @ b @ rest) =
    Some (g\<lparr>fdata := \<lparr>payload = Some b, dsize = dsize d,
        protocol_charge = (if s = None then 0 else if 0 < dsize d then dsize d else 1), owned = (s \<noteq> None)\<rparr>\<rparr>,
      map_option (\<lambda>a. a + (if 0 < dsize d then dsize d else 1)) s, rest)"
proof -
  let ?n = "dsize d" and ?bs = "le_bytes 8 (dsize d) @ b @ rest"
  let ?c = "if 0 < ?n then ?n else 1"
  have "?n \<le> SIZE_MAX" using assms(3) by (simp add: limits)
  then have t: "le_nat (take 8 ?bs) = ?n" by (simp add: le_nat_size)
  have r: "drop 8 ?bs = b @ rest" "take ?n (b @ rest) = b" "drop ?n (b @ rest) = rest" using assms(2) by simp_all
  have "data_charge_session \<lparr>payload = Some b, dsize = ?n, protocol_charge = 0, owned = False\<rparr> s ?c =
      Some (\<lparr>payload = Some b, dsize = ?n, protocol_charge = (if s = None then 0 else ?c), owned = (s \<noteq> None)\<rparr>,
        map_option (\<lambda>a. a + ?c) s)"
    using assms(5) by (cases s) (auto simp: data_charge_session_def chunk_session_reserve_def)
  moreover have "\<not> length ?bs < 8" "\<not> length (b @ rest) < ?n" "\<not> MAX_CHUNK_FILE_DATA_SIZE < ?n"
    using assms(2,3) by auto
  ultimately show ?thesis
    unfolding read_data_def Let_def t r by (simp add: data_create_def data_destroy_def assms(4))
qed

lemma read_file_bytes:
  assumes "sendable w1 w2 um f" and "\<forall>a. s = Some a \<longrightarrow> a + cost f \<le> MAX_CONNECTION_MEMORY"
    and "file_bytes granted w1 um f = Some b"
  shows "read_file granted w2 um s (b @ rest) = (charge_all [f] s, Some (received um s f, rest))"
proof -
  obtain q where q: "decode_wire w1 (file_wire_path f) = Some q" "cstring q" "q \<noteq> []" "length q < SIZE_MAX"
    "decode_wire w2 q = Some (file_wire_path f)"
    using assms(1) by (auto simp: sendable_def carries_def)
  have f: "file_wire_path f \<noteq> []" "''..'' \<notin> set (components (file_wire_path f))" "kind_ok f" "opt_valid (metadata f)"
    using assms(1) by (simp_all add: sendable_def)
  obtain c where c: "payload (fdata f) = Some c" "length c = dsize (fdata f)" "dsize (fdata f) \<le> MAX_CHUNK_FILE_DATA_SIZE"
    using assms(1) by (auto simp: sendable_def payload_ok_def)
  define tail where "tail = (if is_symlink f then counted (encoded w1 (link_text f)) else [])"
  have b: "b = counted q @ enc_u32 (entry_type f) @
      (if is_special f then enc_u32 (rdev_major f) @ enc_u32 (rdev_minor f) else []) @
      (if um then metadata_to_buf (metadata f) else []) @ le_bytes 8 (dsize (fdata f)) @ c @ tail"
    using assms(3) c by (auto simp: file_bytes_def q(1) tail_def encoded_def Let_def split: if_splits option.splits)
  define g where "g = \<lparr>path = file_wire_path f, send_path = None,
    fdata = \<lparr>payload = None, dsize = 0, protocol_charge = 0, owned = False\<rparr>, metadata = None, is_dir = False,
    is_symlink = False, symlink_target = None, is_special = False, rdev_major = 0, rdev_minor = 0\<rparr>"
  have "file_create granted (file_wire_path f) = Some g"
    by (simp add: file_create_def data_create_reserve_def g_def)
  then have head: "read_head granted w2 um (b @ rest) =
      Some (g\<lparr>is_dir := is_dir f, is_symlink := is_symlink f, is_special := is_special f,
        rdev_major := rdev_major f, rdev_minor := rdev_minor f, metadata := (if um then metadata f else None)\<rparr>,
        le_bytes 8 (dsize (fdata f)) @ c @ tail @ rest)"
    using f by (simp add: b read_head_def read_path_counted [OF q(2,4,5)] read_entry_type_enc read_rdev_enc
        read_metadata_enc g_def)
  have cost: "cost f = (if 0 < dsize (fdata f) then dsize (fdata f) else 1)" by (simp add: cost_def)
  show ?thesis
  proof (cases "is_symlink f")
    case True
    then obtain t r where t: "symlink_target f = Some t" "decode_wire w1 t = Some r" "cstring r" "r \<noteq> []"
      "length r < SIZE_MAX" "decode_wire w2 r = Some t"
      using assms(1) by (auto simp: sendable_def carries_def link_text_def)
    then have tail: "tail = counted r" using True by (simp add: tail_def encoded_def link_text_def)
    show ?thesis
      using assms(2) True t(1)
      by (simp add: read_file_def head read_data_enc [OF c] cost tail read_target_counted [OF t(3-6)] g_def
          received_def charge_all_def c(1))
  next
    case False
    then have "tail = []" "symlink_target f = None" using assms(1) by (simp_all add: tail_def sendable_def)
    with False show ?thesis
      using assms(2)
      by (simp add: read_file_def head read_data_enc [OF c] cost read_target_def g_def received_def charge_all_def c(1))
  qed
qed

abbreviation total_size :: "converter \<Rightarrow> bool \<Rightarrow> chunk_file list \<Rightarrow> nat" where
  "total_size wire um fs \<equiv> sum_list (map (entry_size wire um) fs)"

lemma sendable_decode:
  assumes "sendable w1 w2 um f"
  shows "decode_wire w1 (file_wire_path f) \<noteq> None" "is_symlink f \<Longrightarrow> decode_wire w1 (link_text f) \<noteq> None"
    "payload_ok (fdata f)" "\<not> file_refused granted f"
  using assms by (auto simp: sendable_def carries_def file_refused_def no_traversal payload_ok_def)

lemma file_bytes_sendable:
  assumes "sendable w1 w2 um f"
  shows "\<exists>b. file_bytes granted w1 um f = Some b \<and> length b = entry_size w1 um f \<and> b \<noteq> []"
proof -
  obtain b where b: "file_bytes granted w1 um f = Some b"
    using sendable_decode(1,2) [OF assms] by (cases "is_symlink f") (auto simp: file_bytes_def Let_def)
  have "length b = entry_size w1 um f" by (rule file_bytes_size [OF b sendable_decode(3) [OF assms]])
  moreover have "0 < entry_size w1 um f" by (simp add: entry_size_def)
  ultimately show ?thesis using b by auto
qed

lemma serialize_total_sendable:
  "list_all (sendable w1 w2 um) fs \<Longrightarrow> acc + total_size w1 um fs \<le> SIZE_MAX \<Longrightarrow>
   serialize_total granted w1 um fs acc = Some (acc + total_size w1 um fs)"
proof (induction fs arbitrary: acc)
  case (Cons f fs)
  have s: "sendable w1 w2 um f" using Cons.prems by simp
  have le: "entry_size w1 um f \<le> UINT64_MAX" using Cons.prems(2) by (simp add: limits)
  have "per_file_serialize_size granted w1 f um = entry_size w1 um f"
    using sendable_decode(1,2) [OF s] le by (rule per_file_size)
  moreover have "0 < entry_size w1 um f" by (simp add: entry_size_def)
  moreover have "serialize_total granted w1 um fs (acc + entry_size w1 um f) =
      Some (acc + entry_size w1 um f + total_size w1 um fs)"
    using Cons.IH [of "acc + entry_size w1 um f"] Cons.prems by simp
  ultimately show ?case using sendable_decode(4) [OF s] Cons.prems(2) by (simp add: limits Let_def)
qed simp

lemma received_charge [simp]: "received um (charge_all fs s) f = received um s f"
  by (simp add: received_def)

lemma array_list_add_granted:
  assumes "length (elems l) \<le> MAX_FILES_PER_CHUNK"
  shows "\<exists>l'. array_list_add granted l x = (True, l') \<and> elems l' = elems l @ [x]"
  using assms by (auto simp: array_list_add_def array_list_extend_def limits)

lemma read_serialized:
  assumes "list_all (sendable w1 w2 um) fs" and "length (elems files) + length fs \<le> MAX_FILES_PER_CHUNK"
    and "\<forall>a. charge_all fs s = Some a \<longrightarrow> a \<le> MAX_CONNECTION_MEMORY"
  shows "\<exists>bs files'. serialize_files granted w1 um fs = Some bs \<and> length bs = total_size w1 um fs \<and>
    read_files granted w2 um s files bs = (charge_all fs s, Some files') \<and>
    elems files' = elems files @ map (received um s) fs"
  using assms
proof (induction fs arbitrary: files s)
  case Nil
  then show ?case by (auto simp: read_files.simps [of _ _ _ _ _ "[]"])
next
  case (Cons f fs)
  have f: "sendable w1 w2 um f" using Cons.prems by simp
  obtain b where b: "file_bytes granted w1 um f = Some b" "length b = entry_size w1 um f" "b \<noteq> []"
    using file_bytes_sendable [OF f] by auto
  have budget: "\<forall>a. s = Some a \<longrightarrow> a + cost f \<le> MAX_CONNECTION_MEMORY"
    using Cons.prems(3) by (auto simp: charge_all_def)
  have step: "read_file granted w2 um s (b @ bs) = (charge_all [f] s, Some (received um s f, bs))" for bs
    by (rule read_file_bytes [OF f budget b(1)])
  obtain files1 where add: "array_list_add granted files (received um s f) = (True, files1)"
    and e: "elems files1 = elems files @ [received um s f]"
    using array_list_add_granted [of files] Cons.prems(2) by auto
  have cc: "charge_all fs (charge_all [f] s) = charge_all (f # fs) s"
    by (cases s) (simp_all add: charge_all_def add.assoc)
  obtain bs files' where IH: "serialize_files granted w1 um fs = Some bs" "length bs = total_size w1 um fs"
    "read_files granted w2 um (charge_all [f] s) files1 bs = (charge_all (f # fs) s, Some files')"
    "elems files' = elems files1 @ map (received um s) fs"
    using Cons.IH [of files1 "charge_all [f] s"] Cons.prems by (auto simp: e cc)
  have "\<not> MAX_FILES_PER_CHUNK \<le> length (elems files)" using Cons.prems(2) by simp
  then have "read_files granted w2 um s files (b @ bs) = (charge_all (f # fs) s, Some files')"
    using b(3) by (simp add: read_files.simps [of _ _ _ s] step add IH(3))
  then show ?case using b IH by (simp add: e)
qed

lemma chunk_trip:
  assumes "list_all (sendable w1 w2 um) fs" and "length fs \<le> MAX_FILES_PER_CHUNK" and "total_size w1 um fs \<le> SIZE_MAX"
    and "\<forall>a. charge_all fs s = Some a \<longrightarrow> a \<le> MAX_CONNECTION_MEMORY"
  shows "\<exists>d bs. chunk_serialize granted w1 fs um = Some d \<and> payload d = Some bs \<and> length bs = dsize d \<and>
    dsize d = total_size w1 um fs \<and> chunk_deserialize granted w2 um d s = (charge_all fs s, Some (map (received um s) fs))"
proof -
  obtain files :: "chunk_file array_list" where c: "array_list_create granted = Some files" "elems files = []"
    by (simp add: array_list_create_def)
  obtain bs files' where r: "serialize_files granted w1 um fs = Some bs" "length bs = total_size w1 um fs"
    "read_files granted w2 um s files bs = (charge_all fs s, Some files')" "elems files' = map (received um s) fs"
    using read_serialized [OF assms(1) _ assms(4), of files] assms(2) c(2) by auto
  have "chunk_serialize granted w1 fs um =
      Some \<lparr>payload = Some bs, dsize = total_size w1 um fs, protocol_charge = 0, owned = False\<rparr>"
    using serialize_total_sendable [OF assms(1), of 0] assms(3)
    by (simp add: chunk_serialize_def r(1) data_create_empty_def data_create_def)
  moreover have "chunk_create granted (elems files') = Some (elems files')"
    using assms(2) by (simp add: chunk_create_def r(4) limits)
  ultimately show ?thesis
    using r c by (simp add: chunk_deserialize_def array_list_to_array_def)
qed

section \<open>Properties\<close>

text \<open>C34: The chunk round trip. When memory is granted, the files can be sent (names that both converters agree on,
  no parent components, loaded payloads of at most 64 MB, valid metadata, one kind per entry), the total fits and the
  session's budget covers the payloads, packing succeeds, the computed size is exactly the number of bytes written, and
  unpacking on the other side gives the same files in the same order, under their wire paths and charged to the
  session.\<close>

theorem chunk_roundtrip:
  assumes "list_all (sendable w1 w2 um) fs" and "length fs \<le> MAX_FILES_PER_CHUNK"
    and "sum_list (map (entry_size w1 um) fs) \<le> SIZE_MAX"
    and "\<forall>a. charge_all fs s = Some a \<longrightarrow> a \<le> MAX_CONNECTION_MEMORY" and "\<And>n. mem1 n" and "\<And>n. mem2 n"
  shows "\<exists>d bs. chunk_serialize mem1 w1 fs um = Some d \<and> payload d = Some bs \<and> length bs = dsize d \<and>
    chunk_deserialize mem2 w2 um d s = (charge_all fs s, Some (map (received um s) fs))"
proof -
  have "mem1 = granted" "mem2 = granted" using assms(5,6) by (simp_all add: fun_eq_iff)
  then show ?thesis using chunk_trip [OF assms(1-4)] by auto
qed

definition demo_file :: chunk_file where
  "demo_file = \<lparr>path = ''/src/a'', send_path = Some ''a'',
     fdata = \<lparr>payload = Some [1, 2, 3], dsize = 3, protocol_charge = 0, owned = False\<rparr>,
     metadata = Some demo_metadata, is_dir = False, is_symlink = False, symlink_target = None, is_special = False,
     rdev_major = 0, rdev_minor = 0\<rparr>"

definition demo_link :: chunk_file where
  "demo_link = demo_file\<lparr>path := ''l'', send_path := None, metadata := None, is_symlink := True,
     fdata := \<lparr>payload = Some [], dsize = 0, protocol_charge = 0, owned = False\<rparr>, symlink_target := Some ''a''\<rparr>"

theorem chunk_roundtrip_witness:
  "\<exists>d. chunk_serialize (\<lambda>_. True) None [demo_file, demo_link] True = Some d \<and>
     chunk_deserialize (\<lambda>_. True) None True d (Some 10) =
       (Some 14, Some [received True (Some 10) demo_file, received True (Some 10) demo_link])"
proof -
  have c: "components ''a'' = [''a'']" "components ''l'' = [''l'']" "components ''src/a'' = [''src'', ''a'']"
    by (simp_all add: components_def)
  have "list_all (sendable None None True) [demo_file, demo_link]"
    by (simp add: sendable_def demo_file_def demo_link_def demo_metadata_def carries_def decode_wire_def cstring_def NUL_def
        file_wire_path_def link_text_def kind_ok_def payload_ok_def opt_valid_def metadata_valid_def nsec_ok_def c limits)
  moreover have "sum_list (map (entry_size None True) [demo_file, demo_link]) \<le> SIZE_MAX"
    by (simp add: entry_size_def demo_file_def demo_link_def encoded_def decode_wire_def file_wire_path_def link_text_def
        length_metadata_to_buf FILE_METADATA_WIRE_SIZE_def limits)
  moreover have ch: "charge_all [demo_file, demo_link] (Some 10) = Some 14"
    by (simp add: charge_all_def cost_def demo_file_def demo_link_def)
  ultimately show ?thesis
    using chunk_roundtrip [of None None True "[demo_file, demo_link]" "Some 10" "\<lambda>_. True" "\<lambda>_. True"]
    by (auto simp: limits)
qed

text \<open>C35: Unpacking is safe on every input. A refused chunk leaves the session's budget as it was. An accepted one has at
  most 65536 files, whose payloads together are no larger than the input; the session is charged for exactly these
  payloads and stays within its limit; every file has a non-empty path without parent components, a payload of its
  stated size and at most 64 MB, valid metadata, one kind, a device number in range and a target only if it is a
  symlink.\<close>

theorem chunk_deserialize_safe:
  assumes "chunk_deserialize mem wire um d s = (s', res)"
  shows "(res = None \<longrightarrow> s' = s) \<and>
    (\<forall>fs. res = Some fs \<longrightarrow> length fs \<le> MAX_FILES_PER_CHUNK \<and> sizes fs \<le> dsize d \<and> s' = charge_all fs s \<and>
      (fs \<noteq> [] \<longrightarrow> (\<forall>a. s' = Some a \<longrightarrow> a \<le> MAX_CONNECTION_MEMORY)) \<and> list_all (file_ok um) fs)"
  using deserialize_ok [OF assms] by (cases res) (auto simp: files_ok_def)

definition demo_bad :: data where
  "demo_bad = \<lparr>payload = Some (counted ''../x'' @ replicate 20 0), dsize = 32, protocol_charge = 0, owned = True\<rparr>"

theorem chunk_deserialize_safe_witness:
  "\<exists>s'. chunk_deserialize (\<lambda>_. True) None False demo_bad (Some 10) = (s', None) \<and> s' = Some 10"
proof -
  have "components ''../x'' = [''..'', ''x'']" by (simp add: components_def)
  then have "read_path (\<lambda>_. True) None (counted ''../x'' @ replicate 20 0) = None"
    using read_path_counted [of "''../x''" None "''../x''"]
    by (simp add: decode_wire_def cstring_def NUL_def limits)
  then have "snd (chunk_deserialize (\<lambda>_. True) None False demo_bad (Some 10)) = None"
    by (simp add: chunk_deserialize_def demo_bad_def array_list_create_def read_files.simps [of _ _ _ "Some 10"]
        read_file_def read_head_def limits)
  then obtain s' where "chunk_deserialize (\<lambda>_. True) None False demo_bad (Some 10) = (s', None)"
    by (cases "chunk_deserialize (\<lambda>_. True) None False demo_bad (Some 10)") simp
  with chunk_deserialize_safe [OF this] show ?thesis by simp
qed

end
