(* ===== verification/Chmod.thy ===== *)
theory Chmod
  imports Prelude
begin

text \<open>
  The \<open>--chmod\<close> interpreter, \<open>src/src/shared/chmod.c\<close>: a state machine that reads a comma-separated
  list of clauses and applies each to a mode as soon as it is complete. \<open>int\<close> and \<open>unsigned\<close> are
  32-bit words here; the values stay so small that signed arithmetic agrees with it. The process umask is
  an argument. Octal constants are written in hexadecimal.
\<close>

section \<open>Definitions\<close>

definition CHMOD_BITS :: u32 where
  "CHMOD_BITS = 0xFFF"

datatype chmod_op = CHMOD_OP_NONE | CHMOD_OP_ADD | CHMOD_OP_SUB | CHMOD_OP_EQ | CHMOD_OP_SET

datatype chmod_state = CHMOD_STATE_ERROR | CHMOD_STATE_1ST_HALF | CHMOD_STATE_2ND_HALF | CHMOD_STATE_OCTAL

text \<open>The local variables; the three flags are the bits of \<open>flags\<close>.\<close>

record chmod_vars =
  changed :: u32
  cstate :: chmod_state
  who :: u32
  what :: u32
  cop :: chmod_op
  topbits :: u32
  topoct :: u32
  x_keep :: bool
  dirs_only :: bool
  files_only :: bool

definition fresh :: "u32 \<Rightarrow> chmod_vars" where
  "fresh m = \<lparr>changed = m, cstate = CHMOD_STATE_1ST_HALF, who = 0, what = 0, cop = CHMOD_OP_NONE, topbits = 0,
     topoct = 0, x_keep = False, dirs_only = False, files_only = False\<rparr>"

definition S_ISDIR :: "u32 \<Rightarrow> bool" where
  "S_ISDIR m \<longleftrightarrow> m AND 0xF000 = 0x4000"

text \<open>The end of a clause: \<open>bits\<close>, the two masks, and the change.\<close>

definition apply_clause :: "u32 \<Rightarrow> bool \<Rightarrow> bool \<Rightarrow> chmod_vars \<Rightarrow> u32" where
  "apply_clause umask dir initially_executable v =
     (let (w, bits) = (if who v \<noteq> 0 then (who v, who v * what v) else (0x49, (0x49 * what v) AND NOT umask));
          (mode_and, mode_or) =
            (case cop v of
               CHMOD_OP_ADD \<Rightarrow> (CHMOD_BITS, bits + topoct v)
             | CHMOD_OP_SUB \<Rightarrow> (CHMOD_BITS - bits - topoct v, 0)
             | CHMOD_OP_EQ \<Rightarrow> (CHMOD_BITS - w * 7 - (if topoct v \<noteq> 0 then topbits v else 0), bits + topoct v)
             | _ \<Rightarrow> (0, bits))
      in if \<not> (dirs_only v \<and> \<not> dir) \<and> \<not> (files_only v \<and> dir) then
           (if x_keep v \<and> \<not> initially_executable \<and> \<not> dir
            then (changed v AND mode_and) OR (mode_or AND NOT 0x49)
            else (changed v AND mode_and) OR mode_or)
         else changed v)"

definition octal_digit :: "char \<Rightarrow> bool" where
  "octal_digit c \<longleftrightarrow> of_char (CHR ''0'') \<le> (of_char c :: nat) \<and> of_char c \<le> (of_char (CHR ''7'') :: nat)"

definition digit_value :: "char \<Rightarrow> u32" where
  "digit_value c = word_of_nat (of_char c) - word_of_nat (of_char (CHR ''0''))"

text \<open>One character other than the comma.\<close>

definition chmod_step :: "char \<Rightarrow> chmod_vars \<Rightarrow> chmod_vars" where
  "chmod_step c v =
     (case cstate v of
        CHMOD_STATE_1ST_HALF \<Rightarrow>
          (if c = CHR ''D'' then
             (if files_only v then v\<lparr>cstate := CHMOD_STATE_ERROR\<rparr> else v\<lparr>dirs_only := True\<rparr>)
           else if c = CHR ''F'' then
             (if dirs_only v then v\<lparr>cstate := CHMOD_STATE_ERROR\<rparr> else v\<lparr>files_only := True\<rparr>)
           else if c = CHR ''u'' then v\<lparr>who := who v OR 0x40, topbits := topbits v OR 0x800\<rparr>
           else if c = CHR ''g'' then v\<lparr>who := who v OR 0x8, topbits := topbits v OR 0x400\<rparr>
           else if c = CHR ''o'' then v\<lparr>who := who v OR 0x1\<rparr>
           else if c = CHR ''a'' then v\<lparr>who := who v OR 0x49\<rparr>
           else if c = CHR ''+'' then v\<lparr>cop := CHMOD_OP_ADD, cstate := CHMOD_STATE_2ND_HALF\<rparr>
           else if c = CHR ''-'' then v\<lparr>cop := CHMOD_OP_SUB, cstate := CHMOD_STATE_2ND_HALF\<rparr>
           else if c = CHR ''='' then v\<lparr>cop := CHMOD_OP_EQ, cstate := CHMOD_STATE_2ND_HALF\<rparr>
           else if octal_digit c \<and> who v = 0 then
             v\<lparr>cop := CHMOD_OP_SET, cstate := CHMOD_STATE_OCTAL, who := 1, what := digit_value c\<rparr>
           else v\<lparr>cstate := CHMOD_STATE_ERROR\<rparr>)
      | CHMOD_STATE_2ND_HALF \<Rightarrow>
          (if c = CHR ''r'' then v\<lparr>what := what v OR 4\<rparr>
           else if c = CHR ''w'' then v\<lparr>what := what v OR 2\<rparr>
           else if c = CHR ''X'' then v\<lparr>x_keep := True, what := what v OR 1\<rparr>
           else if c = CHR ''x'' then v\<lparr>what := what v OR 1\<rparr>
           else if c = CHR ''s'' then
             (if topbits v \<noteq> 0 then v\<lparr>topoct := topoct v OR topbits v\<rparr> else v\<lparr>topoct := 0x800\<rparr>)
           else if c = CHR ''t'' then v\<lparr>topoct := topoct v OR 0x200\<rparr>
           else v\<lparr>cstate := CHMOD_STATE_ERROR\<rparr>)
      | _ \<Rightarrow>
          (if octal_digit c then
             (let n = what v * 8 + digit_value c in
              if CHMOD_BITS < n then v\<lparr>what := n, cstate := CHMOD_STATE_ERROR\<rparr> else v\<lparr>what := n\<rparr>)
           else v\<lparr>cstate := CHMOD_STATE_ERROR\<rparr>))"

text \<open>The loop; \<open>None\<close> is the exit in the error state, else the final value of \<open>changed\<close>.\<close>

fun chmod_loop :: "u32 \<Rightarrow> bool \<Rightarrow> bool \<Rightarrow> string \<Rightarrow> chmod_vars \<Rightarrow> u32 option" where
  "chmod_loop umask dir ix p v =
     (if cstate v = CHMOD_STATE_ERROR then None
      else case p of
        [] \<Rightarrow> if cop v = CHMOD_OP_NONE then None else Some (apply_clause umask dir ix v)
      | c # cs \<Rightarrow>
          if c = CHR '','' then
            (if cop v = CHMOD_OP_NONE then None
             else chmod_loop umask dir ix cs (fresh (apply_clause umask dir ix v)))
          else chmod_loop umask dir ix cs (chmod_step c v))"

declare chmod_loop.simps [simp del]

text \<open>\<open>None\<close> is the result \<open>false\<close>.\<close>

definition chmod_apply :: "u32 \<Rightarrow> u32 \<Rightarrow> string \<Rightarrow> u32 option" where
  "chmod_apply umask mode spec =
     (if spec = [] then None
      else let nonperm = mode AND NOT CHMOD_BITS in
        (case chmod_loop umask (S_ISDIR nonperm) (mode AND 0x49 \<noteq> 0) spec (fresh mode) of
           None \<Rightarrow> None
         | Some m \<Rightarrow> Some ((m AND CHMOD_BITS) OR nonperm)))"

section \<open>The meaning of a clause\<close>

datatype selector = Everything | Dirs | Files

datatype owner_class = User | Group | Other | All

datatype change = Add | Remove | Assign

datatype perm = Read | Write | Exec | Exec_Keep | Setid | Sticky

datatype clause = Symbolic selector "owner_class list" change "perm list" | Octal selector "nat list"

definition class_mask :: "owner_class \<Rightarrow> u32" where
  "class_mask k = (case k of User \<Rightarrow> 0x1C0 | Group \<Rightarrow> 0x38 | Other \<Rightarrow> 0x7 | All \<Rightarrow> 0x1FF)"

definition setid_mask :: "owner_class \<Rightarrow> u32" where
  "setid_mask k = (case k of User \<Rightarrow> 0x800 | Group \<Rightarrow> 0x400 | _ \<Rightarrow> 0)"

definition perm_mask :: "perm \<Rightarrow> u32" where
  "perm_mask q = (case q of Read \<Rightarrow> 0x124 | Write \<Rightarrow> 0x92 | Exec \<Rightarrow> 0x49 | Exec_Keep \<Rightarrow> 0x49 | _ \<Rightarrow> 0)"

definition ors :: "u32 list \<Rightarrow> u32" where
  "ors ws = fold (\<lambda>x y. y OR x) ws 0"

text \<open>The special bits: set-id of the named classes, or set-user-id alone when neither user nor group is named, in
  which case it replaces a sticky bit asked for before.\<close>

definition special_step :: "u32 \<Rightarrow> perm \<Rightarrow> u32 \<Rightarrow> u32" where
  "special_step setid q t =
     (case q of Setid \<Rightarrow> (if setid \<noteq> 0 then t OR setid else 0x800) | Sticky \<Rightarrow> t OR 0x200 | _ \<Rightarrow> t)"

definition meaning :: "u32 \<Rightarrow> bool \<Rightarrow> bool \<Rightarrow> clause \<Rightarrow> u32 \<Rightarrow> u32" where
  "meaning umask dir ix cl m =
     (case cl of
        Octal sel ds \<Rightarrow>
          if (sel = Dirs \<and> \<not> dir) \<or> (sel = Files \<and> dir) then m
          else word_of_nat (fold (\<lambda>d v. v * 8 + d) ds 0)
      | Symbolic sel ks ch qs \<Rightarrow>
          if (sel = Dirs \<and> \<not> dir) \<or> (sel = Files \<and> dir) then m
          else
            let setid = ors (map setid_mask ks);
                classes = (if ks = [] then 0x1FF else ors (map class_mask ks));
                rwx = classes AND ors (map perm_mask qs);
                rwx = (if ks = [] then rwx AND NOT umask else rwx);
                special = fold (special_step setid) qs 0;
                named = rwx OR special;
                given = (if Exec_Keep \<in> set qs \<and> \<not> ix \<and> \<not> dir then named AND NOT 0x49 else named)
            in (case ch of
                  Add \<Rightarrow> m OR given
                | Remove \<Rightarrow> m AND NOT named
                | Assign \<Rightarrow> (m AND NOT (classes OR (if special \<noteq> 0 then setid else 0))) OR given))"

text \<open>How a clause is written.\<close>

definition selector_text :: "selector \<Rightarrow> string" where
  "selector_text sel = (case sel of Everything \<Rightarrow> [] | Dirs \<Rightarrow> ''D'' | Files \<Rightarrow> ''F'')"

definition class_char :: "owner_class \<Rightarrow> char" where
  "class_char k = (case k of User \<Rightarrow> CHR ''u'' | Group \<Rightarrow> CHR ''g'' | Other \<Rightarrow> CHR ''o'' | All \<Rightarrow> CHR ''a'')"

definition change_char :: "change \<Rightarrow> char" where
  "change_char ch = (case ch of Add \<Rightarrow> CHR ''+'' | Remove \<Rightarrow> CHR ''-'' | Assign \<Rightarrow> CHR ''='')"

definition perm_char :: "perm \<Rightarrow> char" where
  "perm_char q = (case q of Read \<Rightarrow> CHR ''r'' | Write \<Rightarrow> CHR ''w'' | Exec \<Rightarrow> CHR ''x'' | Exec_Keep \<Rightarrow> CHR ''X'' |
     Setid \<Rightarrow> CHR ''s'' | Sticky \<Rightarrow> CHR ''t'')"

definition digit_char :: "nat \<Rightarrow> char" where
  "digit_char d = char_of (48 + d)"

definition clause_text :: "clause \<Rightarrow> string" where
  "clause_text cl =
     (case cl of
        Symbolic sel ks ch qs \<Rightarrow> selector_text sel @ map class_char ks @ [change_char ch] @ map perm_char qs
      | Octal sel ds \<Rightarrow> selector_text sel @ map digit_char ds)"

text \<open>An octal clause has digits and a value of at most 07777.\<close>

definition clause_ok :: "clause \<Rightarrow> bool" where
  "clause_ok cl =
     (case cl of
        Symbolic _ _ _ _ \<Rightarrow> True
      | Octal _ ds \<Rightarrow> ds \<noteq> [] \<and> list_all (\<lambda>d. d < 8) ds \<and> fold (\<lambda>d v. v * 8 + d) ds 0 \<le> (0xFFF :: nat))"

fun clauses_text :: "clause list \<Rightarrow> string" where
  "clauses_text [] = []"
| "clauses_text [cl] = clause_text cl"
| "clauses_text (cl # cls) = clause_text cl @ CHR '','' # clauses_text cls"

section \<open>Reading a clause\<close>

lemma error_sticky: "cstate v = CHMOD_STATE_ERROR \<Longrightarrow> cstate (fold chmod_step s v) = CHMOD_STATE_ERROR"
  by (induction s arbitrary: v) (simp_all add: chmod_step_def Let_def)

lemma loop_run:
  assumes "CHR '','' \<notin> set s" and "cstate (fold chmod_step s v) \<noteq> CHMOD_STATE_ERROR"
  shows "chmod_loop umask dir ix (s @ p) v = chmod_loop umask dir ix p (fold chmod_step s v)"
  using assms
proof (induction s arbitrary: v)
  case (Cons c s)
  then have "cstate v \<noteq> CHMOD_STATE_ERROR" using error_sticky [of v "c # s"] by auto
  with Cons show ?case by (auto simp: chmod_loop.simps [of _ _ _ "c # _"])
qed simp

definition who_bit :: "owner_class \<Rightarrow> u32" where
  "who_bit k = (case k of User \<Rightarrow> 0x40 | Group \<Rightarrow> 0x8 | Other \<Rightarrow> 0x1 | All \<Rightarrow> 0x49)"

definition what_bit :: "perm \<Rightarrow> u32" where
  "what_bit q = (case q of Read \<Rightarrow> 4 | Write \<Rightarrow> 2 | Exec \<Rightarrow> 1 | Exec_Keep \<Rightarrow> 1 | _ \<Rightarrow> 0)"

abbreviation or_all :: "('a \<Rightarrow> u32) \<Rightarrow> 'a list \<Rightarrow> u32 \<Rightarrow> u32" where
  "or_all f xs \<equiv> fold (\<lambda>x y. y OR f x) xs"

lemma ors_map: "ors (map f xs) = or_all f xs 0"
  by (simp add: ors_def fold_map comp_def)

lemma scan_selector:
  "fold chmod_step (selector_text sel) (fresh m) = (fresh m)\<lparr>dirs_only := (sel = Dirs), files_only := (sel = Files)\<rparr>"
  by (cases sel) (simp_all add: selector_text_def chmod_step_def fresh_def)

lemma scan_classes:
  "cstate v = CHMOD_STATE_1ST_HALF \<Longrightarrow> fold chmod_step (map class_char ks) v =
     v\<lparr>who := or_all who_bit ks (who v), topbits := or_all setid_mask ks (topbits v)\<rparr>"
proof (induction ks arbitrary: v)
  case (Cons k ks)
  have "chmod_step (class_char k) v = v\<lparr>who := who v OR who_bit k, topbits := topbits v OR setid_mask k\<rparr>"
    using Cons.prems by (cases k) (simp_all add: chmod_step_def class_char_def who_bit_def setid_mask_def)
  with Cons show ?case by simp
qed simp

lemma scan_change:
  "cstate v = CHMOD_STATE_1ST_HALF \<Longrightarrow> chmod_step (change_char ch) v =
     v\<lparr>cop := (case ch of Add \<Rightarrow> CHMOD_OP_ADD | Remove \<Rightarrow> CHMOD_OP_SUB | Assign \<Rightarrow> CHMOD_OP_EQ),
       cstate := CHMOD_STATE_2ND_HALF\<rparr>"
  by (cases ch) (simp_all add: chmod_step_def change_char_def)

lemma scan_perms:
  "cstate v = CHMOD_STATE_2ND_HALF \<Longrightarrow> fold chmod_step (map perm_char qs) v =
     v\<lparr>what := or_all what_bit qs (what v), topoct := fold (special_step (topbits v)) qs (topoct v),
       x_keep := (x_keep v \<or> Exec_Keep \<in> set qs)\<rparr>"
proof (induction qs arbitrary: v)
  case (Cons q qs)
  have "chmod_step (perm_char q) v = v\<lparr>what := what v OR what_bit q, topoct := special_step (topbits v) q (topoct v),
      x_keep := (x_keep v \<or> q = Exec_Keep)\<rparr>"
    using Cons.prems by (cases q) (simp_all add: chmod_step_def perm_char_def what_bit_def special_step_def)
  with Cons show ?case by (simp add: eq_commute)
qed simp

section \<open>The arithmetic of the masks\<close>

lemma who_values:
  "or_all who_bit ks 0 \<in> {0, 1, 8, 9, 0x40, 0x41, 0x48, 0x49} \<and> or_all class_mask ks 0 = or_all who_bit ks 0 * 7 \<and>
   (ks \<noteq> [] \<longrightarrow> or_all who_bit ks 0 \<noteq> 0)"
proof (induction ks rule: rev_induct)
  case (snoc k ks)
  then show ?case by (cases k) (auto simp: who_bit_def class_mask_def)
qed simp

lemma what_values:
  "or_all what_bit qs 0 \<in> {0, 1, 2, 3, 4, 5, 6, 7} \<and> or_all perm_mask qs 0 = or_all what_bit qs 0 * 0x49"
proof (induction qs rule: rev_induct)
  case (snoc q qs)
  then show ?case by (cases q) (auto simp: what_bit_def perm_mask_def)
qed simp

lemma product_mask:
  assumes "w \<in> {0, 1, 8, 9, 0x40, 0x41, 0x48, 0x49 :: u32}" and "q \<in> {0, 1, 2, 3, 4, 5, 6, 7 :: u32}"
  shows "w * q = (w * 7) AND (q * 0x49)" and "(w * 7) AND 0x1FF = w * 7"
  using assms by auto

lemma setid_values: "or_all setid_mask ks 0 \<in> {0, 0x400, 0x800, 0xC00}"
proof (induction ks rule: rev_induct)
  case (snoc k ks)
  then show ?case by (cases k) (auto simp: setid_mask_def)
qed simp

lemma special_values:
  assumes "setid \<in> {0, 0x400, 0x800, 0xC00}"
  shows "fold (special_step setid) qs 0 \<in> {0, 0x200, 0x400, 0x600, 0x800, 0xA00, 0xC00, 0xE00}"
proof (induction qs rule: rev_induct)
  case (snoc q qs)
  then show ?case using assms by (cases q) (auto simp: special_step_def)
qed simp

lemma bits12 [simp]: "bit CHMOD_BITS n \<longleftrightarrow> n < 12"
proof -
  have e: "CHMOD_BITS = mask 12" by (simp add: CHMOD_BITS_def mask_eq_exp_minus_1)
  show ?thesis unfolding e by (auto simp: bit_simps)
qed

lemma low_bits: "b AND 0x1FF = b \<Longrightarrow> bit (b :: u32) n \<Longrightarrow> n < 9"
proof -
  assume "b AND 0x1FF = b" and "bit b n"
  then have "bit (b AND mask 9) n" by (simp add: mask_eq_exp_minus_1)
  then show "n < 9" by (simp add: bit_simps)
qed

lemma high_bits: "t \<in> {0, 0x200, 0x400, 0x600, 0x800, 0xA00, 0xC00, 0xE00 :: u32} \<Longrightarrow> bit t n \<Longrightarrow> 9 \<le> n \<and> n < 12"
proof -
  assume "t \<in> {0, 0x200, 0x400, 0x600, 0x800, 0xA00, 0xC00, 0xE00 :: u32}" and b: "bit t n"
  then have "t = push_bit 9 (mask 3 AND drop_bit 9 t)" by (auto simp: mask_eq_exp_minus_1)
  with b have "bit (push_bit 9 (mask 3 AND drop_bit 9 t)) n" by simp
  then show "9 \<le> n \<and> n < 12" by (auto simp: bit_simps)
qed

lemma mask_sum:
  assumes "b AND 0x1FF = (b :: u32)" and "t \<in> {0, 0x200, 0x400, 0x600, 0x800, 0xA00, 0xC00, 0xE00 :: u32}"
  shows "b + t = b OR t" and "CHMOD_BITS - b - t = CHMOD_BITS AND NOT (b OR t)"
proof -
  note n = low_bits [OF assms(1)] high_bits [OF assms(2)]
  have "b AND t = 0" by (rule bit_eqI) (use n in \<open>force simp: bit_simps\<close>)
  then show "b + t = b OR t" by (simp add: disjunctive_add_eq_or)
  then have "CHMOD_BITS - b - t = CHMOD_BITS - (b OR t)" by (simp add: diff_diff_eq)
  also have "\<dots> = CHMOD_BITS AND NOT (b OR t)"
    by (rule disjunctive_diff_eq_and_not, rule bit_eqI) (use n in \<open>force simp: bit_simps\<close>)
  finally show "CHMOD_BITS - b - t = CHMOD_BITS AND NOT (b OR t)" .
qed

text \<open>A symbolic clause read from a fresh state, and its effect.\<close>

definition symbolic_vars :: "u32 \<Rightarrow> selector \<Rightarrow> owner_class list \<Rightarrow> change \<Rightarrow> perm list \<Rightarrow> chmod_vars" where
  "symbolic_vars m sel ks ch qs =
     \<lparr>changed = m, cstate = CHMOD_STATE_2ND_HALF, who = or_all who_bit ks 0, what = or_all what_bit qs 0,
      cop = (case ch of Add \<Rightarrow> CHMOD_OP_ADD | Remove \<Rightarrow> CHMOD_OP_SUB | Assign \<Rightarrow> CHMOD_OP_EQ),
      topbits = or_all setid_mask ks 0, topoct = fold (special_step (or_all setid_mask ks 0)) qs 0,
      x_keep = (Exec_Keep \<in> set qs), dirs_only = (sel = Dirs), files_only = (sel = Files)\<rparr>"

lemma scan_symbolic:
  "fold chmod_step (clause_text (Symbolic sel ks ch qs)) (fresh m) = symbolic_vars m sel ks ch qs"
  by (simp add: clause_text_def scan_selector [unfolded fresh_def] scan_classes scan_change scan_perms fresh_def symbolic_vars_def)

lemma rwx_mask:
  assumes "W = or_all who_bit ks 0" and "Q = or_all what_bit qs 0"
  shows "(if ks = [] then 0x1FF else ors (map class_mask ks)) = (if W \<noteq> 0 then W else 0x49) * 7"
    and "(if ks = [] then 0x1FF else ors (map class_mask ks)) AND ors (map perm_mask qs) = (if W \<noteq> 0 then W else 0x49) * Q"
    and "((if W \<noteq> 0 then W else 0x49) * 7) AND 0x1FF = (if W \<noteq> 0 then W else 0x49) * 7"
    and "((if W \<noteq> 0 then W else 0x49) * Q) AND 0x1FF = (if W \<noteq> 0 then W else 0x49) * Q"
    and "W = 0 \<longleftrightarrow> ks = []"
proof -
  define w where "w = (if W \<noteq> 0 then W else 0x49)"
  have W: "W \<in> {0, 1, 8, 9, 0x40, 0x41, 0x48, 0x49}" "ors (map class_mask ks) = W * 7" "ks \<noteq> [] \<longrightarrow> W \<noteq> 0"
    using who_values [of ks] unfolding assms(1) ors_map by blast+
  have Q: "Q \<in> {0, 1, 2, 3, 4, 5, 6, 7}" "ors (map perm_mask qs) = Q * 0x49"
    using what_values [of qs] unfolding assms(2) ors_map by blast+
  show e: "W = 0 \<longleftrightarrow> ks = []" using W(3) assms(1) by auto
  have w: "w \<in> {0, 1, 8, 9, 0x40, 0x41, 0x48, 0x49}" using W(1) by (auto simp: w_def)
  have c: "(if ks = [] then 0x1FF else ors (map class_mask ks)) = w * 7" using W(2) e by (simp add: w_def)
  then show "(if ks = [] then 0x1FF else ors (map class_mask ks)) = (if W \<noteq> 0 then W else 0x49) * 7" by (simp only: w_def)
  note p = product_mask [OF w Q(1)]
  show "(if ks = [] then 0x1FF else ors (map class_mask ks)) AND ors (map perm_mask qs) = (if W \<noteq> 0 then W else 0x49) * Q"
    unfolding c Q(2) w_def [symmetric] by (rule p(1) [symmetric])
  show "((if W \<noteq> 0 then W else 0x49) * 7) AND 0x1FF = (if W \<noteq> 0 then W else 0x49) * 7"
    unfolding w_def [symmetric] by (rule p(2))
  have "(w * Q) AND 0x1FF = ((w * 7) AND 0x1FF) AND (Q * 0x49)" by (simp only: p(1) and.assoc and.commute and.left_commute)
  then show "((if W \<noteq> 0 then W else 0x49) * Q) AND 0x1FF = (if W \<noteq> 0 then W else 0x49) * Q"
    unfolding w_def [symmetric] p(2) p(1) [symmetric] .
qed

lemma symbolic_effect:
  "apply_clause umask dir ix (symbolic_vars m sel ks ch qs) AND CHMOD_BITS =
   meaning umask dir ix (Symbolic sel ks ch qs) (m AND CHMOD_BITS)"
proof (cases "(sel = Dirs \<and> \<not> dir) \<or> (sel = Files \<and> dir)")
  case True
  then show ?thesis by (auto simp: apply_clause_def symbolic_vars_def meaning_def Let_def split: prod.splits)
next
  case False
  define W where "W = or_all who_bit ks 0"
  define Q where "Q = or_all what_bit qs 0"
  define w where "w = (if W \<noteq> 0 then W else 0x49)"
  define S where "S = or_all setid_mask ks 0"
  define T where "T = fold (special_step S) qs 0"
  define B where "B = (if ks = [] then (w * Q) AND NOT umask else w * Q)"
  define S' where "S' = (if T \<noteq> 0 then S else 0)"
  define given where "given = (if Exec_Keep \<in> set qs \<and> \<not> ix \<and> \<not> dir then (B OR T) AND NOT 0x49 else B OR T)"
  note masks = rwx_mask [OF W_def Q_def, folded w_def]
  have wQ: "(w * Q) AND 0x1FF = w * Q" by (rule masks(4))
  have "((w * Q) AND NOT umask) AND 0x1FF = ((w * Q) AND 0x1FF) AND NOT umask" by (simp only: ac_simps)
  then have B: "B AND 0x1FF = B" unfolding wQ B_def using wQ by (cases "ks = []") (simp_all only: if_True if_False simp_thms)
  have S: "S \<in> {0, 0x400, 0x800, 0xC00}" unfolding S_def by (rule setid_values)
  have T: "T \<in> {0, 0x200, 0x400, 0x600, 0x800, 0xA00, 0xC00, 0xE00}" unfolding T_def by (rule special_values [OF S])
  have S': "S' \<in> {0, 0x200, 0x400, 0x600, 0x800, 0xA00, 0xC00, 0xE00}" using S by (auto simp: S'_def)
  have bits: "(if W \<noteq> 0 then (W, W * Q) else (0x49, (0x49 * Q) AND NOT umask)) = (w, B)"
    using masks(5) by (simp add: w_def B_def)
  have v: "who (symbolic_vars m sel ks ch qs) = W" "what (symbolic_vars m sel ks ch qs) = Q"
    "topbits (symbolic_vars m sel ks ch qs) = S" "topoct (symbolic_vars m sel ks ch qs) = T"
    "changed (symbolic_vars m sel ks ch qs) = m" "x_keep (symbolic_vars m sel ks ch qs) = (Exec_Keep \<in> set qs)"
    "dirs_only (symbolic_vars m sel ks ch qs) = (sel = Dirs)" "files_only (symbolic_vars m sel ks ch qs) = (sel = Files)"
    "cop (symbolic_vars m sel ks ch qs) = (case ch of Add \<Rightarrow> CHMOD_OP_ADD | Remove \<Rightarrow> CHMOD_OP_SUB | Assign \<Rightarrow> CHMOD_OP_EQ)"
    by (simp_all add: symbolic_vars_def W_def Q_def S_def T_def)
  have app: "apply_clause umask dir ix (symbolic_vars m sel ks ch qs) =
      (case ch of
         Add \<Rightarrow> (m AND CHMOD_BITS) OR given
       | Remove \<Rightarrow> m AND (CHMOD_BITS AND NOT (B OR T))
       | Assign \<Rightarrow> (m AND (CHMOD_BITS AND NOT (w * 7 OR S'))) OR given)"
  proof -
    have keep: "x OR (if k then 0 AND NOT 0x49 else 0) = x" for k and x :: u32 by simp
    have pull: "(if k then x OR (y AND NOT 0x49) else x OR y) = x OR (if k then y AND NOT 0x49 else y)" for k and x y :: u32
      by simp
    show ?thesis
      unfolding apply_clause_def v bits Let_def prod.case using False
      by (cases ch) (simp_all only: change.case chmod_op.case prod.case mask_sum [OF B T] S'_def [symmetric]
          mask_sum(2) [OF masks(3) S'] keep pull given_def [symmetric] de_Morgan_disj de_Morgan_conj simp_thms if_True)
  qed
  have low: "bit given n \<Longrightarrow> n < 12" for n
    using low_bits [OF B, of n] high_bits [OF T, of n] by (auto simp: given_def bit_simps split: if_splits)
  have "meaning umask dir ix (Symbolic sel ks ch qs) (m AND CHMOD_BITS) =
      (case ch of
         Add \<Rightarrow> (m AND CHMOD_BITS) OR given
       | Remove \<Rightarrow> (m AND CHMOD_BITS) AND NOT (B OR T)
       | Assign \<Rightarrow> ((m AND CHMOD_BITS) AND NOT (w * 7 OR S')) OR given)"
    using False
    by (simp only: meaning_def clause.case Let_def ors_map [of setid_mask] S_def [symmetric] T_def [symmetric] masks(1) masks(2) [unfolded masks(1)]
        B_def [symmetric] S'_def [symmetric] given_def [symmetric] if_False)
  also have "\<dots> = apply_clause umask dir ix (symbolic_vars m sel ks ch qs) AND CHMOD_BITS"
    unfolding app by (cases ch) (auto intro!: bit_eqI simp: bit_simps dest: low)
  finally show ?thesis by simp
qed

section \<open>Octal clauses\<close>

abbreviation octal_value :: "nat list \<Rightarrow> nat \<Rightarrow> nat" where
  "octal_value ds n \<equiv> fold (\<lambda>d v. v * 8 + d) ds n"

lemma octal_value_mono: "n \<le> octal_value ds n"
proof (induction ds arbitrary: n)
  case (Cons d ds)
  have "n \<le> n * 8 + d" by simp
  with Cons [of "n * 8 + d"] show ?case by simp
qed simp

lemma digit_chars:
  assumes "d < 8"
  shows "octal_digit (digit_char d)" and "digit_value (digit_char d) = word_of_nat d"
    and "digit_char d \<notin> set '',DFugoa+-=''"
proof -
  have "(of_char (digit_char d) :: nat) = 48 + d" using assms by (simp add: digit_char_def)
  then show "octal_digit (digit_char d)" and "digit_value (digit_char d) = word_of_nat d"
    using assms by (simp_all add: octal_digit_def digit_value_def)
  have "d \<in> {0, 1, 2, 3, 4, 5, 6, 7}" using assms by auto
  then show "digit_char d \<notin> set '',DFugoa+-=''" by (auto simp: digit_char_def char_of_def)
qed

lemma scan_octal:
  "cstate v = CHMOD_STATE_OCTAL \<Longrightarrow> what v = word_of_nat n \<Longrightarrow> list_all (\<lambda>d. d < 8) ds \<Longrightarrow> octal_value ds n \<le> 0xFFF \<Longrightarrow>
   fold chmod_step (map digit_char ds) v = v\<lparr>what := word_of_nat (octal_value ds n)\<rparr>"
proof (induction ds arbitrary: v n)
  case (Cons d ds)
  have d: "d < 8" using Cons.prems by simp
  have le: "n * 8 + d \<le> 0xFFF" using Cons.prems(4) octal_value_mono [of "n * 8 + d" ds] by simp
  have "what v * 8 + digit_value (digit_char d) = word_of_nat (n * 8 + d)"
    using Cons.prems(2) by (simp add: digit_chars(2) [OF d])
  moreover have "\<not> CHMOD_BITS < (word_of_nat (n * 8 + d) :: u32)"
    using le by (simp add: CHMOD_BITS_def word_less_nat_alt unat_of_nat del: of_nat_add of_nat_mult)
  ultimately have "chmod_step (digit_char d) v = v\<lparr>what := word_of_nat (n * 8 + d)\<rparr>"
    using Cons.prems(1) digit_chars(1) [OF d] by (simp add: chmod_step_def Let_def del: of_nat_add of_nat_mult)
  then show ?case using Cons.IH [of "v\<lparr>what := word_of_nat (n * 8 + d)\<rparr>" "n * 8 + d"] Cons.prems
    by (simp del: of_nat_add of_nat_mult)
qed simp

definition octal_vars :: "u32 \<Rightarrow> selector \<Rightarrow> nat list \<Rightarrow> chmod_vars" where
  "octal_vars m sel ds = (fresh m)\<lparr>cstate := CHMOD_STATE_OCTAL, who := 1, what := word_of_nat (octal_value ds 0),
     cop := CHMOD_OP_SET, dirs_only := (sel = Dirs), files_only := (sel = Files)\<rparr>"

lemma scan_octal_clause:
  assumes "clause_ok (Octal sel ds)"
  shows "fold chmod_step (clause_text (Octal sel ds)) (fresh m) = octal_vars m sel ds"
proof -
  obtain d ds' where ds: "ds = d # ds'" "d < 8" "list_all (\<lambda>d. d < 8) ds'" "octal_value ds' d \<le> 0xFFF"
    using assms by (cases ds) (auto simp: clause_ok_def)
  let ?v = "(fresh m)\<lparr>dirs_only := (sel = Dirs), files_only := (sel = Files)\<rparr>"
  have "chmod_step (digit_char d) ?v = ?v\<lparr>cop := CHMOD_OP_SET, cstate := CHMOD_STATE_OCTAL, who := 1, what := word_of_nat d\<rparr>"
    using digit_chars [OF ds(2)] by (simp add: chmod_step_def fresh_def)
  moreover have "fold chmod_step (map digit_char ds')
      (?v\<lparr>cop := CHMOD_OP_SET, cstate := CHMOD_STATE_OCTAL, who := 1, what := word_of_nat d\<rparr>) =
      ?v\<lparr>cop := CHMOD_OP_SET, cstate := CHMOD_STATE_OCTAL, who := 1, what := word_of_nat (octal_value ds' d)\<rparr>"
    using scan_octal [OF _ _ ds(3,4)] by simp
  ultimately show ?thesis by (simp add: clause_text_def scan_selector [unfolded fresh_def] ds(1) octal_vars_def fresh_def)
qed

lemma octal_effect:
  assumes "clause_ok (Octal sel ds)"
  shows "apply_clause umask dir ix (octal_vars m sel ds) AND CHMOD_BITS =
    meaning umask dir ix (Octal sel ds) (m AND CHMOD_BITS)"
proof -
  have "octal_value ds 0 \<le> 0xFFF" using assms by (simp add: clause_ok_def)
  then have "(word_of_nat (octal_value ds 0) :: u32) < 2 ^ 12" by (simp add: word_less_nat_alt unat_of_nat)
  then have "(word_of_nat (octal_value ds 0) :: u32) AND mask 12 = word_of_nat (octal_value ds 0)" by (rule less_mask_eq)
  then have "(word_of_nat (octal_value ds 0) :: u32) AND CHMOD_BITS = word_of_nat (octal_value ds 0)"
    by (simp add: CHMOD_BITS_def mask_eq_exp_minus_1)
  then show ?thesis
    by (auto simp: apply_clause_def octal_vars_def fresh_def meaning_def Let_def)
qed

section \<open>Clause lists\<close>

text \<open>The state after a clause: it is not the error state, has an operator, and has the clause's meaning.\<close>

lemma scan_clause:
  assumes "clause_ok cl"
  shows "\<exists>v. fold chmod_step (clause_text cl) (fresh m) = v \<and> cstate v \<noteq> CHMOD_STATE_ERROR \<and> cop v \<noteq> CHMOD_OP_NONE \<and>
    apply_clause umask dir ix v AND CHMOD_BITS = meaning umask dir ix cl (m AND CHMOD_BITS)"
proof (cases cl)
  case (Symbolic sel ks ch qs)
  then show ?thesis
    using scan_symbolic [of sel ks ch qs m] symbolic_effect [of umask dir ix m sel ks ch qs]
    by (auto simp: symbolic_vars_def split: change.splits)
next
  case (Octal sel ds)
  then show ?thesis
    using scan_octal_clause [of sel ds m] octal_effect [of sel ds umask dir ix m] assms
    by (auto simp: octal_vars_def)
qed

lemma no_comma: "clause_ok cl \<Longrightarrow> CHR '','' \<notin> set (clause_text cl)"
  using digit_chars(3)
  by (cases cl) (fastforce simp: clause_text_def clause_ok_def selector_text_def class_char_def change_char_def perm_char_def
      list_all_iff split: selector.splits owner_class.splits change.splits perm.splits)+

lemma loop_clauses:
  "cls \<noteq> [] \<Longrightarrow> list_all clause_ok cls \<Longrightarrow>
   \<exists>r. chmod_loop umask dir ix (clauses_text cls) (fresh m) = Some r \<and>
     r AND CHMOD_BITS = fold (meaning umask dir ix) cls (m AND CHMOD_BITS)"
proof (induction cls arbitrary: m rule: clauses_text.induct)
  case 1
  then show ?case by simp
next
  case (2 cl)
  then have ok: "clause_ok cl" by simp
  obtain v where v: "fold chmod_step (clause_text cl) (fresh m) = v" "cstate v \<noteq> CHMOD_STATE_ERROR" "cop v \<noteq> CHMOD_OP_NONE"
    "apply_clause umask dir ix v AND CHMOD_BITS = meaning umask dir ix cl (m AND CHMOD_BITS)"
    using scan_clause [OF ok] by blast
  then show ?case using loop_run [OF no_comma [OF ok], of "fresh m" umask dir ix "[]"]
    by (simp add: chmod_loop.simps [of _ _ _ "[]"])
next
  case (3 cl cl' cls)
  then have ok: "clause_ok cl" by simp
  obtain v where v: "fold chmod_step (clause_text cl) (fresh m) = v" "cstate v \<noteq> CHMOD_STATE_ERROR" "cop v \<noteq> CHMOD_OP_NONE"
    "apply_clause umask dir ix v AND CHMOD_BITS = meaning umask dir ix cl (m AND CHMOD_BITS)"
    using scan_clause [OF ok] by blast
  have "chmod_loop umask dir ix (clauses_text (cl # cl' # cls)) (fresh m) =
      chmod_loop umask dir ix (clauses_text (cl' # cls)) (fresh (apply_clause umask dir ix v))"
    using loop_run [OF no_comma [OF ok], of "fresh m" umask dir ix "CHR '','' # clauses_text (cl' # cls)"] v
    by (simp add: chmod_loop.simps [of _ _ _ "CHR '','' # _"])
  then show ?case using "3.IH" [of "apply_clause umask dir ix v"] "3.prems" v(4) by simp
qed

lemma clauses_text_nonempty: "cls \<noteq> [] \<Longrightarrow> list_all clause_ok cls \<Longrightarrow> clauses_text cls \<noteq> []"
  by (cases cls rule: clauses_text.cases) (auto simp: clause_text_def clause_ok_def split: clause.splits)

section \<open>Properties\<close>

text \<open>C39: The meaning of a \<open>--chmod\<close> argument. A list of clauses written out and interpreted gives the clauses' meanings
  applied one after the other to the permission and special bits, where \<open>X\<close> looks at the original mode; the file type
  bits are kept. A clause that selects directories or files leaves the others alone, one that names no class covers all
  of them except the bits of the umask, and an octal clause sets the mode.\<close>

theorem chmod_apply_meaning:
  assumes "cls \<noteq> []" and "list_all clause_ok cls"
  shows "chmod_apply umask mode (clauses_text cls) =
    Some (fold (meaning umask (S_ISDIR mode) (mode AND 0x49 \<noteq> 0)) cls (mode AND CHMOD_BITS) OR (mode AND NOT CHMOD_BITS))"
proof -
  have "NOT CHMOD_BITS AND 0xF000 = 0xF000" by (simp add: CHMOD_BITS_def)
  then have dir: "S_ISDIR (mode AND NOT CHMOD_BITS) = S_ISDIR mode" by (simp add: S_ISDIR_def and.assoc)
  show ?thesis
    using loop_clauses [OF assms, of umask "S_ISDIR mode" "mode AND 0x49 \<noteq> 0" mode] clauses_text_nonempty [OF assms]
    by (auto simp: chmod_apply_def Let_def dir)
qed

theorem chmod_apply_meaning_witness:
  "chmod_apply 0x12 0x81A4 ''Fu+x,g=s'' = Some 0x85C4"
proof -
  let ?cls = "[Symbolic Files [User] Add [Exec], Symbolic Everything [Group] Assign [Setid]]"
  have "clauses_text ?cls = ''Fu+x,g=s''"
    by (simp add: clause_text_def selector_text_def class_char_def change_char_def perm_char_def)
  with chmod_apply_meaning [of ?cls "0x12" "0x81A4"] show ?thesis
    by (simp add: clause_ok_def meaning_def Let_def S_ISDIR_def CHMOD_BITS_def ors_def setid_mask_def class_mask_def
        perm_mask_def special_step_def)
qed

end
