(* ===== verification/Delete_Walk.thy ===== *)
theory Delete_Walk
  imports File_List Queue
begin

text \<open>
  The delete engine, \<open>src/src/shared/delete.c\<close>: the walk over the destination tree that removes what the
  sender no longer has (\<open>--delete\<close>), or lists it (\<open>--dry-run\<close>), within a budget.

  The destination is a tree; a directory is the list of its entries in the order \<open>readdir\<close> gives them,
  and everything that is not a directory is \<open>Plain\<close>. The outcome of a system call on an entry is
  decided by a \<open>disk\<close>: \<open>None\<close> is success. The walk is one function for both modes, as in the source.
\<close>

section \<open>Definitions\<close>

datatype node = Plain | Folder "(string \<times> node) list"

type_synonym listing = "(string \<times> node) list"

datatype errno = ENOENT | ENOTEMPTY | EEXIST | EIO

text \<open>The calls: opening and scanning a directory, \<open>fstatat\<close>, \<open>openat\<close> and \<open>unlinkat\<close> of an entry,
  each by the entry's path below the root.\<close>

record disk =
  scan_ok :: "string \<Rightarrow> bool"
  stat_err :: "string \<Rightarrow> errno option"
  open_err :: "string \<Rightarrow> errno option"
  unlink_err :: "string \<Rightarrow> errno option"
  close_ok :: bool

record skip_entry =
  skip_prefix :: string
  top_level_only :: bool

definition path_under_skip_prefix :: "string \<Rightarrow> bool \<Rightarrow> skip_entry list \<Rightarrow> bool" where
  "path_under_skip_prefix child_rel at_root skips =
     list_ex (\<lambda>e. \<not> (top_level_only e \<and> \<not> at_root) \<and> starts_with (skip_prefix e) child_rel \<and>
       (char_at child_rel (length (skip_prefix e)) = NUL \<or> char_at child_rel (length (skip_prefix e)) = SLASH)) skips"

text \<open>The lookups return on every index that \<open>path_index_build\<close> made.\<close>

definition keep_is_dir :: "xxh64 \<Rightarrow> path_index \<Rightarrow> string \<Rightarrow> bool" where
  "keep_is_dir xxh index rel_path \<longleftrightarrow>
     path_index_contains xxh index rel_path = Some True \<or> path_index_has_descendant index rel_path"

definition keep_is_file :: "xxh64 \<Rightarrow> path_index \<Rightarrow> string \<Rightarrow> bool" where
  "keep_is_file xxh index rel_path \<longleftrightarrow> path_index_contains xxh index rel_path = Some True"

definition is_synced_dir :: "xxh64 \<Rightarrow> path_index option \<Rightarrow> string \<Rightarrow> bool" where
  "is_synced_dir xxh dirs rel =
     (case dirs of
        None \<Rightarrow> True
      | Some ix \<Rightarrow> path_index_contains xxh ix (if rel = [] then ''.'' else rel) = Some True)"

fun delete_name_cmp :: "string \<Rightarrow> string \<Rightarrow> int" where
  "delete_name_cmp [] [] = 0"
| "delete_name_cmp [] (b # bs) = - uchar b"
| "delete_name_cmp (a # as) [] = uchar a"
| "delete_name_cmp (a # as) (b # bs) = (if a = b then delete_name_cmp as bs else uchar a - uchar b)"

definition is_folder :: "string \<times> node \<Rightarrow> bool" where
  "is_folder e = (case snd e of Folder _ \<Rightarrow> True | Plain \<Rightarrow> False)"

definition delete_dir_entry_cmp_desc :: "string \<times> node \<Rightarrow> string \<times> node \<Rightarrow> int" where
  "delete_dir_entry_cmp_desc a b =
     (if is_folder a \<noteq> is_folder b then (if is_folder a then -1 else 1) else - delete_name_cmp (fst a) (fst b))"

text \<open>\<open>qsort\<close> with that comparison; the names of a directory differ, so the result is the same for every
  sorting method.\<close>

fun insert_desc :: "string \<times> node \<Rightarrow> listing \<Rightarrow> listing" where
  "insert_desc e [] = [e]"
| "insert_desc e (x # xs) = (if delete_dir_entry_cmp_desc e x \<le> 0 then e # x # xs else x # insert_desc e xs)"

definition sort_desc :: "listing \<Rightarrow> listing" where
  "sort_desc es = foldr insert_desc es []"

text \<open>The path by which the \<open>disk\<close> knows an entry.\<close>

definition entry_path :: "string \<Rightarrow> string \<Rightarrow> string" where
  "entry_path rel name = (if rel = [] then name else rel @ SLASH # name)"

text \<open>The loop of \<open>delete_dir_entries_collect\<close>: the entries, and whether every failing \<open>fstatat\<close> found the
  entry gone. \<open>None\<close> is the result \<open>false\<close>.\<close>

fun collect_loop :: "allocator \<Rightarrow> disk \<Rightarrow> string \<Rightarrow> listing \<Rightarrow> nat \<Rightarrow> nat \<Rightarrow> (listing \<times> bool) option" where
  "collect_loop mem d rel [] used capacity = Some ([], True)"
| "collect_loop mem d rel (e # es) used capacity =
     (if fst e = ''.'' \<or> fst e = ''..'' then collect_loop mem d rel es used capacity
      else (case stat_err d (entry_path rel (fst e)) of
              Some er \<Rightarrow>
                map_option (\<lambda>r. (fst r, snd r \<and> er = ENOENT)) (collect_loop mem d rel es used capacity)
            | None \<Rightarrow>
                let next = (if capacity = 0 then 16 else capacity * 2) in
                if used = capacity \<and> \<not> mem (next * 16) then None
                else if str_dup mem (fst e) = None then None
                else map_option (\<lambda>r. (e # fst r, snd r))
                       (collect_loop mem d rel es (used + 1) (if used = capacity then next else capacity))))"

definition delete_dir_entries_collect :: "allocator \<Rightarrow> disk \<Rightarrow> string \<Rightarrow> listing \<Rightarrow> (listing \<times> bool) option" where
  "delete_dir_entries_collect mem d rel cs = (if \<not> scan_ok d rel then None else collect_loop mem d rel cs 0 0)"

datatype walk_mode = DELETE_WALK_MODE_DELETE | DELETE_WALK_MODE_LIST

text \<open>\<open>DeleteWalkState\<close> with the budget it points to; \<open>observed\<close> are the calls of the observer.\<close>

record walk_state =
  mode :: walk_mode
  max_delete :: nat
  deleted :: nat
  skipped :: nat
  limit_hit :: bool
  out :: "string array_list"
  recorded :: nat
  observed :: "string list"

text \<open>The arguments that stay the same down the recursion.\<close>

record delete_plan =
  keep :: path_index
  dirs :: "path_index option"
  skips :: "skip_entry list"
  protect_rules :: "filter_rule_list option"

text \<open>The verdict on an entry; \<open>Unnamed\<close> when the path could not be allocated.\<close>

datatype verdict = Shielded | Extra | Kept | Unnamed

definition classify ::
  "allocator \<Rightarrow> xxh64 \<Rightarrow> delete_plan \<Rightarrow> string \<Rightarrow> bool \<Rightarrow> string \<times> node \<Rightarrow> verdict" where
  "classify mem xxh pl rel deletable e =
     (case path_cat mem (Some rel) (Some (fst e)) of
        None \<Rightarrow> Unnamed
      | Some child_rel \<Rightarrow>
          if path_under_skip_prefix child_rel (rel = []) (skips pl) then Shielded
          else if protect_rules pl \<noteq> None \<and>
                  filter_rules_apply_side mem (protect_rules pl) child_rel (fst e) (is_folder e) FILTER_SIDE_RECEIVER =
                  FILTER_ACTION_PROTECT then Shielded
          else if is_folder e then
            (let child_synced = (case dirs pl of None \<Rightarrow> False | Some ix \<Rightarrow> path_index_contains xxh ix child_rel = Some True)
             in if deletable \<and> \<not> child_synced \<and> \<not> keep_is_dir xxh (keep pl) child_rel then Extra else Kept)
          else if deletable \<and> \<not> keep_is_file xxh (keep pl) child_rel then Extra else Kept)"

text \<open>The locals of one call: the directory as it is now, the state, \<open>operation_ok\<close> and \<open>local_survives\<close>.\<close>

record walk_vars =
  now :: listing
  wst :: walk_state
  operation_ok :: bool
  survives :: bool

definition remove_entry :: "string \<Rightarrow> listing \<Rightarrow> listing" where
  "remove_entry name cs = filter (\<lambda>e. fst e \<noteq> name) cs"

definition put_entry :: "string \<Rightarrow> node \<Rightarrow> listing \<Rightarrow> listing" where
  "put_entry name x cs = map (\<lambda>e. if fst e = name then (name, x) else e) cs"

type_synonym walk_result = "listing \<times> walk_state \<times> bool \<times> bool"

text \<open>The call on a child directory that could be opened, folded into the locals; the second component is
  \<open>child_all_removed\<close>.\<close>

definition descend :: "string \<Rightarrow> errno + walk_result \<Rightarrow> walk_vars \<Rightarrow> walk_vars \<times> bool" where
  "descend name r v =
     (case r of
        Inl er \<Rightarrow> (v\<lparr>operation_ok := operation_ok v \<and> er = ENOENT\<rparr>, False)
      | Inr (cs, st, ok, all_removed) \<Rightarrow>
          (v\<lparr>now := put_entry name (Folder cs) (now v), wst := st, operation_ok := operation_ok v \<and> ok\<rparr>, all_removed))"

text \<open>\<open>unlinkat\<close> with \<open>AT_REMOVEDIR\<close> refuses a directory that still has entries.\<close>

definition rmdir_err :: "disk \<Rightarrow> string \<Rightarrow> string \<Rightarrow> listing \<Rightarrow> errno option" where
  "rmdir_err d child_rel name cs =
     (case unlink_err d child_rel of
        Some er \<Rightarrow> Some er
      | None \<Rightarrow> (case map_of cs name of Some (Folder (_ # _)) \<Rightarrow> Some ENOTEMPTY | _ \<Rightarrow> None))"

definition record_path :: "allocator \<Rightarrow> string \<Rightarrow> walk_vars \<Rightarrow> walk_vars" where
  "record_path mem p v =
     (if \<not> mem (length p + 1) then v\<lparr>operation_ok := False\<rparr>
      else (case array_list_add mem (out (wst v)) p of
              (False, _) \<Rightarrow> v\<lparr>operation_ok := False\<rparr>
            | (True, l) \<Rightarrow> v\<lparr>wst := (wst v)\<lparr>out := l, recorded := recorded (wst v) + 1\<rparr>\<rparr>))"

definition note_limit :: "walk_vars \<Rightarrow> walk_vars" where
  "note_limit v = v\<lparr>wst := (wst v)\<lparr>limit_hit := True, skipped := skipped (wst v) + 1\<rparr>, survives := True\<rparr>"

definition note_deleted :: "string \<Rightarrow> string list \<Rightarrow> walk_vars \<Rightarrow> walk_vars" where
  "note_deleted name msgs v =
     v\<lparr>now := remove_entry name (now v),
       wst := (wst v)\<lparr>deleted := deleted (wst v) + 1, observed := observed (wst v) @ msgs\<rparr>\<rparr>"

text \<open>The end of pass 1 for one directory, after the descent.\<close>

definition extra_dir ::
  "allocator \<Rightarrow> disk \<Rightarrow> bool \<Rightarrow> string \<Rightarrow> string \<Rightarrow> walk_vars \<times> bool \<Rightarrow> walk_vars" where
  "extra_dir mem d deletable child_rel name r =
     (case r of (v, child_all_removed) \<Rightarrow>
      if child_all_removed \<and> deletable then
        (if mode (wst v) = DELETE_WALK_MODE_LIST then record_path mem (child_rel @ [SLASH]) v
         else if max_delete (wst v) \<le> deleted (wst v) then note_limit v
         else (case rmdir_err d child_rel name (now v) of
                 Some er \<Rightarrow>
                   v\<lparr>operation_ok := operation_ok v \<and> (er = ENOENT \<or> er = ENOTEMPTY \<or> er = EEXIST), survives := True\<rparr>
               | None \<Rightarrow>
                   note_deleted name [if mem (length child_rel + 2) then child_rel @ [SLASH] else child_rel] v))
      else v\<lparr>survives := True\<rparr>)"

text \<open>Pass 2 for one entry. The path is allocated after the removal; when that fails nothing is reported.\<close>

definition extra_file :: "allocator \<Rightarrow> disk \<Rightarrow> string \<Rightarrow> string \<Rightarrow> walk_vars \<Rightarrow> walk_vars" where
  "extra_file mem d rel name v =
     (let child = path_cat mem (Some rel) (Some name) in
      if mode (wst v) = DELETE_WALK_MODE_LIST then
        (case child of None \<Rightarrow> v\<lparr>operation_ok := False\<rparr> | Some child_rel \<Rightarrow> record_path mem child_rel v)
      else if max_delete (wst v) \<le> deleted (wst v) then note_limit v
      else (case unlink_err d (entry_path rel name) of
              Some er \<Rightarrow> v\<lparr>operation_ok := operation_ok v \<and> er = ENOENT, survives := True\<rparr>
            | None \<Rightarrow> note_deleted name (case child of None \<Rightarrow> [] | Some child_rel \<Rightarrow> [child_rel]) v))"

text \<open>The size of a tree, for the recursion.\<close>

fun weight :: "node \<Rightarrow> nat" where
  "weight Plain = 1"
| "weight (Folder cs) = 1 + sum_list (map (\<lambda>e. weight (snd e)) cs)"

definition contents :: "node \<Rightarrow> listing" where
  "contents x = (case x of Plain \<Rightarrow> [] | Folder cs \<Rightarrow> cs)"

definition listing_weight :: "listing \<Rightarrow> nat" where
  "listing_weight cs = sum_list (map (\<lambda>e. weight (snd e)) cs)"

lemma weight_contents: "listing_weight (contents x) < weight x"
  by (cases x) (simp_all add: contents_def listing_weight_def)

lemma weight_member: "e \<in> set cs \<Longrightarrow> listing_weight (contents (snd e)) < listing_weight cs"
proof -
  assume "e \<in> set cs"
  then have "weight (snd e) \<le> listing_weight cs"
    unfolding listing_weight_def by (intro member_le_sum_list) auto
  with weight_contents [of "snd e"] show ?thesis by simp
qed

lemma set_insert_desc [simp]: "set (insert_desc e xs) = insert e (set xs)"
  by (induction xs) auto

lemma set_sort_desc [simp]: "set (sort_desc es) = set es"
  by (induction es) (simp_all add: sort_desc_def)

lemma collect_loop_subset:
  "collect_loop mem d rel cs used capacity = Some (es, ok) \<Longrightarrow> set es \<subseteq> set cs"
proof (induction cs arbitrary: used capacity es ok)
  case (Cons e cs)
  from Cons.prems show ?case by (auto simp: Let_def split: if_splits option.splits dest!: Cons.IH)
qed simp

lemma collect_subset: "delete_dir_entries_collect mem d rel cs = Some (es, ok) \<Longrightarrow> set es \<subseteq> set cs"
  by (auto simp: delete_dir_entries_collect_def split: if_splits dest: collect_loop_subset)

lemma tagged_member:
  assumes "delete_dir_entries_collect mem d rel cs = Some (es, ok)"
    and "t \<in> set (takeWhile P (map (\<lambda>e. (e, f e)) (sort_desc es)))"
  shows "fst t \<in> set cs"
  using set_takeWhileD [OF assms(2)] collect_subset [OF assms(1)] by auto

text \<open>The walk: \<open>None\<close> in the first line is the early \<open>return false\<close>. The tagged list pairs each entry with its
  verdict; its leading directories are those of passes 1 and 3, which go through it in opposite orders.\<close>

function delete_walk_fd ::
  "allocator \<Rightarrow> xxh64 \<Rightarrow> disk \<Rightarrow> delete_plan \<Rightarrow> bool \<Rightarrow> string \<Rightarrow> listing \<Rightarrow> walk_state \<Rightarrow> walk_result" where
  "delete_walk_fd mem xxh d pl parent_deletable rel_path cs st =
     (case delete_dir_entries_collect mem d rel_path cs of
        None \<Rightarrow> (cs, st, False, False)
      | Some (collected, collect_ok) \<Rightarrow>
          if \<not> mem (if collected = [] then 1 else length collected) then (cs, st, False, False)
          else
            let deletable = (parent_deletable \<or> is_synced_dir xxh (dirs pl) rel_path);
                tagged = map (\<lambda>e. (e, classify mem xxh pl rel_path deletable e)) (sort_desc collected);
                folders = takeWhile (\<lambda>t. is_folder (fst t)) tagged;
                files = dropWhile (\<lambda>t. is_folder (fst t)) tagged;
                v0 = \<lparr>now = cs, wst = st,
                      operation_ok = (collect_ok \<and> list_all (\<lambda>t. snd t \<noteq> Unnamed) tagged),
                      survives = list_ex (\<lambda>t. snd t = Shielded \<or> snd t = Kept) tagged\<rparr>;
                v1 = fold (\<lambda>t v.
                       if snd t \<noteq> Extra then v
                       else case path_cat mem (Some rel_path) (Some (fst (fst t))) of
                         None \<Rightarrow> v\<lparr>operation_ok := False\<rparr>
                       | Some child_rel \<Rightarrow>
                           extra_dir mem d deletable child_rel (fst (fst t))
                             (descend (fst (fst t))
                                (case open_err d child_rel of
                                   Some er \<Rightarrow> Inl er
                                 | None \<Rightarrow> Inr (delete_walk_fd mem xxh d pl deletable child_rel (contents (snd (fst t))) (wst v))) v))
                     folders v0;
                v2 = fold (\<lambda>t v. if snd t \<noteq> Extra then v else extra_file mem d rel_path (fst (fst t)) v) files v1;
                v3 = fold (\<lambda>t v.
                       if snd t = Extra \<or> snd t = Shielded then v
                       else case path_cat mem (Some rel_path) (Some (fst (fst t))) of
                         None \<Rightarrow> v\<lparr>operation_ok := False\<rparr>
                       | Some child_rel \<Rightarrow>
                           (fst (descend (fst (fst t))
                              (case open_err d child_rel of
                                 Some er \<Rightarrow> Inl er
                               | None \<Rightarrow> Inr (delete_walk_fd mem xxh d pl deletable child_rel (contents (snd (fst t))) (wst v))) v))
                           \<lparr>survives := True\<rparr>)
                     (rev folders) v2
            in (now v3, wst v3, operation_ok v3, \<not> survives v3))"
  by pat_completeness auto

termination
proof (relation "measure (\<lambda>(_, _, _, _, _, _, cs, _). listing_weight cs)", goal_cases)
  case 1
  show ?case by simp
next
  case (2 mem xxh d pl pd rel cs st x2 x y xa xb xc xd xe xf xg x2a)
  have "delete_dir_entries_collect mem d rel cs = Some (x, y)" using 2(1,2) by simp
  from tagged_member [OF this 2(9) [unfolded 2(6) 2(5)]] show ?case by (simp add: weight_member)
next
  case (3 mem xxh d pl pd rel cs st x2 x y xa xb xc xd xe xf xg xh xi x2a)
  have "delete_dir_entries_collect mem d rel cs = Some (x, y)" using 3(1,2) by simp
  from tagged_member [OF this 3(11) [unfolded set_rev 3(6) 3(5)]] show ?case by (simp add: weight_member)
qed

declare delete_walk_fd.simps [simp del]

subsection \<open>The entry points\<close>

text \<open>The two indexes of an entry point. \<open>path_index_build\<close> always returns, so the outer option is never
  \<open>None\<close>; an empty manifest is indexed as a null array.\<close>

definition build_keep_index :: "allocator \<Rightarrow> xxh64 \<Rightarrow> string list \<Rightarrow> path_index option option" where
  "build_keep_index mem xxh manifest = path_index_build mem xxh manifest"

definition delete_indexes ::
  "allocator \<Rightarrow> xxh64 \<Rightarrow> string list option \<Rightarrow> string list option \<Rightarrow> (path_index \<times> path_index option) option" where
  "delete_indexes mem xxh manifest synced_dirs =
     (case manifest of
        None \<Rightarrow> None
      | Some m \<Rightarrow>
          (case build_keep_index mem xxh m of
             Some (Some kp) \<Rightarrow>
               (case synced_dirs of
                  None \<Rightarrow> Some (kp, None)
                | Some s \<Rightarrow>
                    (case path_index_build mem xxh s of
                       Some (Some ix) \<Rightarrow> Some (kp, Some ix)
                     | _ \<Rightarrow> None))
           | _ \<Rightarrow> None))"

text \<open>\<open>cs\<close> is the content of the receive root, \<open>None\<close> when \<open>open_destination_root\<close> fails. The result: the
  verdict, the number of recorded paths, and the list.\<close>

definition delete_extras_list ::
  "allocator \<Rightarrow> xxh64 \<Rightarrow> disk \<Rightarrow> listing option \<Rightarrow> string list option \<Rightarrow> string list option \<Rightarrow> skip_entry list \<Rightarrow>
   filter_rule_list option \<Rightarrow> string array_list \<Rightarrow> bool \<times> nat \<times> string array_list" where
  "delete_extras_list mem xxh d root manifest synced_dirs sk rules l =
     (case delete_indexes mem xxh manifest synced_dirs of
        None \<Rightarrow> (False, 0, l)
      | Some (kp, ix) \<Rightarrow>
          (case root of
             None \<Rightarrow> (False, 0, l)
           | Some cs \<Rightarrow>
               (case delete_walk_fd mem xxh d \<lparr>keep = kp, dirs = ix, skips = sk, protect_rules = rules\<rparr> False [] cs
                       \<lparr>mode = DELETE_WALK_MODE_LIST, max_delete = 0, deleted = 0, skipped = 0, limit_hit = False,
                        out = l, recorded = 0, observed = []\<rparr> of
                  (_, st, ok, _) \<Rightarrow> (ok \<and> close_ok d, recorded st, out st))))"

datatype delete_walk_result = DELETE_WALK_OK | DELETE_WALK_LIMIT_REACHED | DELETE_WALK_ERROR

text \<open>The result: the verdict, the receive root afterwards, \<open>deleted_out\<close>, \<open>skipped_out\<close>, and the observer's calls.\<close>

definition delete_extras_limited_observed ::
  "allocator \<Rightarrow> xxh64 \<Rightarrow> disk \<Rightarrow> listing option \<Rightarrow> string list option \<Rightarrow> string list option \<Rightarrow> nat \<Rightarrow> skip_entry list \<Rightarrow>
   filter_rule_list option \<Rightarrow> delete_walk_result \<times> listing option \<times> nat \<times> nat \<times> string list" where
  "delete_extras_limited_observed mem xxh d root manifest synced_dirs limit sk rules =
     (case delete_indexes mem xxh manifest synced_dirs of
        None \<Rightarrow> (DELETE_WALK_ERROR, root, 0, 0, [])
      | Some (kp, ix) \<Rightarrow>
          (case root of
             None \<Rightarrow> (DELETE_WALK_ERROR, None, 0, 0, [])
           | Some cs \<Rightarrow>
               (case delete_walk_fd mem xxh d \<lparr>keep = kp, dirs = ix, skips = sk, protect_rules = rules\<rparr> False [] cs
                       \<lparr>mode = DELETE_WALK_MODE_DELETE, max_delete = limit, deleted = 0, skipped = 0, limit_hit = False,
                        out = \<lparr>elems = [], acap = 0\<rparr>, recorded = 0, observed = []\<rparr> of
                  (cs', st, ok, _) \<Rightarrow>
                    (if \<not> (ok \<and> close_ok d) then DELETE_WALK_ERROR
                     else if limit_hit st then DELETE_WALK_LIMIT_REACHED else DELETE_WALK_OK,
                     Some cs', deleted st, skipped st, observed st))))"

definition delete_extras ::
  "allocator \<Rightarrow> xxh64 \<Rightarrow> disk \<Rightarrow> listing option \<Rightarrow> string list option \<Rightarrow> bool \<times> listing option" where
  "delete_extras mem xxh d root manifest =
     (case delete_extras_limited_observed mem xxh d root manifest None SIZE_MAX [] None of
        (r, root', _) \<Rightarrow> (r = DELETE_WALK_OK, root'))"

subsection \<open>The protected prefixes\<close>

text \<open>The fields of \<open>Config\<close> read here; a basis directory is its path.\<close>

record skip_config =
  delay_updates :: bool
  basis_paths :: "string list"
  receive_root_directory :: "string option"

fun root_len :: "string \<Rightarrow> nat \<Rightarrow> nat" where
  "root_len root 0 = 0"
| "root_len root (Suc n) = (if 1 < Suc n \<and> root ! n = SLASH then root_len root n else Suc n)"

definition delete_basis_relative :: "allocator \<Rightarrow> skip_config \<Rightarrow> string \<Rightarrow> string option" where
  "delete_basis_relative mem c path =
     (if char_at path 0 \<noteq> SLASH then str_dup mem path
      else (case receive_root_directory c of
              None \<Rightarrow> None
            | Some root \<Rightarrow>
                if char_at root 0 \<noteq> SLASH then None
                else let n = root_len root (length root) in
                  if \<not> starts_with (take n root) path then None
                  else if n = 1 then (if char_at path 1 = NUL then None else str_dup mem (drop 1 path))
                  else if char_at path n \<noteq> SLASH then None
                  else str_dup mem (drop (n + 1) path)))"

definition DELAY_UPDATES_STAGING_DIR :: string where
  "DELAY_UPDATES_STAGING_DIR = ''.fastsync-stage''"

definition any_depth :: "string \<Rightarrow> skip_entry" where
  "any_depth p = \<lparr>skip_prefix = p, top_level_only = False\<rparr>"

text \<open>\<open>None\<close> is the result \<open>false\<close>. An absent list is empty.\<close>

definition delete_skips_build ::
  "allocator \<Rightarrow> skip_config \<Rightarrow> string list \<Rightarrow> string list \<Rightarrow> bool \<Rightarrow> skip_entry list option" where
  "delete_skips_build mem c protected_paths size_skipped basis_root_relative =
     (let count = (if delay_updates c then 1 else 0) + length (basis_paths c) + length protected_paths + length size_skipped in
      if count = 0 then Some []
      else if \<not> mem (count * 16) then None
      else if basis_root_relative \<and> basis_paths c \<noteq> [] \<and> \<not> mem (length (basis_paths c) * 8) then None
      else Some ((if delay_updates c then [\<lparr>skip_prefix = DELAY_UPDATES_STAGING_DIR, top_level_only = True\<rparr>] else []) @
                 map any_depth (if basis_root_relative then List.map_filter (delete_basis_relative mem c) (basis_paths c)
                                else basis_paths c) @
                 map any_depth protected_paths @ map any_depth size_skipped))"

section \<open>The walk as one pass\<close>

text \<open>The three passes touch different entries, so together they are one pass over an agenda.\<close>

definition agenda :: "((string \<times> node) \<times> verdict) list \<Rightarrow> ((string \<times> node) \<times> verdict) list" where
  "agenda tagged =
     filter (\<lambda>t. snd t = Extra) (takeWhile (\<lambda>t. is_folder (fst t)) tagged) @
     filter (\<lambda>t. snd t = Extra) (dropWhile (\<lambda>t. is_folder (fst t)) tagged) @
     filter (\<lambda>t. snd t \<noteq> Extra \<and> snd t \<noteq> Shielded) (rev (takeWhile (\<lambda>t. is_folder (fst t)) tagged))"

definition visit ::
  "allocator \<Rightarrow> xxh64 \<Rightarrow> disk \<Rightarrow> delete_plan \<Rightarrow> bool \<Rightarrow> string \<Rightarrow> string \<times> node \<Rightarrow> walk_vars \<Rightarrow> walk_vars \<times> bool" where
  "visit mem xxh d pl deletable child_rel e v =
     descend (fst e)
       (case open_err d child_rel of
          Some er \<Rightarrow> Inl er
        | None \<Rightarrow> Inr (delete_walk_fd mem xxh d pl deletable child_rel (contents (snd e)) (wst v))) v"

definition act ::
  "allocator \<Rightarrow> xxh64 \<Rightarrow> disk \<Rightarrow> delete_plan \<Rightarrow> bool \<Rightarrow> string \<Rightarrow> (string \<times> node) \<times> verdict \<Rightarrow> walk_vars \<Rightarrow> walk_vars" where
  "act mem xxh d pl deletable rel t v =
     (if is_folder (fst t) then
        (case path_cat mem (Some rel) (Some (fst (fst t))) of
           None \<Rightarrow> v\<lparr>operation_ok := False\<rparr>
         | Some child_rel \<Rightarrow>
             if snd t = Extra then
               extra_dir mem d deletable child_rel (fst (fst t)) (visit mem xxh d pl deletable child_rel (fst t) v)
             else (fst (visit mem xxh d pl deletable child_rel (fst t) v))\<lparr>survives := True\<rparr>)
      else extra_file mem d rel (fst (fst t)) v)"

definition start :: "listing \<Rightarrow> walk_state \<Rightarrow> bool \<Rightarrow> ((string \<times> node) \<times> verdict) list \<Rightarrow> walk_vars" where
  "start cs st ok tagged =
     \<lparr>now = cs, wst = st, operation_ok = (ok \<and> list_all (\<lambda>t. snd t \<noteq> Unnamed) tagged),
      survives = list_ex (\<lambda>t. snd t = Shielded \<or> snd t = Kept) tagged\<rparr>"

lemma fold_guarded: "fold (\<lambda>x s. if P x then s else f x s) xs s = fold f (filter (\<lambda>x. \<not> P x) xs) s"
  by (induction xs arbitrary: s) auto

definition folders_first :: "listing \<Rightarrow> bool" where
  "folders_first xs \<longleftrightarrow> list_all (\<lambda>e. \<not> is_folder e) (dropWhile is_folder xs)"

lemma folders_first_Cons:
  "folders_first (x # xs) \<longleftrightarrow> (if is_folder x then folders_first xs else list_all (\<lambda>e. \<not> is_folder e) xs)"
  by (simp add: folders_first_def)

lemma insert_desc_files:
  "\<not> is_folder x \<Longrightarrow> list_all (\<lambda>e. \<not> is_folder e) xs \<Longrightarrow> list_all (\<lambda>e. \<not> is_folder e) (insert_desc x xs)"
  by (simp add: list_all_iff)

lemma insert_desc_folders_first: "folders_first xs \<Longrightarrow> folders_first (insert_desc x xs)"
proof (induction xs)
  case Nil
  then show ?case by (simp add: folders_first_def)
next
  case (Cons y ys)
  show ?case
  proof (cases "is_folder x = is_folder y")
    case True
    with Cons insert_desc_files [of x ys] show ?thesis by (auto simp: folders_first_Cons)
  next
    case False
    then have "delete_dir_entry_cmp_desc x y = (if is_folder x then -1 else 1)"
      by (simp add: delete_dir_entry_cmp_desc_def)
    with False Cons show ?thesis by (auto simp: folders_first_Cons)
  qed
qed

lemma sort_desc_folders_first: "folders_first (sort_desc es)"
  by (induction es) (simp_all add: sort_desc_def folders_first_def [of "[]"] insert_desc_folders_first)

lemma delete_walk_unfold:
  "delete_walk_fd mem xxh d pl pd rel cs st =
     (case delete_dir_entries_collect mem d rel cs of
        None \<Rightarrow> (cs, st, False, False)
      | Some (collected, ok) \<Rightarrow>
          if \<not> mem (if collected = [] then 1 else length collected) then (cs, st, False, False)
          else let dl = (pd \<or> is_synced_dir xxh (dirs pl) rel);
                   tagged = map (\<lambda>e. (e, classify mem xxh pl rel dl e)) (sort_desc collected);
                   v = fold (act mem xxh d pl dl rel) (agenda tagged) (start cs st ok tagged)
               in (now v, wst v, operation_ok v, \<not> survives v))"
proof (cases "delete_dir_entries_collect mem d rel cs")
  case (Some r)
  obtain es ok where r: "r = (es, ok)" by (cases r)
  define dl where "dl = (pd \<or> is_synced_dir xxh (dirs pl) rel)"
  define tagged where "tagged = map (\<lambda>e. (e, classify mem xxh pl rel dl e)) (sort_desc es)"
  define fo where "fo = takeWhile (\<lambda>t. is_folder (fst t)) tagged"
  define fi where "fi = dropWhile (\<lambda>t. is_folder (fst t)) tagged"
  have fo: "is_folder (fst t)" if "t \<in> set fo" for t using that unfolding fo_def by (auto dest: set_takeWhileD)
  have "fi = map (\<lambda>e. (e, classify mem xxh pl rel dl e)) (dropWhile is_folder (sort_desc es))"
    unfolding fi_def tagged_def by (simp add: dropWhile_map comp_def)
  then have fi: "\<not> is_folder (fst t)" if "t \<in> set fi" for t
    using that sort_desc_folders_first [of es] by (auto simp: folders_first_def list_all_iff)
  let ?visit = "\<lambda>t v child_rel. visit mem xxh d pl dl child_rel (fst t) v"
  have p1: "fold (\<lambda>t v. case path_cat mem (Some rel) (Some (fst (fst t))) of
        None \<Rightarrow> v\<lparr>operation_ok := False\<rparr>
      | Some c \<Rightarrow> extra_dir mem d dl c (fst (fst t)) (?visit t v c)) (filter (\<lambda>t. snd t = Extra) fo) v =
      fold (act mem xxh d pl dl rel) (filter (\<lambda>t. snd t = Extra) fo) v" for v
    by (intro fold_cong refl ext) (simp add: act_def fo cong: option.case_cong)
  have p2: "fold (\<lambda>t v. extra_file mem d rel (fst (fst t)) v) (filter (\<lambda>t. snd t = Extra) fi) v =
      fold (act mem xxh d pl dl rel) (filter (\<lambda>t. snd t = Extra) fi) v" for v
    by (intro fold_cong refl ext) (simp add: act_def fi)
  have p3: "fold (\<lambda>t v. case path_cat mem (Some rel) (Some (fst (fst t))) of
        None \<Rightarrow> v\<lparr>operation_ok := False\<rparr>
      | Some c \<Rightarrow> (fst (?visit t v c))\<lparr>survives := True\<rparr>) (filter (\<lambda>t. snd t \<noteq> Extra \<and> snd t \<noteq> Shielded) (rev fo)) v =
      fold (act mem xxh d pl dl rel) (filter (\<lambda>t. snd t \<noteq> Extra \<and> snd t \<noteq> Shielded) (rev fo)) v" for v
    by (intro fold_cong refl ext) (simp add: act_def fo cong: option.case_cong)
  show ?thesis
    unfolding delete_walk_fd.simps [of mem xxh d pl pd rel cs st] Some r option.case prod.case Let_def dl_def [symmetric]
      tagged_def [symmetric] agenda_def fold_append comp_def fo_def [symmetric] fi_def [symmetric]
      fold_guarded not_not de_Morgan_disj
    by (simp only: p1 [unfolded visit_def] p2 p3 [unfolded visit_def] start_def)
next
  case None
  show ?thesis unfolding delete_walk_fd.simps [of mem xxh d pl pd rel cs st] None option.case ..
qed

end
