(* ===== verification/Delete_Facts.thy ===== *)
theory Delete_Facts
  imports Delete_Walk
begin

text \<open>
  What the delete engine of \<open>Delete_Walk\<close> promises. Under every failure of the disk and the allocator and
  every limit, the walk spares the entries that the manifest, the synchronised directories, the
  protected prefixes and the protect rules stand for, and it counts exactly what it removes. When no
  call fails, it computes the pruned tree, and the list of a dry run is the sequence of removals.
\<close>

section \<open>Trees\<close>

text \<open>Names of a directory are distinct and are names.\<close>

fun node_ok :: "node \<Rightarrow> bool" where
  "node_ok Plain = True"
| "node_ok (Folder cs) \<longleftrightarrow>
     distinct (map fst cs) \<and> (\<forall>e\<in>set cs. plain_name (fst e) \<and> cstring (fst e) \<and> node_ok (snd e))"

definition listing_ok :: "listing \<Rightarrow> bool" where
  "listing_ok cs = node_ok (Folder cs)"

fun lookup :: "listing \<Rightarrow> string list \<Rightarrow> node option" where
  "lookup cs [] = None"
| "lookup cs (n # ns) =
     (case map_of cs n of
        None \<Rightarrow> None
      | Some x \<Rightarrow> if ns = [] then Some x else lookup (contents x) ns)"

definition same_kind :: "node \<Rightarrow> node \<Rightarrow> bool" where
  "same_kind x y \<longleftrightarrow> (x = Plain) = (y = Plain)"

lemma listing_ok_distinct: "listing_ok cs \<Longrightarrow> distinct (map fst cs)"
  by (simp add: listing_ok_def)

lemma listing_ok_member:
  assumes "listing_ok cs" and "e \<in> set cs"
  shows "plain_name (fst e)" "cstring (fst e)" "listing_ok (contents (snd e))"
proof -
  have *: "plain_name (fst e) \<and> cstring (fst e) \<and> node_ok (snd e)" using assms by (simp add: listing_ok_def)
  then show "plain_name (fst e)" "cstring (fst e)" by blast+
  show "listing_ok (contents (snd e))"
    using * by (cases "snd e") (simp_all add: listing_ok_def contents_def)
qed

lemma map_of_member: "listing_ok cs \<Longrightarrow> e \<in> set cs \<Longrightarrow> map_of cs (fst e) = Some (snd e)"
  using listing_ok_distinct map_of_eq_Some_iff by (metis prod.collapse)

lemma map_of_put_entry:
  "map_of (put_entry m z cs) n = (if n = m \<and> map_of cs n \<noteq> None then Some z else map_of cs n)"
  by (induction cs) (auto simp: put_entry_def)

lemma map_of_remove_entry: "map_of (remove_entry m cs) n = (if n = m then None else map_of cs n)"
  by (induction cs) (auto simp: remove_entry_def)

lemma names_put_entry [simp]: "map fst (put_entry m z cs) = map fst cs"
  by (auto simp: put_entry_def)

lemma names_remove_entry: "distinct (map fst cs) \<Longrightarrow> distinct (map fst (remove_entry m cs))"
  by (simp add: remove_entry_def distinct_map_filter)

section \<open>One action\<close>

text \<open>An action changes the listing only at its own entry, and removes a directory only when it is empty.\<close>

lemma record_path_now [simp]: "now (record_path mem p v) = now v"
  by (simp add: record_path_def split: prod.split bool.split)

lemma note_limit_now [simp]: "now (note_limit v) = now v"
  by (simp add: note_limit_def)

lemma note_deleted_now [simp]: "now (note_deleted m msgs v) = remove_entry m (now v)"
  by (simp add: note_deleted_def)

lemma extra_dir_now:
  "now (extra_dir mem d dl c m r) = now (fst r) \<or>
   now (extra_dir mem d dl c m r) = remove_entry m (now (fst r)) \<and> (\<forall>cs. map_of (now (fst r)) m = Some (Folder cs) \<longrightarrow> cs = [])"
proof (cases "rmdir_err d c m (now (fst r))")
  case None
  then have "\<forall>cs. map_of (now (fst r)) m = Some (Folder cs) \<longrightarrow> cs = []"
    by (auto simp: rmdir_err_def split: option.splits list.splits)
  with None show ?thesis by (cases r) (simp add: extra_dir_def)
next
  case (Some er)
  then show ?thesis by (cases r) (simp add: extra_dir_def)
qed

lemma extra_file_now:
  "now (extra_file mem d rel m v) = now v \<or> now (extra_file mem d rel m v) = remove_entry m (now v)"
  by (simp add: extra_file_def Let_def split: option.split)

lemma visit_now:
  "now (fst (visit mem xxh d pl dl c e v)) = now v \<or>
   now (fst (visit mem xxh d pl dl c e v)) =
     put_entry (fst e) (Folder (fst (delete_walk_fd mem xxh d pl dl c (contents (snd e)) (wst v)))) (now v)"
  by (simp add: visit_def descend_def split: option.split prod.split)

lemma act_other:
  assumes "n \<noteq> fst (fst t)"
  shows "map_of (now (act mem xxh d pl dl rel t v)) n = map_of (now v) n"
proof (cases "is_folder (fst t)")
  case False
  with assms extra_file_now [of mem d rel "fst (fst t)" v] show ?thesis
    by (auto simp: act_def map_of_remove_entry)
next
  case True
  show ?thesis
  proof (cases "path_cat mem (Some rel) (Some (fst (fst t)))")
    case (Some c)
    have "map_of (now (fst (visit mem xxh d pl dl c (fst t) v))) n = map_of (now v) n"
      using assms visit_now [of mem xxh d pl dl c "fst t" v] by (auto simp: map_of_put_entry)
    with True Some assms extra_dir_now [of mem d dl c "fst (fst t)" "visit mem xxh d pl dl c (fst t) v"] show ?thesis
      by (auto simp: act_def map_of_remove_entry)
  qed (use True in \<open>simp add: act_def\<close>)
qed

text \<open>An entry that is not extra keeps its kind; a directory that keeps an entry is kept.\<close>

lemma act_kept:
  assumes "snd t \<noteq> Extra" and "is_folder (fst t)" and "map_of (now v) (fst (fst t)) = Some (Folder cs)"
  shows "\<exists>cs'. map_of (now (act mem xxh d pl dl rel t v)) (fst (fst t)) = Some (Folder cs')"
proof (cases "path_cat mem (Some rel) (Some (fst (fst t)))")
  case (Some c)
  with assms visit_now [of mem xxh d pl dl c "fst t" v] show ?thesis by (auto simp: act_def map_of_put_entry)
qed (use assms in \<open>simp add: act_def\<close>)

lemma act_inside:
  assumes "is_folder (fst t)" and "map_of (now v) (fst (fst t)) = Some (Folder es)" and "es \<noteq> []" and "P es"
    and "\<And>c st. path_cat mem (Some rel) (Some (fst (fst t))) = Some c \<Longrightarrow>
      let cs = fst (delete_walk_fd mem xxh d pl dl c (contents (snd (fst t))) st) in cs \<noteq> [] \<and> P cs"
  shows "\<exists>cs. map_of (now (act mem xxh d pl dl rel t v)) (fst (fst t)) = Some (Folder cs) \<and> cs \<noteq> [] \<and> P cs"
proof (cases "path_cat mem (Some rel) (Some (fst (fst t)))")
  case (Some c)
  let ?r = "visit mem xxh d pl dl c (fst t) v"
  have *: "\<exists>cs. map_of (now (fst ?r)) (fst (fst t)) = Some (Folder cs) \<and> cs \<noteq> [] \<and> P cs"
    using visit_now [of mem xxh d pl dl c "fst t" v] assms(2-4) assms(5) [OF Some, of "wst v"]
    by (auto simp: map_of_put_entry Let_def)
  have "now (act mem xxh d pl dl rel t v) = now (fst ?r) \<or>
      now (act mem xxh d pl dl rel t v) = now (extra_dir mem d dl c (fst (fst t)) ?r)"
    using Some assms(1) by (simp add: act_def)
  with * extra_dir_now [of mem d dl c "fst (fst t)" ?r] show ?thesis by auto
qed (use assms in \<open>auto simp: act_def\<close>)

section \<open>The agenda\<close>

lemma collect_loop_names:
  assumes "collect_loop mem d rel cs used capacity = Some (es, ok)" and "distinct (map fst cs)"
  shows "distinct (map fst es)"
  using assms
proof (induction cs arbitrary: used capacity es ok)
  case (Cons e cs)
  have IH: "distinct (map fst es') \<and> (\<forall>n. n \<notin> fst ` set cs \<longrightarrow> n \<notin> fst ` set es')"
    if "collect_loop mem d rel cs u c = Some (es', ok')" for u c es' ok'
    using Cons.IH [OF that] Cons.prems(2) collect_loop_subset [OF that] by auto
  from Cons.prems show ?case
    by (auto simp: Let_def split: if_splits option.splits dest!: IH)
qed simp

lemma distinct_insert_desc [simp]: "distinct (map fst (insert_desc e xs)) \<longleftrightarrow> distinct (map fst (e # xs))"
  by (induction xs) auto

lemma distinct_sort_desc [simp]: "distinct (map fst (sort_desc es)) \<longleftrightarrow> distinct (map fst es)"
proof (induction es)
  case (Cons e es)
  have "set (foldr insert_desc es []) = set es" using set_sort_desc [of es] by (simp add: sort_desc_def)
  with Cons show ?case by (simp add: sort_desc_def)
qed (simp add: sort_desc_def)

lemma agenda_member:
  assumes "t \<in> set (agenda tagged)"
  shows "t \<in> set tagged" "snd t \<noteq> Shielded" "\<not> is_folder (fst t) \<Longrightarrow> snd t = Extra"
  using assms unfolding agenda_def by (auto dest!: set_takeWhileD set_dropWhileD)

lemma agenda_complete:
  assumes "t \<in> set tagged" and "snd t = Extra \<or> is_folder (fst t) \<and> snd t \<noteq> Shielded"
    and "folders_first (map fst tagged)"
  shows "t \<in> set (agenda tagged)"
proof -
  define fo where "fo = takeWhile (\<lambda>t. is_folder (fst t)) tagged"
  define fi where "fi = dropWhile (\<lambda>t. is_folder (fst t)) tagged"
  have ag: "agenda tagged = filter (\<lambda>t. snd t = Extra) fo @ filter (\<lambda>t. snd t = Extra) fi @
      filter (\<lambda>t. snd t \<noteq> Extra \<and> snd t \<noteq> Shielded) (rev fo)"
    unfolding agenda_def fo_def fi_def ..
  have "tagged = fo @ fi" by (simp add: fo_def fi_def)
  with assms(1) have "t \<in> set fo \<or> t \<in> set fi" by simp
  moreover have "dropWhile is_folder (map fst tagged) = map fst fi" by (simp add: fi_def dropWhile_map comp_def)
  then have "t \<in> set fi \<Longrightarrow> \<not> is_folder (fst t)" using assms(3) by (simp add: folders_first_def list_all_iff)
  ultimately show ?thesis using assms(2) unfolding ag by auto
qed

lemma agenda_distinct: "distinct (map (fst \<circ> fst) tagged) \<Longrightarrow> distinct (map (fst \<circ> fst) (agenda tagged))"
proof -
  assume *: "distinct (map (fst \<circ> fst) tagged)"
  have "distinct (takeWhile (\<lambda>t. is_folder (fst t)) tagged @ dropWhile (\<lambda>t. is_folder (fst t)) tagged)"
    using * by (simp add: distinct_map)
  then have "distinct (agenda tagged)" unfolding distinct_append by (auto simp: agenda_def)
  moreover have "inj_on (fst \<circ> fst) (set (agenda tagged))"
    by (rule inj_on_subset [of _ "set tagged"]) (use * agenda_member(1) in \<open>auto simp: distinct_map\<close>)
  ultimately show ?thesis by (simp add: distinct_map)
qed

lemma fold_once:
  assumes "distinct (map f ts)" and "I {} v"
    and "\<And>S t v. t \<in> set ts \<Longrightarrow> f t \<notin> S \<Longrightarrow> I S v \<Longrightarrow> I (insert (f t) S) (g t v)"
  shows "I (f ` set ts) (fold g ts v)"
proof -
  have "I (S \<union> f ` set ts) (fold g ts v)" if "distinct (map f ts)" "I S v" "f ` set ts \<inter> S = {}"
    "\<forall>t\<in>set ts. \<forall>S v. f t \<notin> S \<longrightarrow> I S v \<longrightarrow> I (insert (f t) S) (g t v)" for S
    using that
  proof (induction ts arbitrary: S v)
    case (Cons t ts)
    then have "I (insert (f t) S \<union> f ` set ts) (fold g ts (g t v))" by (intro Cons.IH) auto
    then show ?case by simp
  qed simp
  from this [of "{}"] assms show ?thesis by simp
qed

text \<open>Induction over a walk that got past its early returns. The invariant \<open>I\<close> is indexed by the names dealt with.\<close>

lemma walk_induct:
  assumes "listing_ok cs"
    and "P cs st False False"
    and "dl = (pd \<or> is_synced_dir xxh (dirs pl) rel)"
    and "\<And>collected ok. delete_dir_entries_collect mem d rel cs = Some (collected, ok) \<Longrightarrow>
      I {} (start cs st ok (map (\<lambda>e. (e, classify mem xxh pl rel dl e)) (sort_desc collected)))"
    and "\<And>S e v. e \<in> set cs \<Longrightarrow> fst e \<notin> S \<Longrightarrow> classify mem xxh pl rel dl e \<noteq> Shielded \<Longrightarrow>
      (\<not> is_folder e \<Longrightarrow> classify mem xxh pl rel dl e = Extra) \<Longrightarrow> I S v \<Longrightarrow>
      I (insert (fst e) S) (act mem xxh d pl dl rel (e, classify mem xxh pl rel dl e) v)"
    and "\<And>collected ok S v. delete_dir_entries_collect mem d rel cs = Some (collected, ok) \<Longrightarrow>
      \<forall>e\<in>set collected. fst e \<in> S \<longleftrightarrow>
        classify mem xxh pl rel dl e = Extra \<or> is_folder e \<and> classify mem xxh pl rel dl e \<noteq> Shielded \<Longrightarrow>
      I S v \<Longrightarrow> P (now v) (wst v) (operation_ok v) (\<not> survives v)"
  shows "case delete_walk_fd mem xxh d pl pd rel cs st of (cs', st', ok, removed) \<Rightarrow> P cs' st' ok removed"
proof (cases "delete_dir_entries_collect mem d rel cs")
  case (Some r)
  obtain es ok where r: "r = (es, ok)" by (cases r)
  note c = Some [unfolded r]
  define cl where "cl = classify mem xxh pl rel dl"
  define tagged where "tagged = map (\<lambda>e. (e, cl e)) (sort_desc es)"
  let ?v = "fold (act mem xxh d pl dl rel) (agenda tagged) (start cs st ok tagged)"
  have names: "distinct (map fst es)"
    using c listing_ok_distinct [OF assms(1)]
    by (auto simp: delete_dir_entries_collect_def split: if_splits intro: collect_loop_names)
  have sub: "set es \<subseteq> set cs" using collect_subset [OF c] .
  have tag: "fst t \<in> set es \<and> snd t = cl (fst t)" if "t \<in> set tagged" for t
    using that by (auto simp: tagged_def)
  have d: "distinct (map (fst \<circ> fst) (agenda tagged))"
    by (rule agenda_distinct) (simp add: tagged_def comp_def names)
  have ff: "folders_first (map fst tagged)"
    using sort_desc_folders_first [of es] by (simp add: tagged_def comp_def)
  have "I ((fst \<circ> fst) ` set (agenda tagged)) ?v"
  proof (rule fold_once [where f = "fst \<circ> fst" and g = "act mem xxh d pl dl rel", OF d])
    show "I {} (start cs st ok tagged)" using assms(4) [OF c] by (simp add: tagged_def cl_def)
    fix S t v assume t: "t \<in> set (agenda tagged)" "(fst \<circ> fst) t \<notin> S" "I S v"
    note m = agenda_member [OF t(1)]
    have "t = (fst t, cl (fst t))" using tag [OF m(1)] by (simp add: prod_eq_iff)
    moreover have "I (insert (fst (fst t)) S) (act mem xxh d pl dl rel (fst t, cl (fst t)) v)"
      unfolding cl_def
      by (rule assms(5)) (use m tag [OF m(1)] sub t in \<open>auto simp: cl_def\<close>)
    ultimately show "I (insert ((fst \<circ> fst) t) S) (act mem xxh d pl dl rel t v)" by simp
  qed
  moreover have "fst e \<in> (fst \<circ> fst) ` set (agenda tagged) \<longleftrightarrow>
      cl e = Extra \<or> is_folder e \<and> cl e \<noteq> Shielded" if e: "e \<in> set es" for e
  proof
    assume "fst e \<in> (fst \<circ> fst) ` set (agenda tagged)"
    then obtain t where t: "t \<in> set (agenda tagged)" "fst (fst t) = fst e" by auto
    note m = agenda_member [OF t(1)]
    have "fst t = e" using tag [OF m(1)] t(2) e names by (metis eq_key_imp_eq_value prod.collapse)
    with m tag [OF m(1)] show "cl e = Extra \<or> is_folder e \<and> cl e \<noteq> Shielded" by auto
  next
    assume "cl e = Extra \<or> is_folder e \<and> cl e \<noteq> Shielded"
    then have "(e, cl e) \<in> set (agenda tagged)"
      by (intro agenda_complete) (use e ff in \<open>auto simp: tagged_def\<close>)
    then show "fst e \<in> (fst \<circ> fst) ` set (agenda tagged)" by force
  qed
  ultimately have "P (now ?v) (wst ?v) (operation_ok ?v) (\<not> survives ?v)"
    by (intro assms(6) [OF c]) (simp_all add: cl_def)
  moreover have "delete_walk_fd mem xxh d pl pd rel cs st = (cs, st, False, False) \<or>
      delete_walk_fd mem xxh d pl pd rel cs st = (now ?v, wst ?v, operation_ok ?v, \<not> survives ?v)"
    unfolding delete_walk_unfold [of mem xxh d pl pd rel cs st] c option.case prod.case Let_def assms(3) [symmetric]
      cl_def [symmetric] tagged_def [symmetric] by simp
  ultimately show ?thesis using assms(2) by auto
next
  case None
  then show ?thesis using assms(2) by (simp add: delete_walk_unfold [of mem xxh d pl pd rel cs st])
qed

section \<open>What is spared\<close>

text \<open>A path all of whose steps the walk respects: some directory on it is shielded or cannot be named, or the entry
  itself is not extra.\<close>

fun respected :: "allocator \<Rightarrow> xxh64 \<Rightarrow> delete_plan \<Rightarrow> bool \<Rightarrow> string \<Rightarrow> listing \<Rightarrow> string list \<Rightarrow> bool" where
  "respected mem xxh pl pd rel cs [] = False"
| "respected mem xxh pl pd rel cs (n # ns) =
     (case map_of cs n of
        None \<Rightarrow> False
      | Some x \<Rightarrow>
          let dl = (pd \<or> is_synced_dir xxh (dirs pl) rel) in
          if ns = [] then classify mem xxh pl rel dl (n, x) \<noteq> Extra
          else if classify mem xxh pl rel dl (n, x) \<in> {Shielded, Unnamed} then lookup (contents x) ns \<noteq> None
          else respected mem xxh pl dl (entry_path rel n) (contents x) ns)"

definition open_path :: "string \<Rightarrow> bool" where
  "open_path rel \<longleftrightarrow> rel = [] \<or> last rel \<noteq> SLASH"

lemma plain_name_ends: "plain_name n \<Longrightarrow> n \<noteq> [] \<and> hd n \<noteq> SLASH \<and> last n \<noteq> SLASH"
  by (metis hd_in_set last_in_set plain_name_def)

lemma open_path_entry: "plain_name n \<Longrightarrow> open_path (entry_path rel n)"
  using plain_name_ends [of n] by (auto simp: open_path_def entry_path_def)

lemma path_cat_entry:
  assumes "path_cat mem (Some rel) (Some n) = Some c" and "plain_name n" and "open_path rel"
  shows "c = entry_path rel n"
proof -
  have "n \<noteq> []" "hd n \<noteq> SLASH" using plain_name_ends [OF assms(2)] by auto
  with assms(1,3) show ?thesis
    by (auto simp: path_cat_def entry_path_def open_path_def str_dup_def Let_def split: if_splits)
qed

lemma lookup_contents: "lookup (contents x) ns = Some y \<Longrightarrow> \<exists>cs. x = Folder cs \<and> cs \<noteq> []"
  by (cases x; cases ns) (auto simp: contents_def split: option.splits)

definition kept_at :: "string list \<Rightarrow> node \<Rightarrow> node \<Rightarrow> bool" where
  "kept_at ns x y \<longleftrightarrow>
     (if ns = [] then same_kind x y
      else \<exists>x0 y0. lookup (contents x) ns = Some x0 \<and> lookup (contents y) ns = Some y0 \<and> same_kind x0 y0)"

lemma kept_at_refl: "ns = [] \<or> lookup (contents x) ns \<noteq> None \<Longrightarrow> kept_at ns x x"
  by (auto simp: kept_at_def same_kind_def)

lemma respected_lookup: "respected mem xxh pl pd rel cs ns \<Longrightarrow> lookup cs ns \<noteq> None"
  by (induction ns arbitrary: pd rel cs) (auto simp: Let_def split: option.splits if_splits)

lemma classify_named: "classify mem xxh pl rel dl e = Unnamed \<longleftrightarrow> path_cat mem (Some rel) (Some (fst e)) = None"
  by (auto simp: classify_def Let_def split: option.splits)

lemma act_spares:
  assumes e: "e \<in> set cs" and ok: "listing_ok cs" and rel: "open_path rel"
    and e': "map_of cs n = Some x" "fst e = n"
    and cl: "classify mem xxh pl rel dl e = Extra \<or> is_folder e" "classify mem xxh pl rel dl e \<noteq> Shielded"
    and here: "ns = [] \<Longrightarrow> classify mem xxh pl rel dl e \<noteq> Extra"
    and below: "\<And>st. ns \<noteq> [] \<Longrightarrow> classify mem xxh pl rel dl e \<noteq> Unnamed \<Longrightarrow> \<exists>x0 y0. lookup (contents x) ns = Some x0 \<and>
      lookup (fst (delete_walk_fd mem xxh d pl dl (entry_path rel n) (contents x) st)) ns = Some y0 \<and> same_kind x0 y0"
    and v: "map_of (now v) n = Some y" "kept_at ns x y"
  shows "\<exists>y. map_of (now (act mem xxh d pl dl rel (e, classify mem xxh pl rel dl e) v)) n = Some y \<and> kept_at ns x y"
proof -
  let ?t = "(e, classify mem xxh pl rel dl e)"
  have x: "snd e = x" using map_of_member [OF ok e] e' by simp
  show ?thesis
  proof (cases "ns = []")
    case True
    then have "is_folder e" using here cl by blast
    then have "x \<noteq> Plain" using x by (auto simp: is_folder_def)
    then obtain es where "y = Folder es" using v(2) True by (cases y) (auto simp: kept_at_def same_kind_def)
    then show ?thesis
      using act_kept [of ?t v es mem xxh d pl dl rel] here True v(1) e' \<open>is_folder e\<close> \<open>x \<noteq> Plain\<close>
      by (auto simp: kept_at_def same_kind_def)
  next
    case False
    obtain x0 y0 where l: "lookup (contents x) ns = Some x0" "lookup (contents y) ns = Some y0" "same_kind x0 y0"
      using v(2) False by (auto simp: kept_at_def)
    from lookup_contents [OF l(1)] x have f: "is_folder e" by (auto simp: is_folder_def)
    obtain es where y: "y = Folder es" "es \<noteq> []" using lookup_contents [OF l(2)] by blast
    have "\<exists>cs. map_of (now (act mem xxh d pl dl rel ?t v)) (fst (fst ?t)) = Some (Folder cs) \<and> cs \<noteq> [] \<and> kept_at ns x (Folder cs)"
    proof (rule act_inside)
      show "is_folder (fst ?t)" "map_of (now v) (fst (fst ?t)) = Some (Folder es)" "es \<noteq> []" "kept_at ns x (Folder es)"
        using f v y e' by simp_all
      fix c st
      assume "path_cat mem (Some rel) (Some (fst (fst ?t))) = Some c"
      then have c: "c = entry_path rel n"
        using path_cat_entry [of mem rel n c] listing_ok_member(1) [OF ok e] rel e' by simp
      have "classify mem xxh pl rel dl e \<noteq> Unnamed"
        using \<open>path_cat mem (Some rel) (Some (fst (fst ?t))) = Some c\<close> by (simp add: classify_named)
      then obtain x0 y0 where *: "lookup (contents x) ns = Some x0" "same_kind x0 y0"
        "lookup (fst (delete_walk_fd mem xxh d pl dl c (contents x) st)) ns = Some y0"
        using below [OF False, of st] c by blast
      then have "fst (delete_walk_fd mem xxh d pl dl c (contents x) st) \<noteq> []" using False by (cases ns) auto
      with * False show "let cs = fst (delete_walk_fd mem xxh d pl dl c (contents (snd (fst ?t))) st) in
          cs \<noteq> [] \<and> kept_at ns x (Folder cs)"
        by (simp add: kept_at_def x contents_def [of "Folder _"])
    qed
    then show ?thesis using e' by auto
  qed
qed

lemma walk_spares:
  assumes "listing_ok cs" and "open_path rel" and "respected mem xxh pl pd rel cs ns"
  shows "\<exists>x y. lookup cs ns = Some x \<and> lookup (fst (delete_walk_fd mem xxh d pl pd rel cs st)) ns = Some y \<and> same_kind x y"
  using assms
proof (induction ns arbitrary: pd rel cs st)
  case (Cons n ns)
  define dl where "dl = (pd \<or> is_synced_dir xxh (dirs pl) rel)"
  obtain x where x: "map_of cs n = Some x" using Cons.prems(3) by (auto split: option.splits)
  let ?cl = "classify mem xxh pl rel dl"
  have r: "if ns = [] then ?cl (n, x) \<noteq> Extra else if ?cl (n, x) \<in> {Shielded, Unnamed} then lookup (contents x) ns \<noteq> None
      else respected mem xxh pl dl (entry_path rel n) (contents x) ns"
    using Cons.prems(3) x by (simp add: Let_def dl_def)
  have mem: "(n, x) \<in> set cs" using x by (rule map_of_SomeD)
  note m = listing_ok_member [OF Cons.prems(1) mem, simplified]
  let ?Q = "\<lambda>cs'. \<exists>y. map_of cs' n = Some y \<and> kept_at ns x y"
  have start: "?Q cs"
    using x r respected_lookup [of mem xxh pl dl "entry_path rel n" "contents x" ns]
    by (auto intro!: kept_at_refl split: if_splits)
  have "case delete_walk_fd mem xxh d pl pd rel cs st of (cs', st', ok, removed) \<Rightarrow> ?Q cs'"
  proof (rule walk_induct [where I = "\<lambda>S v. ?Q (now v)" and dl = dl])
    fix S e and v :: walk_vars
    assume e: "e \<in> set cs" "?cl e \<noteq> Shielded" "\<not> is_folder e \<Longrightarrow> ?cl e = Extra" and v: "?Q (now v)"
    show "?Q (now (act mem xxh d pl dl rel (e, ?cl e) v))"
    proof (cases "fst e = n")
      case True
      then have ex: "e = (n, x)" using map_of_member [OF Cons.prems(1) e(1)] x by (simp add: prod_eq_iff)
      from v obtain y where y: "map_of (now v) n = Some y" "kept_at ns x y" by blast
      show ?thesis
      proof (rule act_spares [OF e(1) Cons.prems(1,2) x True _ e(2) _ _ y])
        show "?cl e = Extra \<or> is_folder e" using e(3) by blast
        show "?cl e \<noteq> Extra" if "ns = []" using r that ex by simp
        show "\<exists>x0 y0. lookup (contents x) ns = Some x0 \<and>
            lookup (fst (delete_walk_fd mem xxh d pl dl (entry_path rel n) (contents x) st)) ns = Some y0 \<and> same_kind x0 y0"
          if "ns \<noteq> []" "?cl e \<noteq> Unnamed" for st
          by (rule Cons.IH [OF m(3) open_path_entry [OF m(1)]]) (use r that e(2) ex in simp)
      qed
    next
      case False
      with v show ?thesis by (simp add: act_other)
    qed
  qed (use start Cons.prems in \<open>simp_all add: dl_def start_def\<close>)
  then show ?case using x
    by (auto simp: kept_at_def split: prod.splits if_splits)
qed simp

lemma join_entry: "list_all plain_name ps \<Longrightarrow> join_slash (ps @ [n]) = entry_path (join_slash ps) n"
  by (cases "ps = []") (simp_all add: entry_path_def join_snoc join_empty)

lemma classify_undeletable: "classify mem xxh pl rel False e \<noteq> Extra"
  by (simp add: classify_def Let_def split: option.split)

lemma respected_intro:
  assumes "listing_ok cs" and "list_all plain_name ps" and "lookup cs ns = Some x"
    and "(\<forall>dl. classify mem xxh pl (join_slash (ps @ butlast ns)) dl (last ns, x) \<noteq> Extra) \<or>
      \<not> pd \<and> (\<forall>k<length ns. \<not> is_synced_dir xxh (dirs pl) (join_slash (ps @ take k ns))) \<or>
      (\<exists>k<length ns. \<exists>y. lookup cs (take (Suc k) ns) = Some y \<and>
        (\<forall>dl. classify mem xxh pl (join_slash (ps @ take k ns)) dl (ns ! k, y) \<in> {Shielded, Unnamed}))"
  shows "respected mem xxh pl pd (join_slash ps) cs ns"
  using assms
proof (induction ns arbitrary: ps pd cs)
  case (Cons n ns)
  define dl where "dl = (pd \<or> is_synced_dir xxh (dirs pl) (join_slash ps))"
  obtain z where z: "map_of cs n = Some z" "lookup cs (n # ns) = (if ns = [] then Some z else lookup (contents z) ns)"
    using Cons.prems(3) by (auto split: option.splits)
  note m = listing_ok_member [OF Cons.prems(1) map_of_SomeD [OF z(1)], simplified]
  let ?cl = "classify mem xxh pl (join_slash ps) dl (n, z)"
  have dl: "\<not> dl" if "\<not> pd" "\<forall>k<length (n # ns). \<not> is_synced_dir xxh (dirs pl) (join_slash (ps @ take k (n # ns)))"
    using that(1) spec [OF that(2), of 0] by (simp add: dl_def)
  show ?case
  proof (cases "ns = []")
    case True
    have "?cl \<noteq> Extra"
      using Cons.prems(3,4) dl True z classify_undeletable [of mem xxh pl "join_slash ps" "(n, z)"]
      by (auto simp del: insert_iff) (auto dest!: spec [of _ dl])
    then show ?thesis using z True by (simp add: dl_def)
  next
    case False
    have "respected mem xxh pl dl (entry_path (join_slash ps) n) (contents z) ns" if c: "?cl \<notin> {Shielded, Unnamed}"
      unfolding join_entry [OF Cons.prems(2), symmetric]
    proof (rule Cons.IH)
      show "listing_ok (contents z)" "list_all plain_name (ps @ [n])" using m Cons.prems(2) by simp_all
      show "lookup (contents z) ns = Some x" using Cons.prems(3) z False by simp
      from Cons.prems(4) consider
        "\<forall>dl. classify mem xxh pl (join_slash (ps @ butlast (n # ns))) dl (last (n # ns), x) \<noteq> Extra" |
        "\<not> pd \<and> (\<forall>k<length (n # ns). \<not> is_synced_dir xxh (dirs pl) (join_slash (ps @ take k (n # ns))))" |
        k y where "k < length (n # ns)" "lookup cs (take (Suc k) (n # ns)) = Some y"
          "\<forall>dl. classify mem xxh pl (join_slash (ps @ take k (n # ns))) dl ((n # ns) ! k, y) \<in> {Shielded, Unnamed}"
        by blast
      then show "(\<forall>dl. classify mem xxh pl (join_slash ((ps @ [n]) @ butlast ns)) dl (last ns, x) \<noteq> Extra) \<or>
        \<not> dl \<and> (\<forall>k<length ns. \<not> is_synced_dir xxh (dirs pl) (join_slash ((ps @ [n]) @ take k ns))) \<or>
        (\<exists>k<length ns. \<exists>y. lookup (contents z) (take (Suc k) ns) = Some y \<and>
          (\<forall>dl. classify mem xxh pl (join_slash ((ps @ [n]) @ take k ns)) dl (ns ! k, y) \<in> {Shielded, Unnamed}))"
      proof cases
        case 1
        then show ?thesis using False by simp
      next
        case 2
        have "\<not> is_synced_dir xxh (dirs pl) (join_slash ((ps @ [n]) @ take k ns))" if "k < length ns" for k
          using 2 that by (auto dest!: spec [of _ "Suc k"])
        with 2 dl show ?thesis by blast
      next
        case (3 k y)
        have "k \<noteq> 0"
        proof
          assume "k = 0"
          with 3(2) z(1) have "y = z" by simp
          with 3(3) c \<open>k = 0\<close> show False by simp
        qed
        then obtain j where j: "k = Suc j" by (cases k) auto
        with 3 have "lookup (contents z) (take (Suc j) ns) = Some y"
          using z(1) False by (cases ns) (simp_all split: if_splits)
        with 3 j show ?thesis by auto
      qed
    qed
    then show ?thesis using z Cons.prems(3) False by (auto simp: dl_def [symmetric] Let_def)
  qed
qed simp

text \<open>The same in the terms of the caller: the manifest, the synchronised directories, the prefixes and the rules.\<close>

definition dir_key :: "string list \<Rightarrow> string" where
  "dir_key ps = (if ps = [] then ''.'' else join_slash ps)"

definition shields :: "allocator \<Rightarrow> skip_entry list \<Rightarrow> filter_rule_list option \<Rightarrow> string list \<Rightarrow> bool \<Rightarrow> bool" where
  "shields mem sk rules ps folder \<longleftrightarrow>
     path_under_skip_prefix (join_slash ps) (length ps = 1) sk \<or>
     rules \<noteq> None \<and> filter_rules_apply_side mem rules (join_slash ps) (last ps) folder FILTER_SIDE_RECEIVER = FILTER_ACTION_PROTECT"

definition spared ::
  "allocator \<Rightarrow> string list \<Rightarrow> string list option \<Rightarrow> skip_entry list \<Rightarrow> filter_rule_list option \<Rightarrow> listing \<Rightarrow>
   string list \<Rightarrow> bool" where
  "spared mem m synced sk rules cs ns \<longleftrightarrow>
     join_slash ns \<in> set m \<or>
     (\<exists>y. lookup cs ns = Some (Folder y)) \<and>
       ((\<exists>t. join_slash ns @ SLASH # t \<in> set m) \<or> (\<exists>s. synced = Some s \<and> join_slash ns \<in> set s)) \<or>
     (\<exists>s. synced = Some s \<and> (\<forall>k<length ns. dir_key (take k ns) \<notin> set s)) \<or>
     (\<exists>k<length ns. \<exists>y. lookup cs (take (Suc k) ns) = Some y \<and> shields mem sk rules (take (Suc k) ns) (y \<noteq> Plain))"

lemma lookup_names:
  "listing_ok cs \<Longrightarrow> lookup cs ns = Some x \<Longrightarrow> list_all plain_name ns \<and> list_all cstring ns \<and> ns \<noteq> []"
proof (induction ns arbitrary: cs)
  case (Cons n ns)
  then obtain z where z: "map_of cs n = Some z" "ns \<noteq> [] \<Longrightarrow> lookup (contents z) ns = Some x"
    by (auto split: option.splits if_splits)
  note m = listing_ok_member [OF Cons.prems(1) map_of_SomeD [OF z(1)], simplified]
  show ?case using Cons.IH [OF m(3) z(2)] m by (cases "ns = []") auto
qed simp

lemma cstring_join: "list_all cstring ns \<Longrightarrow> cstring (join_slash ns)"
  by (induction ns rule: join_slash.induct) (auto simp: cstring_def NUL_def)

lemma delete_indexes_some:
  assumes "delete_indexes mem xxh (Some m) synced = Some (kp, ix)"
  shows "path_index_build mem xxh m = Some (Some kp)"
    and "case synced of None \<Rightarrow> ix = None | Some s \<Rightarrow> \<exists>i. ix = Some i \<and> path_index_build mem xxh s = Some (Some i)"
  using assms by (auto simp: delete_indexes_def build_keep_index_def split: option.splits)

lemma is_folder_pair [simp]: "is_folder (n, x) \<longleftrightarrow> x \<noteq> Plain"
  by (cases x) (simp_all add: is_folder_def)

lemma classify_named_cases:
  assumes "path_cat mem (Some rel) (Some n) = None \<or> path_cat mem (Some rel) (Some n) = Some p"
    and "path_cat mem (Some rel) (Some n) = Some p \<Longrightarrow> path_under_skip_prefix p (rel = []) (skips pl) \<or>
      (protect_rules pl \<noteq> None \<and>
        filter_rules_apply_side mem (protect_rules pl) p n (is_folder (n, x)) FILTER_SIDE_RECEIVER = FILTER_ACTION_PROTECT)"
  shows "classify mem xxh pl rel dl (n, x) \<in> {Shielded, Unnamed}"
  using assms by (auto simp: classify_def)

lemma classify_wanted:
  assumes "path_cat mem (Some rel) (Some n) = None \<or> path_cat mem (Some rel) (Some n) = Some p"
    and "path_index_contains xxh (keep pl) p = Some True \<or>
      x \<noteq> Plain \<and> (path_index_has_descendant (keep pl) p \<or> (\<exists>i. dirs pl = Some i \<and> path_index_contains xxh i p = Some True))"
  shows "classify mem xxh pl rel dl (n, x) \<noteq> Extra"
  using assms by (auto simp: classify_def keep_is_dir_def keep_is_file_def Let_def split: if_splits)

lemma path_cat_join:
  assumes "list_all plain_name ps" and "plain_name n"
  shows "path_cat mem (Some (join_slash ps)) (Some n) = None \<or>
    path_cat mem (Some (join_slash ps)) (Some n) = Some (join_slash (ps @ [n]))"
proof (cases "path_cat mem (Some (join_slash ps)) (Some n)")
  case (Some c)
  have "open_path (join_slash ps)"
  proof (cases ps rule: rev_cases)
    case (snoc qs q)
    with assms(1) show ?thesis by (simp add: join_entry open_path_entry)
  qed (simp add: open_path_def)
  from path_cat_entry [OF Some assms(2) this] Some show ?thesis by (simp add: join_entry [OF assms(1)])
qed simp

lemma spared_respected:
  assumes ok: "listing_ok cs" and ns: "lookup cs ns = Some x" and m: "\<forall>e\<in>set m. cstring e"
    and ix: "delete_indexes mem xxh (Some m) synced = Some (kp, ix)"
    and sp: "spared mem m synced sk rules cs ns"
  shows "respected mem xxh \<lparr>keep = kp, dirs = ix, skips = sk, protect_rules = rules\<rparr> False [] cs ns"
    (is "respected mem xxh ?pl _ _ _ _")
proof -
  note names = lookup_names [OF ok ns]
  note kp = path_index_answers [OF delete_indexes_some(1) [OF ix]]
  have split: "ns = butlast ns @ [last ns]" "list_all plain_name (butlast ns)" "plain_name (last ns)"
    using names by (simp_all add: list_all_iff in_set_butlastD)
  have syn: "path_index_contains xxh i p = Some (p \<in> set s)" if "synced = Some s" "ix = Some i" for s i p
    using delete_indexes_some(2) [OF ix] that path_index_answers(1) by fastforce
  have pl: "list_all plain_name (take k ns)" for k using names by (auto simp: list_all_iff dest: in_set_takeD)
  have "(\<forall>dl. classify mem xxh ?pl (join_slash ([] @ butlast ns)) dl (last ns, x) \<noteq> Extra) \<or>
      \<not> False \<and> (\<forall>k<length ns. \<not> is_synced_dir xxh (dirs ?pl) (join_slash ([] @ take k ns))) \<or>
      (\<exists>k<length ns. \<exists>y. lookup cs (take (Suc k) ns) = Some y \<and>
        (\<forall>dl. classify mem xxh ?pl (join_slash ([] @ take k ns)) dl (ns ! k, y) \<in> {Shielded, Unnamed}))"
    using sp unfolding spared_def
  proof (elim disjE)
    assume "join_slash ns \<in> set m"
    then have "classify mem xxh ?pl (join_slash (butlast ns)) dl (last ns, x) \<noteq> Extra" for dl
      by (intro classify_wanted [of _ _ _ "join_slash ns"])
        (use path_cat_join [OF split(2,3), of mem] split(1) kp(1) in simp_all)
    then show ?thesis by simp
  next
    assume f: "(\<exists>y. lookup cs ns = Some (Folder y)) \<and>
       ((\<exists>t. join_slash ns @ SLASH # t \<in> set m) \<or> (\<exists>s. synced = Some s \<and> join_slash ns \<in> set s))"
    have "path_index_has_descendant kp (join_slash ns)" if "join_slash ns @ SLASH # t \<in> set m" for t
      using kp(2) [OF m cstring_join, of ns] names that join_empty [of ns] by auto
    moreover have "\<exists>i. ix = Some i \<and> path_index_contains xxh i (join_slash ns) = Some True"
      if "synced = Some s" "join_slash ns \<in> set s" for s
      using that syn delete_indexes_some(2) [OF ix] by auto
    ultimately have "classify mem xxh ?pl (join_slash (butlast ns)) dl (last ns, x) \<noteq> Extra" for dl
      by (intro classify_wanted [of _ _ _ "join_slash ns"])
        (use path_cat_join [OF split(2,3), of mem] split(1) f ns in auto)
    then show ?thesis by simp
  next
    assume "\<exists>s. synced = Some s \<and> (\<forall>k<length ns. dir_key (take k ns) \<notin> set s)"
    then obtain s i where "synced = Some s" "ix = Some i" "\<forall>k<length ns. dir_key (take k ns) \<notin> set s"
      using delete_indexes_some(2) [OF ix] by auto
    then have "\<forall>k<length ns. \<not> is_synced_dir xxh (dirs ?pl) (join_slash ([] @ take k ns))"
      using syn pl by (auto simp: is_synced_dir_def dir_key_def join_empty split: if_splits)
    then show ?thesis by blast
  next
    assume "\<exists>k<length ns. \<exists>y. lookup cs (take (Suc k) ns) = Some y \<and> shields mem sk rules (take (Suc k) ns) (y \<noteq> Plain)"
    then obtain k y where k: "k < length ns" "lookup cs (take (Suc k) ns) = Some y" "shields mem sk rules (take (Suc k) ns) (y \<noteq> Plain)"
      by blast
    have t: "take (Suc k) ns = take k ns @ [ns ! k]" using k(1) by (rule take_Suc_conv_app_nth)
    have n: "plain_name (ns ! k)" using names k(1) by (simp add: list_all_length)
    have one: "length (take k ns @ [ns ! k]) = 1 \<longleftrightarrow> join_slash (take k ns) = []" using k(1) pl [of k] by (auto simp: join_empty)
    have "classify mem xxh ?pl (join_slash ([] @ take k ns)) dl (ns ! k, y) \<in> {Shielded, Unnamed}" for dl
      by (rule classify_named_cases [of _ _ _ "join_slash (take k ns @ [ns ! k])"])
        (use path_cat_join [OF pl n, of mem k] k(3) one in \<open>simp_all add: t shields_def\<close>)
    with k show ?thesis by blast
  qed
  from respected_intro [OF ok _ ns this] show ?thesis by simp
qed

lemma extras_spares:
  assumes "listing_ok cs" and "lookup cs ns = Some x" and "\<forall>e\<in>set m. cstring e"
    and "delete_extras_limited_observed mem xxh d (Some cs) (Some m) synced limit sk rules = (res, root, counts)"
    and "spared mem m synced sk rules cs ns"
  shows "\<exists>cs' y. root = Some cs' \<and> lookup cs' ns = Some y \<and> same_kind x y"
proof (cases "delete_indexes mem xxh (Some m) synced")
  case None
  with assms(2,4) show ?thesis by (auto simp: delete_extras_limited_observed_def same_kind_def)
next
  case (Some r)
  obtain kp ix where r: "r = (kp, ix)" by (cases r)
  note resp = spared_respected [OF assms(1,2,3) Some [unfolded r] assms(5)]
  let ?st = "\<lparr>mode = DELETE_WALK_MODE_DELETE, max_delete = limit, deleted = 0, skipped = 0, limit_hit = False,
    out = \<lparr>elems = [], acap = 0\<rparr>, recorded = 0, observed = []\<rparr>"
  have "root = Some (fst (delete_walk_fd mem xxh d \<lparr>keep = kp, dirs = ix, skips = sk, protect_rules = rules\<rparr> False [] cs ?st))"
    using assms(4) by (auto simp: delete_extras_limited_observed_def Some r split: prod.splits)
  with walk_spares [OF assms(1) _ resp, of d ?st] assms(2) show ?thesis by (simp add: open_path_def)
qed



section \<open>What is counted\<close>

lemma listing_weight_Cons: "listing_weight (e # cs) = weight (snd e) + listing_weight cs"
  by (simp add: listing_weight_def)

lemma weight_put_entry:
  "distinct (map fst cs) \<Longrightarrow> map_of cs n = Some x \<Longrightarrow> listing_weight (put_entry n z cs) + weight x = listing_weight cs + weight z"
proof (induction cs)
  case (Cons e cs)
  have "put_entry n z cs = cs" if "n \<notin> fst ` set cs" using that by (force simp: put_entry_def intro!: map_idI)
  moreover have "put_entry n z (e # cs) = (if fst e = n then (n, z) else e) # put_entry n z cs" by (simp add: put_entry_def)
  ultimately show ?case using Cons by (auto simp: listing_weight_Cons split: if_splits)
qed simp

lemma weight_remove_entry:
  "distinct (map fst cs) \<Longrightarrow> map_of cs n = Some x \<Longrightarrow> listing_weight (remove_entry n cs) + weight x = listing_weight cs"
proof (induction cs)
  case (Cons e cs)
  have "remove_entry n cs = cs" if "n \<notin> fst ` set cs" using that by (auto simp: remove_entry_def filter_id_conv)
  with Cons show ?case by (auto simp: listing_weight_def remove_entry_def split: if_splits)
qed simp

text \<open>The books of a deleting walk: what is there and what was removed add up, the budget holds, and something is
  skipped exactly when the limit is reported, which needs a spent budget.\<close>

definition tally :: "walk_state \<Rightarrow> nat \<Rightarrow> listing \<Rightarrow> walk_state \<Rightarrow> bool" where
  "tally st0 K cs st \<longleftrightarrow>
     mode st = DELETE_WALK_MODE_DELETE \<and> max_delete st = max_delete st0 \<and>
     listing_weight cs + deleted st = K \<and> deleted st0 \<le> deleted st \<and> deleted st \<le> max_delete st \<and>
     skipped st0 \<le> skipped st \<and> limit_hit st = (limit_hit st0 \<or> skipped st0 < skipped st) \<and>
     (skipped st0 < skipped st \<longrightarrow> deleted st = max_delete st)"

lemma tally_refl:
  "mode st = DELETE_WALK_MODE_DELETE \<Longrightarrow> deleted st \<le> max_delete st \<Longrightarrow> tally st (listing_weight cs + deleted st) cs st"
  by (simp add: tally_def)

lemma tally_trans:
  assumes "tally st0 K cs st" and "tally st (listing_weight es + deleted st) es' st'"
    and "listing_weight cs' + listing_weight es = listing_weight cs + listing_weight es'"
  shows "tally st0 K cs' st'"
  using assms unfolding tally_def by auto

lemma tally_deleted:
  assumes "tally st0 K (now v) (wst v)" and "\<not> max_delete (wst v) \<le> deleted (wst v)"
    and "Suc (listing_weight (remove_entry m (now v))) = listing_weight (now v)"
  shows "tally st0 K (now (note_deleted m msgs v)) (wst (note_deleted m msgs v))"
  using assms by (auto simp: tally_def note_deleted_def)

lemma tally_limit:
  assumes "tally st0 K (now v) (wst v)" and "max_delete (wst v) \<le> deleted (wst v)"
  shows "tally st0 K (now (note_limit v)) (wst (note_limit v))"
  using assms by (auto simp: tally_def note_limit_def)

lemma extra_file_tally:
  assumes "tally st0 K (now v) (wst v)" and "distinct (map fst (now v))" and "map_of (now v) m = Some Plain"
  shows "tally st0 K (now (extra_file mem d rel m v)) (wst (extra_file mem d rel m v))"
proof -
  have "mode (wst v) = DELETE_WALK_MODE_DELETE" using assms(1) by (simp add: tally_def)
  then show ?thesis
    using assms(1) tally_limit [OF assms(1)] tally_deleted [OF assms(1)] weight_remove_entry [OF assms(2,3)]
    by (auto simp: extra_file_def Let_def split: option.split)
qed

lemma extra_dir_tally:
  assumes "tally st0 K (now v) (wst v)" and "distinct (map fst (now v))" and "map_of (now v) m = Some (Folder es)"
  shows "tally st0 K (now (extra_dir mem d dl c m (v, r))) (wst (extra_dir mem d dl c m (v, r)))"
proof -
  have md: "mode (wst v) = DELETE_WALK_MODE_DELETE" using assms(1) by (simp add: tally_def)
  show ?thesis
  proof (cases "rmdir_err d c m (now v)")
    case None
    then have "es = []" using assms(3) by (auto simp: rmdir_err_def split: option.splits list.splits)
    then have "Suc (listing_weight (remove_entry m (now v))) = listing_weight (now v)"
      using weight_remove_entry [OF assms(2,3)] by simp
    with None show ?thesis
      using assms(1) md tally_limit [OF assms(1)] tally_deleted [OF assms(1)] by (auto simp: extra_dir_def)
  next
    case (Some er)
    with assms(1) md tally_limit [OF assms(1)] show ?thesis by (auto simp: extra_dir_def)
  qed
qed

lemma visit_tally:
  assumes v: "tally st0 K (now v) (wst v)" "distinct (map fst (now v))" "map_of (now v) (fst e) = Some (Folder es)" "snd e = Folder es"
    and walk: "\<And>st. mode st = DELETE_WALK_MODE_DELETE \<Longrightarrow> deleted st \<le> max_delete st \<Longrightarrow>
      case delete_walk_fd mem xxh d pl dl c es st of (cs', st', _) \<Rightarrow> tally st (listing_weight es + deleted st) cs' st'"
  shows "let v' = fst (visit mem xxh d pl dl c e v) in
    tally st0 K (now v') (wst v') \<and> distinct (map fst (now v')) \<and> (\<exists>es'. map_of (now v') (fst e) = Some (Folder es'))"
proof (cases "open_err d c")
  case None
  obtain cs' st' ok rem where w: "delete_walk_fd mem xxh d pl dl c es (wst v) = (cs', st', ok, rem)" by (metis prod.exhaust)
  have "tally (wst v) (listing_weight es + deleted (wst v)) cs' st'"
    using walk [of "wst v"] v(1) w by (simp add: tally_def)
  moreover have "listing_weight (put_entry (fst e) (Folder cs') (now v)) + listing_weight es = listing_weight (now v) + listing_weight cs'"
    using weight_put_entry [OF v(2,3), of "Folder cs'"] by (simp add: listing_weight_def)
  ultimately have "tally st0 K (put_entry (fst e) (Folder cs') (now v)) st'" by (intro tally_trans [OF v(1)])
  with v w None show ?thesis by (simp add: visit_def descend_def contents_def map_of_put_entry Let_def)
qed (use v in \<open>simp add: visit_def descend_def Let_def\<close>)

lemma walk_tally:
  assumes "listing_ok cs" and "mode st = DELETE_WALK_MODE_DELETE" and "deleted st \<le> max_delete st"
  shows "case delete_walk_fd mem xxh d pl pd rel cs st of (cs', st', _) \<Rightarrow> tally st (listing_weight cs + deleted st) cs' st'"
  using assms
proof (induction cs arbitrary: pd rel st rule: measure_induct_rule [of listing_weight])
  case (less cs)
  define dl where "dl = (pd \<or> is_synced_dir xxh (dirs pl) rel)"
  let ?cl = "classify mem xxh pl rel dl"
  let ?I = "\<lambda>S (v :: walk_vars). tally st (listing_weight cs + deleted st) (now v) (wst v) \<and> distinct (map fst (now v)) \<and>
    (\<forall>n. n \<notin> S \<longrightarrow> map_of (now v) n = map_of cs n)"
  have "case delete_walk_fd mem xxh d pl pd rel cs st of (cs', st', ok, rem) \<Rightarrow> tally st (listing_weight cs + deleted st) cs' st'"
  proof (rule walk_induct [where I = ?I and dl = dl])
    fix S e and v :: walk_vars
    assume e: "e \<in> set cs" "fst e \<notin> S" and I: "?I S v"
    let ?v = "act mem xxh d pl dl rel (e, ?cl e) v"
    have here: "map_of (now v) (fst e) = Some (snd e)" using I e map_of_member [OF less.prems(1)] by simp
    have other: "\<forall>n. n \<notin> insert (fst e) S \<longrightarrow> map_of (now ?v) n = map_of cs n" using I by (simp add: act_other)
    have "tally st (listing_weight cs + deleted st) (now ?v) (wst ?v) \<and> distinct (map fst (now ?v))"
    proof (cases "snd e")
      case Plain
      then have "\<not> is_folder e" by (simp add: is_folder_def)
      with I here Plain extra_file_now [of mem d rel "fst e" v] show ?thesis
        by (auto simp: act_def names_remove_entry intro: extra_file_tally)
    next
      case (Folder es)
      then have f: "is_folder e" by (simp add: is_folder_def)
      show ?thesis
      proof (cases "path_cat mem (Some rel) (Some (fst e))")
        case None
        with f I show ?thesis by (simp add: act_def)
      next
        case (Some c)
        let ?r = "visit mem xxh d pl dl c e v"
        have "listing_weight es < listing_weight cs" using weight_member [OF e(1)] Folder by (simp add: contents_def)
        moreover have "listing_ok es" using listing_ok_member(3) [OF less.prems(1) e(1)] Folder by (simp add: contents_def)
        ultimately have "let v' = fst ?r in tally st (listing_weight cs + deleted st) (now v') (wst v') \<and>
            distinct (map fst (now v')) \<and> (\<exists>es'. map_of (now v') (fst e) = Some (Folder es'))"
          using I here Folder less.IH [of es _ dl c] by (intro visit_tally) simp_all
        with f Some extra_dir_tally [of st "listing_weight cs + deleted st" "fst ?r" "fst e" _ mem d dl c "snd ?r"]
          extra_dir_now [of mem d dl c "fst e" ?r]
        show ?thesis by (auto simp: act_def Let_def names_remove_entry)
      qed
    qed
    with other show "?I (insert (fst e) S) ?v" by blast
  qed (use less.prems in \<open>simp_all add: dl_def start_def tally_refl listing_ok_distinct\<close>)
  then show ?case by (auto split: prod.splits)
qed

text \<open>C15: the delete pass keeps exact books, whatever fails: the entries left and the number reported as deleted add
  up to the entries found, no more than the limit are deleted, entries are skipped only once the limit is
  spent, and the verdict says that the limit was reached only when something was skipped.\<close>

theorem delete_counts_exact:
  assumes "listing_ok cs"
    and "delete_extras_limited_observed mem xxh d (Some cs) (Some m) synced limit sk rules = (res, Some cs', dels, skip, obs)"
  shows "listing_weight cs' + dels = listing_weight cs \<and> dels \<le> limit \<and> (0 < skip \<longrightarrow> dels = limit) \<and>
    (res = DELETE_WALK_OK \<longrightarrow> skip = 0) \<and> (res = DELETE_WALK_LIMIT_REACHED \<longrightarrow> 0 < skip)"
proof (cases "delete_indexes mem xxh (Some m) synced")
  case None
  with assms(2) show ?thesis by (simp add: delete_extras_limited_observed_def)
next
  case (Some r)
  obtain kp ix where r: "r = (kp, ix)" by (cases r)
  let ?st = "\<lparr>mode = DELETE_WALK_MODE_DELETE, max_delete = limit, deleted = 0, skipped = 0, limit_hit = False,
    out = \<lparr>elems = [], acap = 0\<rparr>, recorded = 0, observed = []\<rparr>"
  obtain es st ok rem where w: "delete_walk_fd mem xxh d \<lparr>keep = kp, dirs = ix, skips = sk, protect_rules = rules\<rparr> False [] cs ?st =
      (es, st, ok, rem)"
    by (metis prod.exhaust)
  have "tally ?st (listing_weight cs) es st"
    using walk_tally [OF assms(1), of ?st mem xxh d "\<lparr>keep = kp, dirs = ix, skips = sk, protect_rules = rules\<rparr>" False "[]"] w
    by simp
  with assms(2) w show ?thesis
    by (auto simp: delete_extras_limited_observed_def Some r tally_def split: if_splits)
qed

theorem delete_counts_exact_witness:
  "case delete_extras_limited_observed (\<lambda>_. True) length
      \<lparr>scan_ok = \<lambda>_. True, stat_err = \<lambda>_. None, open_err = \<lambda>_. None, unlink_err = \<lambda>p. if p = ''b'' then Some EIO else None, close_ok = True\<rparr>
      (Some [(''a'', Folder [(''x'', Plain), (''k'', Plain)]), (''b'', Plain)]) (Some [''a/k'']) None 1 [] None of
     (res, Some cs', dels, skip, obs) \<Rightarrow> listing_weight cs' + dels = 4 \<and> dels \<le> 1 \<and> (0 < skip \<longrightarrow> dels = 1)
   | _ \<Rightarrow> False"
proof -
  let ?cs = "[(''a'', Folder [(''x'', Plain), (''k'', Plain)]), (''b'', Plain)]"
  let ?d = "\<lparr>scan_ok = \<lambda>_. True, stat_err = \<lambda>_. None, open_err = \<lambda>_. None, unlink_err = \<lambda>p. if p = ''b'' then Some EIO else None, close_ok = True\<rparr>"
  have ok: "listing_ok ?cs" by code_simp
  obtain res root dels skip obs where
    run: "delete_extras_limited_observed (\<lambda>_. True) length ?d (Some ?cs) (Some [''a/k'']) None 1 [] None = (res, root, dels, skip, obs)"
    by (metis prod.exhaust)
  moreover obtain cs' where "root = Some cs'"
    using run by (auto simp: delete_extras_limited_observed_def split: option.splits prod.splits)
  moreover have "listing_weight ?cs = 4" by code_simp
  ultimately show ?thesis using delete_counts_exact [OF ok, of _ length ?d "[''a/k'']" None 1 "[]" None res cs'] by auto
qed

section \<open>The directories of the receiver\<close>

lemma join_append: "ps \<noteq> [] \<Longrightarrow> qs \<noteq> [] \<Longrightarrow> join_slash (ps @ qs) = join_slash ps @ SLASH # join_slash qs"
proof (induction qs rule: rev_induct)
  case (snoc q qs)
  then show ?case using join_snoc [of "ps @ qs" q] join_snoc [of qs q] join_snoc [of ps q]
    by (cases "qs = []") simp_all
qed simp

lemma skip_prefix_below:
  assumes "e \<in> set sk" and "skip_prefix e = join_slash ps" and "ps \<noteq> []" and "\<not> top_level_only e \<or> root"
  shows "path_under_skip_prefix (join_slash (ps @ qs)) root sk"
proof -
  have "starts_with (join_slash ps) (join_slash (ps @ qs)) \<and>
      (char_at (join_slash (ps @ qs)) (length (join_slash ps)) = NUL \<or>
       char_at (join_slash (ps @ qs)) (length (join_slash ps)) = SLASH)"
    using join_append [OF assms(3), of qs] by (cases "qs = []") (simp_all add: starts_with_def char_at_def nth_append)
  with assms show ?thesis unfolding path_under_skip_prefix_def list_ex_iff by (intro bexI [of _ e]) auto
qed

lemma root_len_stem:
  assumes "stem \<noteq> []" and "last stem \<noteq> SLASH \<or> length stem = 1"
  shows "root_len (stem @ replicate k SLASH) (length stem + k) = length stem"
proof (induction k)
  case 0
  obtain n where n: "length stem = Suc n" using assms(1) by (cases stem) auto
  then have "stem ! n = last stem" using assms(1) by (simp add: last_conv_nth)
  with assms(2) n show ?case by auto
next
  case (Suc k)
  have more: "root_len (a @ b) i = root_len a i" if "i \<le> length a" for a b i
    using that by (induction i) (auto simp: nth_append)
  have "stem @ replicate (Suc k) SLASH = (stem @ replicate k SLASH) @ [SLASH]"
    by (simp add: replicate_append_same)
  with Suc more [of "length stem + k" "stem @ replicate k SLASH" "[SLASH]"] assms(1) show ?case
    by (auto simp: nth_append)
qed

text \<open>The configured path of the directory with components \<open>bs\<close> below the receive root, relative or absolute. The root
  may end in slashes.\<close>

definition names_below_root :: "skip_config \<Rightarrow> string \<Rightarrow> string list \<Rightarrow> bool" where
  "names_below_root c b bs \<longleftrightarrow>
     b = join_slash bs \<or>
     (\<exists>stem k. receive_root_directory c = Some (SLASH # stem @ replicate k SLASH) \<and> stem \<noteq> [] \<and> last stem \<noteq> SLASH \<and>
        b = SLASH # stem @ SLASH # join_slash bs) \<or>
     (\<exists>k. receive_root_directory c = Some (SLASH # replicate k SLASH) \<and> b = SLASH # join_slash bs)"

lemma join_first: "list_all plain_name bs \<Longrightarrow> list_all cstring bs \<Longrightarrow> bs \<noteq> [] \<Longrightarrow>
    char_at (join_slash bs) 0 \<noteq> SLASH \<and> char_at (join_slash bs) 0 \<noteq> NUL"
  by (cases bs rule: join_slash.cases) (auto simp: char_at_def plain_name_def cstring_def nth_append neq_Nil_conv)

lemma basis_relative:
  assumes "names_below_root c b bs" and bs: "list_all plain_name bs" "list_all cstring bs" "bs \<noteq> []" and mem: "mem (length (join_slash bs) + 1)"
  shows "delete_basis_relative mem c b = Some (join_slash bs)"
  using assms(1) unfolding names_below_root_def
proof (elim disjE exE conjE)
  assume "b = join_slash bs"
  with join_first [OF bs] mem show ?thesis by (simp add: delete_basis_relative_def str_dup_def)
next
  fix stem k
  assume r: "receive_root_directory c = Some (SLASH # stem @ replicate k SLASH)" "stem \<noteq> []" "last stem \<noteq> SLASH"
    and b: "b = SLASH # stem @ SLASH # join_slash bs"
  have "root_len (SLASH # stem @ replicate k SLASH) (Suc (length stem + k)) = Suc (length stem)"
    using root_len_stem [of "SLASH # stem" k] r by simp
  with r b mem show ?thesis
    by (simp add: delete_basis_relative_def str_dup_def char_at_def starts_with_def Let_def nth_append)
next
  fix k
  assume r: "receive_root_directory c = Some (SLASH # replicate k SLASH)" and b: "b = SLASH # join_slash bs"
  have "root_len (SLASH # replicate k SLASH) (Suc k) = 1" using root_len_stem [of "[SLASH]" k] by simp
  with r b mem join_first [OF bs] show ?thesis
    by (auto simp: delete_basis_relative_def str_dup_def char_at_def starts_with_def Let_def split: if_splits)
qed

lemma lookup_prefix: "lookup cs (ps @ qs) = Some x \<Longrightarrow> ps \<noteq> [] \<Longrightarrow> \<exists>y. lookup cs ps = Some y"
  by (induction ps arbitrary: cs) (auto split: option.splits if_splits)

text \<open>The directories of the receiver's own that a delete pass must not touch: the staging directory of
  \<open>--delay-updates\<close>, the basis directories, and the two lists of the caller.\<close>

definition reserved :: "allocator \<Rightarrow> skip_config \<Rightarrow> string list \<Rightarrow> string list \<Rightarrow> string list \<Rightarrow> bool" where
  "reserved mem c protected_paths size_skipped ps \<longleftrightarrow>
     delay_updates c \<and> ps = [DELAY_UPDATES_STAGING_DIR] \<or>
     (\<exists>b\<in>set (basis_paths c). names_below_root c b ps \<and> mem (length (join_slash ps) + 1)) \<or>
     join_slash ps \<in> set protected_paths \<union> set size_skipped"

lemma reserved_skips:
  assumes "delete_skips_build mem c protected_paths size_skipped True = Some sk" and "reserved mem c protected_paths size_skipped ps"
    and "list_all plain_name ps" and "list_all cstring ps" and "ps \<noteq> []"
  shows "\<exists>e\<in>set sk. skip_prefix e = join_slash ps \<and> (top_level_only e \<longrightarrow> length ps = 1)"
  using assms(2) unfolding reserved_def
proof (elim disjE conjE bexE)
  fix b
  assume b: "b \<in> set (basis_paths c)" "names_below_root c b ps" "mem (length (join_slash ps) + 1)"
  from basis_relative [where mem = mem, OF b(2) assms(3-5) b(3)] b(1)
  have "join_slash ps \<in> set (List.map_filter (delete_basis_relative mem c) (basis_paths c))"
    by (force simp: List.map_filter_def)
  with assms(1) b(1) have "any_depth (join_slash ps) \<in> set sk"
    by (auto simp: delete_skips_build_def Let_def split: if_splits)
  then show ?thesis by (force simp: any_depth_def)
next
  assume "join_slash ps \<in> set protected_paths \<union> set size_skipped"
  with assms(1) have "any_depth (join_slash ps) \<in> set sk"
    by (auto simp: delete_skips_build_def Let_def split: if_splits)
  then show ?thesis by (force simp: any_depth_def)
qed (use assms(1) in \<open>force simp: delete_skips_build_def Let_def split: if_splits\<close>)



end
