(* ===== verification/Delete_Exact.thy ===== *)
theory Delete_Exact
  imports Delete_Facts "HOL-Library.List_Lexorder"
begin

text \<open>
  The functional behaviour of the delete engine when no call fails: the tree a deleting walk leaves is
  the pruned tree, a reference definition without order, state or indexes; what it reports is the
  reference sequence of removals, in the order of rsync; and the dry run lists the same sequence.
\<close>

section \<open>Reference\<close>

text \<open>A judge gives the verdict on an entry of the directory \<open>rel\<close>, told whether entries there may be deleted; \<open>syn\<close>
  are the synchronised directories.\<close>

type_synonym judge = "string \<Rightarrow> bool \<Rightarrow> string \<times> node \<Rightarrow> verdict"

definition option_entry :: "string \<times> node \<Rightarrow> node option \<Rightarrow> listing" where
  "option_entry e r = (case r of None \<Rightarrow> [] | Some x \<Rightarrow> [(fst e, x)])"

function prune_entry :: "judge \<Rightarrow> (string \<Rightarrow> bool) \<Rightarrow> bool \<Rightarrow> string \<Rightarrow> string \<times> node \<Rightarrow> node option" where
  "prune_entry cl syn pd rel (n, Plain) = (if cl rel (pd \<or> syn rel) (n, Plain) = Extra then None else Some Plain)"
| "prune_entry cl syn pd rel (n, Folder cs) =
     (if cl rel (pd \<or> syn rel) (n, Folder cs) = Shielded then Some (Folder cs)
      else let cs' = concat (map (\<lambda>e. option_entry e (prune_entry cl syn (pd \<or> syn rel) (entry_path rel n) e)) cs) in
        if cl rel (pd \<or> syn rel) (n, Folder cs) = Extra \<and> cs' = [] then None else Some (Folder cs'))"
  by pat_completeness auto

termination
proof (relation "measure (\<lambda>(_, _, _, _, e). weight (snd e))", goal_cases)
  case 1
  show ?case by simp
next
  case (2 cl syn pd rel n cs e)
  then have "weight (snd e) \<le> sum_list (map (\<lambda>e. weight (snd e)) cs)" by (intro member_le_sum_list) auto
  then show ?case by simp
qed

definition prune :: "judge \<Rightarrow> (string \<Rightarrow> bool) \<Rightarrow> bool \<Rightarrow> string \<Rightarrow> listing \<Rightarrow> listing" where
  "prune cl syn pd rel cs = concat (map (\<lambda>e. option_entry e (prune_entry cl syn pd rel e)) cs)"

text \<open>The removals, depth first: extra directories in descending order, then extra files in descending order, then what
  is below the directories that are kept, in ascending order. The order is that of the names as byte strings.\<close>

definition name_key :: "string \<times> node \<Rightarrow> nat list" where
  "name_key e = map of_char (fst e)"

definition by_name :: "listing \<Rightarrow> listing" where
  "by_name cs = sort_key name_key cs"

definition todo :: "judge \<Rightarrow> bool \<Rightarrow> string \<Rightarrow> listing \<Rightarrow> ((string \<times> node) \<times> verdict) list" where
  "todo cl dl rel cs = map (\<lambda>e. (e, cl rel dl e))
     (rev (filter (\<lambda>e. is_folder e \<and> cl rel dl e = Extra) (by_name cs)) @
      rev (filter (\<lambda>e. \<not> is_folder e \<and> cl rel dl e = Extra) (by_name cs)) @
      filter (\<lambda>e. is_folder e \<and> cl rel dl e \<noteq> Extra \<and> cl rel dl e \<noteq> Shielded) (by_name cs))"

lemma set_by_name [simp]: "set (by_name cs) = set cs"
  by (simp add: by_name_def)

lemma distinct_by_name: "distinct (map fst (by_name cs)) \<longleftrightarrow> distinct (map fst cs)"
  by (simp add: by_name_def distinct_map)

lemma todo_member: "t \<in> set (todo cl dl rel cs) \<Longrightarrow> fst t \<in> set cs \<and> snd t = cl rel dl (fst t)"
  by (auto simp: todo_def)

lemma todo_member_iff:
  "(e, v) \<in> set (todo cl dl rel cs) \<longleftrightarrow> e \<in> set cs \<and> v = cl rel dl e \<and> (v = Extra \<or> is_folder e \<and> v \<noteq> Shielded)"
  by (auto simp: todo_def)

function removals :: "judge \<Rightarrow> (string \<Rightarrow> bool) \<Rightarrow> bool \<Rightarrow> string \<Rightarrow> listing \<Rightarrow> string list" where
  "removals cl syn pd rel cs =
     concat (map (\<lambda>t.
       if is_folder (fst t) then
         removals cl syn (pd \<or> syn rel) (entry_path rel (fst (fst t))) (contents (snd (fst t))) @
         (if prune_entry cl syn pd rel (fst t) = None then [entry_path rel (fst (fst t)) @ [SLASH]] else [])
       else [entry_path rel (fst (fst t))])
     (todo cl (pd \<or> syn rel) rel cs))"
  by pat_completeness auto

termination
  by (relation "measure (\<lambda>(_, _, _, _, cs). listing_weight cs)") (auto dest!: todo_member intro: weight_member)

declare removals.simps [simp del]

definition removal :: "judge \<Rightarrow> (string \<Rightarrow> bool) \<Rightarrow> bool \<Rightarrow> string \<Rightarrow> string \<times> node \<Rightarrow> string list" where
  "removal cl syn pd rel e =
     (if is_folder e then
        removals cl syn (pd \<or> syn rel) (entry_path rel (fst e)) (contents (snd e)) @
        (if prune_entry cl syn pd rel e = None then [entry_path rel (fst e) @ [SLASH]] else [])
      else [entry_path rel (fst e)])"

lemma removals_unfold: "removals cl syn pd rel cs = concat (map (\<lambda>t. removal cl syn pd rel (fst t)) (todo cl (pd \<or> syn rel) rel cs))"
  unfolding removals.simps [of cl syn pd rel cs] removal_def ..

section \<open>Sizes\<close>

lemma todo_distinct: "distinct (map fst cs) \<Longrightarrow> distinct (map (fst \<circ> fst) (todo cl dl rel cs))"
proof -
  assume "distinct (map fst cs)"
  then have d: "distinct (by_name cs)" "inj_on fst (set cs)" by (simp_all add: by_name_def distinct_map)
  let ?ts = "map fst (todo cl dl rel cs)"
  have "distinct ?ts" using d(1) by (auto simp: todo_def comp_def)
  moreover have "inj_on fst (set ?ts)" using d(2) by (rule inj_on_subset) (auto dest: todo_member)
  ultimately have "distinct (map fst ?ts)" by (simp only: distinct_map)
  then show ?thesis by simp
qed

lemma todo_weight:
  assumes "distinct (map fst cs)"
  shows "sum_list (map (\<lambda>t. weight (snd (fst t))) (todo cl dl rel cs)) \<le> listing_weight cs"
proof -
  let ?ts = "map fst (todo cl dl rel cs)"
  have d: "distinct ?ts" using todo_distinct [OF assms, of cl dl rel] by (auto simp: distinct_map comp_def inj_on_def)
  have "sum_list (map (\<lambda>e. weight (snd e)) ?ts) = sum (\<lambda>e. weight (snd e)) (set ?ts)"
    by (rule sum_list_distinct_conv_sum_set [OF d])
  also have "\<dots> \<le> sum (\<lambda>e. weight (snd e)) (set cs)" by (rule sum_mono2) (auto dest: todo_member)
  also have "\<dots> = listing_weight cs"
    using assms by (simp add: listing_weight_def sum_list_distinct_conv_sum_set distinct_map)
  finally show ?thesis by (simp add: comp_def)
qed

lemma removals_length: "listing_ok cs \<Longrightarrow> length (removals cl syn pd rel cs) \<le> listing_weight cs"
proof (induction cs arbitrary: pd rel rule: measure_induct_rule [of listing_weight])
  case (less cs)
  have "length (removal cl syn pd rel e) \<le> weight (snd e)" if "e \<in> set cs" for e
  proof (cases "snd e")
    case (Folder es)
    have "length (removals cl syn (pd \<or> syn rel) (entry_path rel (fst e)) es) \<le> listing_weight es"
      using less.IH [of es] weight_member [OF that] listing_ok_member(3) [OF less.prems that] Folder by (simp add: contents_def)
    with Folder show ?thesis by (simp add: removal_def is_folder_def contents_def listing_weight_def)
  qed (simp add: removal_def is_folder_def)
  then have "length (removals cl syn pd rel cs) \<le> sum_list (map (\<lambda>t. weight (snd (fst t))) (todo cl (pd \<or> syn rel) rel cs))"
    unfolding removals_unfold length_concat map_map by (intro sum_list_mono) (auto dest: todo_member)
  also have "\<dots> \<le> listing_weight cs" by (rule todo_weight [OF listing_ok_distinct [OF less.prems]])
  finally show ?case .
qed

section \<open>The order of the walk\<close>

lemma name_cmp_less:
  "cstring a \<Longrightarrow> cstring b \<Longrightarrow> delete_name_cmp a b < 0 \<longleftrightarrow> (map of_char a :: nat list) < map of_char b"
proof (induction a b rule: delete_name_cmp.induct)
  case (2 b bs)
  then have "b \<noteq> CHR 0x00" by (auto simp: cstring_def NUL_def)
  then have "of_char b \<noteq> (of_char (CHR 0x00) :: nat)" by (simp only: of_char_eq_iff not_False_eq_True)
  then show ?case by (simp add: uchar_def)
next
  case (4 a as b bs)
  then show ?case by (auto simp: uchar_def cstring_def)
qed (simp_all add: uchar_def)

text \<open>The order in which a directory is gone through, directories first and by descending names.\<close>

definition precedes :: "string \<times> node \<Rightarrow> string \<times> node \<Rightarrow> bool" where
  "precedes a b \<longleftrightarrow> (is_folder a \<and> \<not> is_folder b) \<or> (is_folder a = is_folder b \<and> name_key b < name_key a)"

lemma precedes_trans: "precedes a b \<Longrightarrow> precedes b c \<Longrightarrow> precedes a c"
  unfolding precedes_def using less_trans by blast

lemma precedes_irrefl [simp]: "\<not> precedes a a"
  by (simp add: precedes_def)

lemma name_key_inject: "name_key a = name_key b \<longleftrightarrow> fst a = fst b"
  by (auto simp: name_key_def inj_on_def dest: map_injective)

lemma cmp_desc_precedes:
  assumes "cstring (fst a)" and "cstring (fst b)" and "fst a \<noteq> fst b"
  shows "delete_dir_entry_cmp_desc a b \<le> 0 \<longleftrightarrow> precedes a b"
proof -
  have "\<not> delete_name_cmp (fst a) (fst b) < 0 \<longleftrightarrow> name_key b < name_key a"
    using name_cmp_less [OF assms(1,2)] name_key_inject [of a b] assms(3)
    unfolding name_key_def [symmetric] by (metis linorder_neq_iff less_not_sym)
  then show ?thesis by (auto simp: delete_dir_entry_cmp_desc_def precedes_def)
qed

lemma insert_desc_sorted:
  assumes "sorted_wrt precedes xs" and "\<forall>x\<in>insert e (set xs). cstring (fst x)" and "fst e \<notin> fst ` set xs"
  shows "sorted_wrt precedes (insert_desc e xs)"
  using assms
proof (induction xs)
  case (Cons x xs)
  have "precedes e x \<or> precedes x e"
    using Cons.prems(3) name_key_inject [of e x] by (auto simp: precedes_def)
  moreover have "delete_dir_entry_cmp_desc e x \<le> 0 \<longleftrightarrow> precedes e x"
    using Cons.prems(2,3) by (intro cmp_desc_precedes) auto
  ultimately show ?case using Cons precedes_trans by (cases "precedes e x") auto
qed simp

lemma sort_desc_sorted:
  "listing_ok cs \<Longrightarrow> sorted_wrt precedes (sort_desc cs)"
proof -
  have "distinct (map fst cs) \<Longrightarrow> \<forall>e\<in>set cs. cstring (fst e) \<Longrightarrow> sorted_wrt precedes (foldr insert_desc cs [])"
  proof (induction cs)
    case (Cons e cs)
    have "set (foldr insert_desc cs []) = set cs" using set_sort_desc [of cs] by (simp add: sort_desc_def)
    with Cons show ?case by (auto intro!: insert_desc_sorted)
  qed simp
  then show "listing_ok cs \<Longrightarrow> sorted_wrt precedes (sort_desc cs)"
    using listing_ok_distinct [of cs] listing_ok_member(2) [of cs] by (simp add: sort_desc_def)
qed

lemma sorted_wrt_unique:
  assumes "sorted_wrt precedes xs" and "sorted_wrt precedes ys" and "set xs = set ys"
  shows "xs = ys"
  using assms
proof (induction xs arbitrary: ys)
  case (Cons x xs)
  then obtain y zs where y: "ys = y # zs" by (cases ys) auto
  have "x = y"
  proof (rule ccontr)
    assume "x \<noteq> y"
    then have "y \<in> set xs" "x \<in> set zs" using Cons.prems(3) y by auto
    then have "precedes x y" "precedes y x" using Cons.prems(1,2) y by auto
    then show False using precedes_trans precedes_irrefl by blast
  qed
  moreover have "x \<notin> set xs" "y \<notin> set zs" using Cons.prems(1,2) y precedes_irrefl by fastforce+
  then have "set xs = set zs" using Cons.prems(3) y \<open>x = y\<close> by auto
  ultimately show ?case using Cons y by auto
qed simp

lemma sort_desc_by_name:
  assumes "listing_ok cs"
  shows "sort_desc cs = rev (filter is_folder (by_name cs)) @ rev (filter (\<lambda>e. \<not> is_folder e) (by_name cs))"
proof (rule sorted_wrt_unique [OF sort_desc_sorted [OF assms]])
  have "sorted (map name_key (by_name cs))" by (simp add: by_name_def)
  moreover have "distinct (map name_key (by_name cs))"
    using listing_ok_distinct [OF assms] distinct_by_name [of cs] name_key_inject by (auto simp: distinct_map inj_on_def)
  ultimately have "sorted_wrt (<) (map name_key (by_name cs))" by (simp add: strict_sorted_iff)
  then have "sorted_wrt (\<lambda>a b. name_key a < name_key b) (by_name cs)" by (simp add: sorted_wrt_map)
  then have "sorted_wrt (\<lambda>a b. name_key a < name_key b) (filter P (by_name cs))" for P by (rule sorted_wrt_filter)
  then have "sorted_wrt (\<lambda>a b. name_key b < name_key a) (rev (filter P (by_name cs)))" for P by (simp add: sorted_wrt_rev)
  then have "sorted_wrt precedes (rev (filter is_folder (by_name cs)))"
    "sorted_wrt precedes (rev (filter (\<lambda>e. \<not> is_folder e) (by_name cs)))"
    by (rule sorted_wrt_mono_rel [rotated], simp add: precedes_def)+
  then show "sorted_wrt precedes (rev (filter is_folder (by_name cs)) @ rev (filter (\<lambda>e. \<not> is_folder e) (by_name cs)))"
    by (auto simp: sorted_wrt_append precedes_def)
qed auto

lemma todo_agenda:
  assumes "listing_ok cs"
  shows "agenda (map (\<lambda>e. (e, cl rel dl e)) (sort_desc cs)) = todo cl dl rel cs"
proof -
  let ?F = "rev (filter is_folder (by_name cs))" and ?G = "rev (filter (\<lambda>e. \<not> is_folder e) (by_name cs))"
  have t: "takeWhile is_folder (?F @ ?G) = ?F" "dropWhile is_folder (?F @ ?G) = ?G"
    using hd_in_set [of ?G] by (auto simp: takeWhile_append dropWhile_append takeWhile_eq_Nil_iff dropWhile_eq_self_iff)
  show ?thesis
    unfolding agenda_def sort_desc_by_name [OF assms] takeWhile_map dropWhile_map comp_def fst_conv t todo_def
    by (simp add: filter_map comp_def rev_map flip: rev_filter)
qed

section \<open>A run without failures\<close>

definition calm :: "disk \<Rightarrow> bool" where
  "calm d \<longleftrightarrow> (\<forall>p. scan_ok d p \<and> stat_err d p = None \<and> open_err d p = None \<and> unlink_err d p = None) \<and> close_ok d"

abbreviation granted :: allocator where
  "granted \<equiv> \<lambda>_. True"

lemma calmD:
  assumes "calm d"
  shows "scan_ok d p" "stat_err d p = None" "open_err d p = None" "unlink_err d p = None" "close_ok d"
  using assms by (simp_all add: calm_def)

lemma collect_calm:
  assumes "listing_ok cs" and "calm d"
  shows "delete_dir_entries_collect granted d rel cs = Some (cs, True)"
proof -
  have "collect_loop granted d rel es used capacity = Some (es, True)" if "set es \<subseteq> set cs" for es used capacity
    using that
  proof (induction es arbitrary: used capacity)
    case (Cons e es)
    have "plain_name (fst e)" using listing_ok_member(1) [OF assms(1)] Cons.prems by simp
    with Cons assms(2) show ?case by (simp add: Let_def str_dup_def calmD plain_name_def)
  qed simp
  then show ?thesis using assms(2) by (simp add: delete_dir_entries_collect_def calmD)
qed

text \<open>The characters of the longest path below a listing, at least, with room for separators and terminators.\<close>

fun chars :: "node \<Rightarrow> nat" where
  "chars Plain = 0"
| "chars (Folder cs) = sum_list (map (\<lambda>e. length (fst e) + 2 + chars (snd e)) cs)"

lemma chars_member: "e \<in> set cs \<Longrightarrow> length (fst e) + 2 + chars (Folder (contents (snd e))) \<le> chars (Folder cs)"
proof -
  assume "e \<in> set cs"
  then have "length (fst e) + 2 + chars (snd e) \<le> sum_list (map (\<lambda>e. length (fst e) + 2 + chars (snd e)) cs)"
    by (intro member_le_sum_list) auto
  then show ?thesis by (cases "snd e") (simp_all add: contents_def)
qed

definition room_below :: "string \<Rightarrow> listing \<Rightarrow> bool" where
  "room_below rel cs \<longleftrightarrow> length rel + chars (Folder cs) \<le> SIZE_MAX - 4"

lemma room_below_member:
  assumes "room_below rel cs" and "e \<in> set cs"
  shows "room_below (entry_path rel (fst e)) (contents (snd e))"
  using assms chars_member [OF assms(2)] by (auto simp: room_below_def entry_path_def)

lemma path_cat_granted:
  assumes "plain_name n" and "open_path rel" and "length rel + length n + 2 \<le> SIZE_MAX"
  shows "path_cat granted (Some rel) (Some n) = Some (entry_path rel n)"
proof -
  have "n \<noteq> []" "hd n \<noteq> SLASH" using plain_name_ends [OF assms(1)] by auto
  with assms(2,3) show ?thesis by (auto simp: path_cat_def entry_path_def open_path_def str_dup_def Let_def)
qed

text \<open>What a removal does to the state, in both modes, and the room it needs.\<close>

definition logged :: "walk_state \<Rightarrow> string list \<Rightarrow> walk_state \<Rightarrow> bool" where
  "logged st ps st' \<longleftrightarrow>
     (if mode st = DELETE_WALK_MODE_LIST then
        st' = st\<lparr>out := out st', recorded := recorded st + length ps\<rparr> \<and> elems (out st') = elems (out st) @ ps
      else st' = st\<lparr>deleted := deleted st + length ps, observed := observed st @ ps\<rparr>)"

definition room :: "walk_state \<Rightarrow> nat \<Rightarrow> bool" where
  "room st n \<longleftrightarrow>
     (if mode st = DELETE_WALK_MODE_LIST then int (length (elems (out st)) + n) \<le> Prelude.INT_MAX div 2
      else deleted st + n \<le> max_delete st)"

lemma logged_refl: "logged st [] st"
  by (simp add: logged_def)

lemma logged_mode: "logged st ps st' \<Longrightarrow> mode st' = mode st"
  unfolding logged_def by (metis walk_state.select_convs(1) walk_state.surjective walk_state.update_convs(3,6,7,8))

lemma logged_trans:
  assumes "logged st ps st'" and "logged st' qs st''"
  shows "logged st (ps @ qs) st''"
proof (cases "mode st = DELETE_WALK_MODE_LIST")
  case True
  then have *: "st' = st\<lparr>out := out st', recorded := recorded st + length ps\<rparr>" "elems (out st') = elems (out st) @ ps"
    "st'' = st'\<lparr>out := out st'', recorded := recorded st' + length qs\<rparr>" "elems (out st'') = elems (out st') @ qs"
    using assms logged_mode [OF assms(1)] by (simp_all add: logged_def)
  have "recorded st' = recorded st + length ps" by (subst *(1)) simp
  then have "st'' = st\<lparr>out := out st'', recorded := recorded st + length (ps @ qs)\<rparr>" by (subst *(3), subst *(1)) simp
  with * True show ?thesis by (simp add: logged_def)
next
  case False
  then have "st' = st\<lparr>deleted := deleted st + length ps, observed := observed st @ ps\<rparr>" using assms(1) by (simp add: logged_def)
  with False assms(2) show ?thesis by (simp add: logged_def)
qed

lemma logged_room: "logged st ps st' \<Longrightarrow> room st (length ps + n) \<Longrightarrow> room st' n"
  using logged_mode [of st ps st'] by (auto simp: logged_def room_def add.assoc split: if_splits)

lemma room_mono: "room st n \<Longrightarrow> k \<le> n \<Longrightarrow> room st k"
  by (auto simp: room_def split: if_splits)

lemma record_path_logged:
  assumes "mode (wst v) = DELETE_WALK_MODE_LIST" and "room (wst v) 1"
  shows "\<exists>st. record_path granted p v = v\<lparr>wst := st\<rparr> \<and> logged (wst v) [p] st"
proof -
  have "\<exists>l. array_list_add granted (out (wst v)) p = (True, l) \<and> elems l = elems (out (wst v)) @ [p]"
    using assms by (auto simp: room_def array_list_add_def array_list_extend_def Let_def)
  then show ?thesis using assms(1) by (auto simp: record_path_def logged_def)
qed

definition drop_entry :: "walk_state \<Rightarrow> string \<Rightarrow> listing \<Rightarrow> listing" where
  "drop_entry st n cs = (if mode st = DELETE_WALK_MODE_LIST then cs else remove_entry n cs)"

lemma mode_not_list [simp]: "m \<noteq> DELETE_WALK_MODE_LIST \<longleftrightarrow> m = DELETE_WALK_MODE_DELETE"
  by (cases m) simp_all

lemma extra_file_granted:
  assumes "room (wst v) 1" and "calm d" and "path_cat granted (Some rel) (Some n) = Some c"
  shows "\<exists>st. extra_file granted d rel n v = v\<lparr>wst := st, now := drop_entry (wst v) n (now v)\<rparr> \<and> logged (wst v) [c] st"
proof (cases "mode (wst v)")
  case DELETE_WALK_MODE_LIST
  with record_path_logged [of v c] assms show ?thesis by (auto simp: extra_file_def drop_entry_def)
next
  case DELETE_WALK_MODE_DELETE
  with assms show ?thesis
    by (auto simp: extra_file_def drop_entry_def room_def note_deleted_def logged_def calmD)
qed

lemma extra_dir_granted:
  assumes "room (wst v) 1" and "calm d" and "mode (wst v) = DELETE_WALK_MODE_DELETE \<Longrightarrow> map_of (now v) n = Some (Folder [])"
  shows "\<exists>st. extra_dir granted d True c n (v, True) = v\<lparr>wst := st, now := drop_entry (wst v) n (now v)\<rparr> \<and>
    logged (wst v) [c @ [SLASH]] st"
proof (cases "mode (wst v)")
  case DELETE_WALK_MODE_LIST
  with record_path_logged [of v "c @ [SLASH]"] assms show ?thesis by (auto simp: extra_dir_def drop_entry_def)
next
  case DELETE_WALK_MODE_DELETE
  with assms show ?thesis
    by (auto simp: extra_dir_def drop_entry_def room_def note_deleted_def logged_def rmdir_err_def calmD)
qed

section \<open>The walk computes the reference\<close>

text \<open>A listing in which the entries of \<open>S\<close> have been replaced by their results.\<close>

definition replaced :: "(string \<times> node \<Rightarrow> node option) \<Rightarrow> (string \<times> node) set \<Rightarrow> listing \<Rightarrow> listing" where
  "replaced pr S cs = concat (map (\<lambda>x. option_entry x (if x \<in> S then pr x else Some (snd x))) cs)"

lemma replaced_empty [simp]: "replaced pr {} cs = cs"
  by (induction cs) (simp_all add: replaced_def option_entry_def)

lemma option_entry_other:
  "fst x \<noteq> n \<Longrightarrow> put_entry n z (option_entry x r) = option_entry x r \<and> remove_entry n (option_entry x r) = option_entry x r"
  by (cases r) (simp_all add: option_entry_def put_entry_def remove_entry_def)

lemma replaced_insert:
  assumes "distinct (map fst cs)" and "e \<in> set cs" and "e \<notin> S"
  shows "replaced pr (insert e S) cs =
      (case pr e of None \<Rightarrow> remove_entry (fst e) (replaced pr S cs) | Some z \<Rightarrow> put_entry (fst e) z (replaced pr S cs))"
    and "map_of (replaced pr S cs) (fst e) = Some (snd e)"
    and "distinct (map fst (replaced pr S cs))"
proof -
  have other: "fst x \<noteq> fst e" if "x \<in> set cs" "x \<noteq> e" for x
    using that assms by (metis distinct_map inj_onD)
  have 1: "option_entry x (if x \<in> insert e S then pr x else Some (snd x)) =
      (case pr e of None \<Rightarrow> remove_entry (fst e) (option_entry x (if x \<in> S then pr x else Some (snd x)))
       | Some z \<Rightarrow> put_entry (fst e) z (option_entry x (if x \<in> S then pr x else Some (snd x))))" if "x \<in> set cs" for x
  proof (cases "x = e")
    case True
    with assms(3) show ?thesis by (simp add: option_entry_def put_entry_def remove_entry_def split: option.split)
  next
    case False
    from option_entry_other [OF other [OF that False]] False show ?thesis by (simp split: option.split)
  qed
  show "replaced pr (insert e S) cs =
      (case pr e of None \<Rightarrow> remove_entry (fst e) (replaced pr S cs) | Some z \<Rightarrow> put_entry (fst e) z (replaced pr S cs))"
  proof (cases "pr e")
    case None
    then have "remove_entry (fst e) (replaced pr S cs) =
        concat (map (\<lambda>x. remove_entry (fst e) (option_entry x (if x \<in> S then pr x else Some (snd x)))) cs)"
      by (simp add: replaced_def remove_entry_def filter_concat comp_def)
    also have "\<dots> = replaced pr (insert e S) cs"
      unfolding replaced_def using 1 None by (intro arg_cong [of _ _ concat] map_cong refl) simp
    finally show ?thesis using None by simp
  next
    case (Some z)
    then have "put_entry (fst e) z (replaced pr S cs) =
        concat (map (\<lambda>x. put_entry (fst e) z (option_entry x (if x \<in> S then pr x else Some (snd x)))) cs)"
      by (simp add: replaced_def put_entry_def map_concat comp_def)
    also have "\<dots> = replaced pr (insert e S) cs"
      unfolding replaced_def using 1 Some by (intro arg_cong [of _ _ concat] map_cong refl) simp
    finally show ?thesis using Some by simp
  qed
  have keys: "fst ` set (replaced pr S xs) \<subseteq> fst ` set xs" for xs
    by (force simp: replaced_def option_entry_def split: option.splits)
  have step: "replaced pr S (x # xs) = option_entry x (if x \<in> S then pr x else Some (snd x)) @ replaced pr S xs" for x xs
    by (simp add: replaced_def)
  show "distinct (map fst (replaced pr S cs))"
    using assms(1)
  proof (induction cs)
    case (Cons x xs)
    then have "fst x \<notin> fst ` set (replaced pr S xs)" using keys [of xs] by auto
    with Cons show ?case unfolding step by (auto simp: option_entry_def split: option.split)
  qed (simp add: replaced_def)
  then show "map_of (replaced pr S cs) (fst e) = Some (snd e)"
    using assms(2,3) by (auto simp: replaced_def option_entry_def split: option.splits intro!: map_of_is_SomeI bexI [of _ e])
qed

lemma remove_put_entry [simp]: "remove_entry n (put_entry n z cs) = remove_entry n cs"
  by (induction cs) (auto simp: remove_entry_def put_entry_def)

lemma put_entry_same: "distinct (map fst cs) \<Longrightarrow> map_of cs n = Some z \<Longrightarrow> put_entry n z cs = cs"
proof (induction cs)
  case (Cons e cs)
  have "put_entry n z cs = cs" if "n \<notin> fst ` set cs" using that by (force simp: put_entry_def intro!: map_idI)
  moreover have "put_entry n z (e # cs) = (if fst e = n then (n, z) else e) # put_entry n z cs" by (simp add: put_entry_def)
  ultimately show ?case using Cons by (auto split: if_splits)
qed simp

lemma prune_entry_folder:
  assumes "cl rel (pd \<or> syn rel) (n, Folder es) \<noteq> Shielded"
  shows "prune_entry cl syn pd rel (n, Folder es) =
    (if cl rel (pd \<or> syn rel) (n, Folder es) = Extra \<and> prune cl syn (pd \<or> syn rel) (entry_path rel n) es = [] then None
     else Some (Folder (prune cl syn (pd \<or> syn rel) (entry_path rel n) es)))"
  using assms by (simp add: prune_def Let_def)

lemma prune_entry_idle:
  assumes "\<not> (cl rel (pd \<or> syn rel) e = Extra \<or> is_folder e \<and> cl rel (pd \<or> syn rel) e \<noteq> Shielded)"
  shows "prune_entry cl syn pd rel e = Some (snd e)"
  using assms by (cases e; cases "snd e") (auto simp: is_folder_def)

lemma prune_entry_stays:
  assumes "cl rel (pd \<or> syn rel) e \<noteq> Extra"
  shows "prune_entry cl syn pd rel e \<noteq> None"
  using assms by (cases e; cases "snd e") (auto simp: Let_def)

lemma prune_empty: "prune cl syn pd rel cs = [] \<longleftrightarrow> (\<forall>e\<in>set cs. prune_entry cl syn pd rel e = None)"
  by (auto simp: prune_def option_entry_def split: option.splits)

definition left :: "walk_state \<Rightarrow> listing \<Rightarrow> listing \<Rightarrow> listing" where
  "left st cs cs' = (if mode st = DELETE_WALK_MODE_LIST then cs else cs')"

lemma act_file_exact:
  assumes "calm d" and "room (wst v) 1" and "path_cat granted (Some rel) (Some n) = Some (entry_path rel n)"
  shows "\<exists>st. act granted xxh d pl dl rel ((n, Plain), c) v = v\<lparr>wst := st, now := drop_entry (wst v) n (now v)\<rparr> \<and>
    logged (wst v) [entry_path rel n] st"
  using extra_file_granted [OF assms(2,1,3)] by (simp add: act_def)

text \<open>One directory, given what the walk of its content does.\<close>

lemma act_folder_exact:
  assumes "calm d" and "room (wst v) (weight (Folder es))"
    and c: "path_cat granted (Some rel) (Some n) = Some c"
    and walk: "\<exists>st'. delete_walk_fd granted xxh d pl dl c es (wst v) = (left (wst v) es es', st', True, es' = []) \<and> logged (wst v) ps st'"
    and len: "length ps \<le> listing_weight es"
    and now: "map_of (now v) n = Some (Folder es)" "distinct (map fst (now v))"
    and dl: "vd = Extra \<Longrightarrow> dl"
  shows "\<exists>st. act granted xxh d pl dl rel ((n, Folder es), vd) v =
      v\<lparr>wst := st, now := left (wst v) (now v) (if vd = Extra \<and> es' = [] then remove_entry n (now v) else put_entry n (Folder es') (now v)),
        survives := (survives v \<or> \<not> (vd = Extra \<and> es' = []))\<rparr> \<and>
    logged (wst v) (ps @ (if vd = Extra \<and> es' = [] then [c @ [SLASH]] else [])) st"
proof -
  from walk obtain st' where w: "delete_walk_fd granted xxh d pl dl c es (wst v) = (left (wst v) es es', st', True, es' = [])"
    and l: "logged (wst v) ps st'" by blast
  let ?now = "left (wst v) (now v) (put_entry n (Folder es') (now v))"
  let ?u = "v\<lparr>now := ?now, wst := st'\<rparr>"
  have md: "mode st' = mode (wst v)" by (rule logged_mode [OF l])
  have "put_entry n (Folder (left (wst v) es es')) (now v) = ?now"
    using put_entry_same [OF now(2,1)] by (simp add: left_def)
  then have vis: "visit granted xxh d pl dl c (n, Folder es) v = (?u, es' = [])"
    using w assms(1) by (simp add: visit_def descend_def contents_def calmD)
  show ?thesis
  proof (cases "vd = Extra \<and> es' = []")
    case True
    have "room st' 1" using logged_room [OF l room_mono [OF assms(2)], of 1] len by (simp add: listing_weight_def)
    moreover have "map_of ?now n = Some (Folder [])" if "mode st' = DELETE_WALK_MODE_DELETE"
      using that md True now(1) by (simp add: left_def map_of_put_entry)
    ultimately obtain st where st: "extra_dir granted d True c n (?u, True) = ?u\<lparr>wst := st, now := drop_entry st' n ?now\<rparr>"
      "logged st' [c @ [SLASH]] st"
      using extra_dir_granted [of ?u d n c] assms(1) by auto
    have "drop_entry st' n ?now = left (wst v) (now v) (remove_entry n (now v))"
      using md by (simp add: drop_entry_def left_def)
    with st True dl c vis logged_trans [OF l st(2)] show ?thesis by (auto simp: act_def)
  next
    case False
    then have "act granted xxh d pl dl rel ((n, Folder es), vd) v = ?u\<lparr>survives := True\<rparr>"
      using c vis dl by (auto simp: act_def extra_dir_def)
    then have "act granted xxh d pl dl rel ((n, Folder es), vd) v = v\<lparr>wst := st', now := ?now, survives := True\<rparr>"
      by (simp add: walk_vars.equality)
    moreover have "(vd = Extra \<and> es' = []) = False" using False by blast
    ultimately show ?thesis using l by (simp del: mode_not_list) blast
  qed
qed

lemma fold_prefix:
  assumes "I [] v" and "\<And>us t ws v. us @ t # ws = ts \<Longrightarrow> I us v \<Longrightarrow> I (us @ [t]) (g t v)"
  shows "I ts (fold g ts v)"
proof -
  have "I us (fold g us v)" if "us @ ws = ts" for us ws
    using that
  proof (induction us arbitrary: ws rule: rev_induct)
    case (snoc t us)
    then show ?case using assms(2) [of us t ws] by simp
  qed (simp add: assms(1))
  then show ?thesis by simp
qed

text \<open>The judge agrees with the classification of the model on the entries a tree can have.\<close>

definition agrees :: "xxh64 \<Rightarrow> delete_plan \<Rightarrow> judge \<Rightarrow> bool" where
  "agrees xxh pl cl \<longleftrightarrow>
     (\<forall>rel dl n x. open_path rel \<longrightarrow> cstring rel \<longrightarrow> plain_name n \<longrightarrow> cstring n \<longrightarrow> length rel + length n + 2 \<le> SIZE_MAX \<longrightarrow>
        classify granted xxh pl rel dl (n, x) = cl rel dl (n, x)) \<and>
     (\<forall>rel dl e. cl rel dl e \<noteq> Unnamed \<and> (cl rel dl e = Extra \<longrightarrow> dl))"

lemma agreesD:
  assumes "agrees xxh pl cl"
  shows "open_path rel \<Longrightarrow> cstring rel \<Longrightarrow> plain_name (fst e) \<Longrightarrow> cstring (fst e) \<Longrightarrow>
      length rel + length (fst e) + 2 \<le> SIZE_MAX \<Longrightarrow> classify granted xxh pl rel dl e = cl rel dl e"
    and "cl rel dl e \<noteq> Unnamed" and "cl rel dl e = Extra \<Longrightarrow> dl"
proof -
  assume *: "open_path rel" "cstring rel" "plain_name (fst e)" "cstring (fst e)" "length rel + length (fst e) + 2 \<le> SIZE_MAX"
  show "classify granted xxh pl rel dl e = cl rel dl e"
    using assms * prod.collapse [of e] unfolding agrees_def by metis
next
  show "cl rel dl e \<noteq> Unnamed" using assms unfolding agrees_def by blast
next
  assume "cl rel dl e = Extra"
  then show dl using assms unfolding agrees_def by blast
qed

text \<open>The state after the entries \<open>us\<close> of the agenda.\<close>

definition exact_upto ::
  "judge \<Rightarrow> (string \<Rightarrow> bool) \<Rightarrow> bool \<Rightarrow> string \<Rightarrow> listing \<Rightarrow> walk_state \<Rightarrow> bool \<Rightarrow> ((string \<times> node) \<times> verdict) list \<Rightarrow>
   walk_vars \<Rightarrow> bool" where
  "exact_upto cl syn pd rel cs st s0 us v \<longleftrightarrow>
     now v = left st cs (replaced (prune_entry cl syn pd rel) (fst ` set us) cs) \<and>
     logged st (concat (map (\<lambda>t. removal cl syn pd rel (fst t)) us)) (wst v) \<and> operation_ok v \<and>
     survives v = (s0 \<or> (\<exists>t\<in>set us. prune_entry cl syn pd rel (fst t) \<noteq> None))"

lemma left_drop: "mode st' = mode st \<Longrightarrow> left st cs (remove_entry n cs') = drop_entry st' n (left st cs cs')"
  by (simp add: left_def drop_entry_def)

lemma exact_step:
  assumes ag: "agrees xxh pl cl" and d: "calm d" and ok: "listing_ok cs" and rel: "open_path rel" "room_below rel cs"
    and st: "room st (listing_weight cs)"
    and dl: "dl = (pd \<or> syn rel)"
    and us: "us @ t # ws = todo cl dl rel cs"
    and walk: "\<And>e es st. e \<in> set cs \<Longrightarrow> snd e = Folder es \<Longrightarrow> room st (listing_weight es) \<Longrightarrow>
      \<exists>st'. delete_walk_fd granted xxh d pl dl (entry_path rel (fst e)) es st =
          (left st es (prune cl syn dl (entry_path rel (fst e)) es), st', True, prune cl syn dl (entry_path rel (fst e)) es = []) \<and>
        logged st (removals cl syn dl (entry_path rel (fst e)) es) st'"
    and v: "exact_upto cl syn pd rel cs st s0 us v"
  shows "exact_upto cl syn pd rel cs st s0 (us @ [t]) (act granted xxh d pl dl rel t v)"
proof -
  obtain n x vd where t: "t = ((n, x), vd)" by (metis prod.collapse)
  let ?pr = "prune_entry cl syn pd rel" and ?S = "fst ` set us"
  let ?seq = "\<lambda>us. concat (map (\<lambda>t. removal cl syn pd rel (fst t)) us)"
  have tm: "t \<in> set (todo cl dl rel cs)" using us by (metis in_set_conv_decomp)
  have e: "(n, x) \<in> set cs" and vd: "vd = cl rel dl (n, x)" using todo_member [OF tm] t by auto
  have vd': "vd \<noteq> Shielded" "x = Plain \<Longrightarrow> vd = Extra"
    using tm t vd by (auto simp: todo_member_iff is_folder_def)
  note m = listing_ok_member [OF ok e, simplified]
  have names: "distinct (map fst cs)" by (rule listing_ok_distinct [OF ok])
  have new: "(n, x) \<notin> ?S"
  proof
    assume "(n, x) \<in> ?S"
    then have "n \<in> (fst \<circ> fst) ` set us" by force
    with todo_distinct [OF names, of cl dl rel] t show False unfolding us [symmetric] by auto
  qed
  have now: "now v = left st cs (replaced ?pr ?S cs)" and lg: "logged st (?seq us) (wst v)" and md: "mode (wst v) = mode st"
    using v logged_mode by (auto simp: exact_upto_def)
  have here: "map_of (now v) n = Some x" "distinct (map fst (now v))"
    using replaced_insert(2,3) [OF names e new, of ?pr] map_of_member [OF ok e] names by (simp_all add: now left_def)
  have pc: "path_cat granted (Some rel) (Some n) = Some (entry_path rel n)"
    using path_cat_granted [OF m(1) rel(1)] chars_member [OF e] rel(2) by (simp add: room_below_def)
  have len: "length (removal cl syn pd rel e) \<le> weight (snd e)" if "e \<in> set cs" for e
  proof (cases "snd e")
    case (Folder es)
    then show ?thesis
      using removals_length [of es cl syn "pd \<or> syn rel" "entry_path rel (fst e)"] listing_ok_member(3) [OF ok that]
      by (simp add: removal_def is_folder_def contents_def listing_weight_def)
  qed (simp add: removal_def is_folder_def)
  have "length (?seq us) \<le> sum_list (map (\<lambda>t. weight (snd (fst t))) us)"
    unfolding length_concat map_map comp_def
    by (intro sum_list_mono len) (use us todo_member [of _ cl dl rel cs] in \<open>metis Un_iff set_append\<close>)
  moreover have "sum_list (map (\<lambda>t. weight (snd (fst t))) us) + weight x \<le> listing_weight cs"
    using todo_weight [OF names, of cl dl rel] unfolding us [symmetric] by (simp add: t)
  ultimately have rm: "room (wst v) (weight x)" by (intro logged_room [OF lg] room_mono [OF st]) simp
  show ?thesis
  proof (cases x)
    case Plain
    with vd' vd dl have pr: "?pr (n, x) = None" by simp
    obtain st' where "act granted xxh d pl dl rel t v = v\<lparr>wst := st', now := drop_entry (wst v) n (now v)\<rparr>"
      "logged (wst v) [entry_path rel n] st'"
      using act_file_exact [OF d _ pc, of v xxh pl dl vd] rm t Plain by auto
    moreover have "left st cs (replaced ?pr (insert (n, x) ?S) cs) = drop_entry (wst v) n (now v)"
      using replaced_insert(1) [OF names e new, of ?pr] pr left_drop [OF md] by (simp add: now)
    ultimately show ?thesis
      using v logged_trans [OF lg, of "[entry_path rel n]" st'] pr t Plain by (simp add: exact_upto_def removal_def is_folder_def)
  next
    case (Folder es)
    let ?c = "entry_path rel n"
    let ?es = "prune cl syn dl ?c es"
    have pr: "?pr (n, x) = (if vd = Extra \<and> ?es = [] then None else Some (Folder ?es))"
      using prune_entry_folder [of cl rel pd syn n es] vd vd' dl Folder by simp
    have lm: "length (removals cl syn dl ?c es) \<le> listing_weight es"
      using removals_length [of es] m(3) Folder by (simp add: contents_def)
    have r: "room (wst v) (listing_weight es)" by (rule room_mono [OF rm]) (simp add: Folder listing_weight_def)
    have vdl: "vd = Extra \<Longrightarrow> dl" using agreesD(3) [OF ag] vd by simp
    obtain st' where a: "act granted xxh d pl dl rel t v =
      v\<lparr>wst := st', now := left (wst v) (now v) (if vd = Extra \<and> ?es = [] then remove_entry n (now v) else put_entry n (Folder ?es) (now v)),
        survives := (survives v \<or> \<not> (vd = Extra \<and> ?es = []))\<rparr>"
      and l: "logged (wst v) (removals cl syn dl ?c es @ (if vd = Extra \<and> ?es = [] then [?c @ [SLASH]] else [])) st'"
      using act_folder_exact [OF d _ pc _ lm, of v xxh pl dl ?es vd] rm here walk [OF e _ r] vdl t Folder by auto
    have "left st cs (replaced ?pr (insert (n, x) ?S) cs) =
        left (wst v) (now v) (if vd = Extra \<and> ?es = [] then remove_entry n (now v) else put_entry n (Folder ?es) (now v))"
      using replaced_insert(1) [OF names e new, of ?pr] pr md by (simp add: now left_def)
    moreover have "removal cl syn pd rel (n, x) = removals cl syn dl ?c es @ (if vd = Extra \<and> ?es = [] then [?c @ [SLASH]] else [])"
      using pr dl Folder by (simp add: removal_def is_folder_def contents_def)
    ultimately show ?thesis
      using v a logged_trans [OF lg l] pr t by (auto simp: exact_upto_def)
  qed
qed

lemma exact_end:
  assumes "exact_upto cl syn pd rel cs st (list_ex (\<lambda>e. cl rel (pd \<or> syn rel) e = Shielded \<or> cl rel (pd \<or> syn rel) e = Kept) cs)
      (todo cl (pd \<or> syn rel) rel cs) v"
    and "\<And>e. cl rel (pd \<or> syn rel) e \<noteq> Unnamed"
  shows "now v = left st cs (prune cl syn pd rel cs)" and "logged st (removals cl syn pd rel cs) (wst v)" and "operation_ok v"
    and "survives v \<longleftrightarrow> prune cl syn pd rel cs \<noteq> []"
proof -
  let ?pr = "prune_entry cl syn pd rel" and ?cl = "cl rel (pd \<or> syn rel)"
  let ?S = "fst ` set (todo cl (pd \<or> syn rel) rel cs)"
  have S: "?cl e = Extra \<or> is_folder e \<and> ?cl e \<noteq> Shielded \<Longrightarrow> e \<in> ?S" if "e \<in> set cs" for e
    using todo_member_iff [of e "?cl e" cl "pd \<or> syn rel" rel cs] that by force
  have idle: "?pr e = Some (snd e)" if "e \<in> set cs" "e \<notin> ?S" for e
    using prune_entry_idle [of cl rel pd syn e] S [OF that(1)] that(2) by blast
  have "replaced ?pr ?S cs = prune cl syn pd rel cs"
    unfolding replaced_def prune_def by (intro arg_cong [of _ _ concat] map_cong refl) (simp add: idle)
  then show "now v = left st cs (prune cl syn pd rel cs)" using assms(1) by (simp add: exact_upto_def)
  show "logged st (removals cl syn pd rel cs) (wst v)" "operation_ok v"
    using assms(1) by (simp_all add: exact_upto_def removals_unfold)
  have "survives v \<longleftrightarrow> (\<exists>e\<in>set cs. ?cl e = Shielded \<or> ?cl e = Kept) \<or> (\<exists>e\<in>?S. ?pr e \<noteq> None)"
    using assms(1) by (simp add: exact_upto_def list_ex_iff)
  also have "\<dots> \<longleftrightarrow> (\<exists>e\<in>set cs. ?pr e \<noteq> None)"
  proof -
    have "?pr e \<noteq> None" if "?cl e = Shielded \<or> ?cl e = Kept" for e
      using prune_entry_stays [of cl rel pd syn e] that by auto
    moreover have "?S \<subseteq> set cs" using todo_member [of _ cl "pd \<or> syn rel" rel cs] by blast
    moreover have "?cl e = Shielded \<or> ?cl e = Kept \<or> e \<in> ?S" if "e \<in> set cs" for e
      using S [OF that] assms(2) [of e] by (cases "?cl e") auto
    ultimately show ?thesis by (meson subsetD)
  qed
  finally show "survives v \<longleftrightarrow> prune cl syn pd rel cs \<noteq> []" by (simp add: prune_empty)
qed

lemma walk_exact:
  assumes ag: "agrees xxh pl cl" and d: "calm d"
    and "listing_ok cs" and "open_path rel" and "cstring rel" and "room_below rel cs" and "room st (listing_weight cs)"
  shows "\<exists>st'. delete_walk_fd granted xxh d pl pd rel cs st =
      (left st cs (prune cl (is_synced_dir xxh (dirs pl)) pd rel cs), st', True, prune cl (is_synced_dir xxh (dirs pl)) pd rel cs = []) \<and>
    logged st (removals cl (is_synced_dir xxh (dirs pl)) pd rel cs) st'"
  using assms(3-)
proof (induction cs arbitrary: pd rel st rule: measure_induct_rule [of listing_weight])
  case (less cs)
  let ?syn = "is_synced_dir xxh (dirs pl)"
  define dl where "dl = (pd \<or> ?syn rel)"
  have "classify granted xxh pl rel dl e = cl rel dl e" if "e \<in> set cs" for e
    using agreesD(1) [OF ag less.prems(2,3)] listing_ok_member(1,2) [OF less.prems(1) that] chars_member [OF that] less.prems(4)
    by (simp add: room_below_def)
  then have tagged: "map (\<lambda>e. (e, classify granted xxh pl rel dl e)) (sort_desc cs) = map (\<lambda>e. (e, cl rel dl e)) (sort_desc cs)"
    by (intro map_cong refl) simp
  define v0 where "v0 = start cs st True (map (\<lambda>e. (e, cl rel dl e)) (sort_desc cs))"
  define v where "v = fold (act granted xxh d pl dl rel) (todo cl dl rel cs) v0"
  let ?s0 = "list_ex (\<lambda>e. cl rel dl e = Shielded \<or> cl rel dl e = Kept) cs"
  have walk: "\<exists>st'. delete_walk_fd granted xxh d pl dl (entry_path rel (fst e)) es st =
      (left st es (prune cl ?syn dl (entry_path rel (fst e)) es), st', True, prune cl ?syn dl (entry_path rel (fst e)) es = []) \<and>
      logged st (removals cl ?syn dl (entry_path rel (fst e)) es) st'"
    if "e \<in> set cs" "snd e = Folder es" "room st (listing_weight es)" for e es st
  proof (rule less.IH)
    note m = listing_ok_member [OF less.prems(1) that(1)]
    show "listing_weight es < listing_weight cs" using weight_member [OF that(1)] that(2) by (simp add: contents_def)
    show "listing_ok es" using m(3) that(2) by (simp add: contents_def)
    show "open_path (entry_path rel (fst e))" by (rule open_path_entry [OF m(1)])
    show "cstring (entry_path rel (fst e))" using m(2) less.prems(3) by (auto simp: cstring_def entry_path_def NUL_def)
    show "room_below (entry_path rel (fst e)) es"
      using room_below_member [OF less.prems(4) that(1)] that(2) by (simp add: contents_def)
  qed (rule that)
  have "exact_upto cl ?syn pd rel cs st ?s0 (todo cl dl rel cs) v"
    unfolding v_def
  proof (rule fold_prefix)
    show "exact_upto cl ?syn pd rel cs st ?s0 [] v0"
      using agreesD(2) [OF ag]
      by (simp add: exact_upto_def v0_def start_def left_def logged_refl list_all_iff list_ex_iff)
    show "exact_upto cl ?syn pd rel cs st ?s0 (us @ [t]) (act granted xxh d pl dl rel t v)"
      if "us @ t # ws = todo cl dl rel cs" "exact_upto cl ?syn pd rel cs st ?s0 us v" for us t ws v
      by (rule exact_step [OF ag d less.prems(1,2,4,5) dl_def that(1) walk that(2)])
  qed
  note fin = exact_end [OF this [unfolded dl_def] agreesD(2) [OF ag]]
  have "delete_walk_fd granted xxh d pl pd rel cs st = (now v, wst v, operation_ok v, \<not> survives v)"
    unfolding delete_walk_unfold [of granted xxh d pl pd rel cs st] collect_calm [OF less.prems(1) d] option.case prod.case Let_def
      dl_def [symmetric] tagged v_def v0_def todo_agenda [OF less.prems(1), symmetric] by simp
  with fin show ?case by simp
qed

section \<open>In the caller's terms\<close>

text \<open>The judge that the manifest, the synchronised directories, the prefixes and the rules stand for.\<close>

definition rule_judge ::
  "string list \<Rightarrow> string list option \<Rightarrow> skip_entry list \<Rightarrow> filter_rule_list option \<Rightarrow> judge" where
  "rule_judge m synced sk rules rel dl e =
     (let p = entry_path rel (fst e) in
      if path_under_skip_prefix p (rel = []) sk \<or>
         rules \<noteq> None \<and> filter_rules_apply_side granted rules p (fst e) (is_folder e) FILTER_SIDE_RECEIVER = FILTER_ACTION_PROTECT
      then Shielded
      else if dl \<and> p \<notin> set m \<and>
        (is_folder e \<longrightarrow> list_all (\<lambda>q. \<not> starts_with (p @ [SLASH]) q) m \<and> (case synced of None \<Rightarrow> True | Some s \<Rightarrow> p \<notin> set s))
      then Extra else Kept)"

definition dir_synced :: "string list option \<Rightarrow> string \<Rightarrow> bool" where
  "dir_synced synced rel = (case synced of None \<Rightarrow> True | Some s \<Rightarrow> (if rel = [] then ''.'' else rel) \<in> set s)"

lemma rule_judge_agrees:
  assumes ix: "delete_indexes granted xxh (Some m) synced = Some (kp, ix)" and m: "\<forall>e\<in>set m. cstring e"
  shows "agrees xxh \<lparr>keep = kp, dirs = ix, skips = sk, protect_rules = rules\<rparr> (rule_judge m synced sk rules)"
    (is "agrees xxh ?pl _")
    and "is_synced_dir xxh ix = dir_synced synced"
proof -
  note kp = path_index_answers [OF delete_indexes_some(1) [OF ix]]
  have syn: "(case ix of None \<Rightarrow> synced = None | Some i \<Rightarrow> \<exists>s. synced = Some s \<and> (\<forall>p. path_index_contains xxh i p = Some (p \<in> set s)))"
    using delete_indexes_some(2) [OF ix] by (auto split: option.splits dest: path_index_answers(1))
  show "is_synced_dir xxh ix = dir_synced synced"
    using syn by (auto simp: is_synced_dir_def dir_synced_def fun_eq_iff split: option.splits)
  have "classify granted xxh ?pl rel dl (n, x) = rule_judge m synced sk rules rel dl (n, x)"
    if *: "open_path rel" "cstring rel" "plain_name n" "cstring n" "length rel + length n + 2 \<le> SIZE_MAX" for rel dl n x
  proof -
    let ?p = "entry_path rel n"
    have p: "cstring ?p" "?p \<noteq> []" using *(2-4) by (auto simp: cstring_def entry_path_def NUL_def plain_name_def)
    have "path_index_has_descendant kp ?p \<longleftrightarrow> \<not> list_all (\<lambda>q. \<not> starts_with (?p @ [SLASH]) q) m"
      using kp(2) [OF m p(1)] p(2) by (auto simp: list_all_iff starts_with_iff)
    then have kd: "keep_is_dir xxh kp ?p \<longleftrightarrow> ?p \<in> set m \<or> \<not> list_all (\<lambda>q. \<not> starts_with (?p @ [SLASH]) q) m"
      using kp(1) [of ?p] by (simp add: keep_is_dir_def)
    have kf: "keep_is_file xxh kp ?p \<longleftrightarrow> ?p \<in> set m" using kp(1) [of ?p] by (simp add: keep_is_file_def)
    have cs: "(case ix of None \<Rightarrow> False | Some i \<Rightarrow> path_index_contains xxh i ?p = Some True) \<longleftrightarrow>
        \<not> (case synced of None \<Rightarrow> True | Some s \<Rightarrow> ?p \<notin> set s)"
      using syn by (auto split: option.splits)
    show ?thesis
      unfolding classify_def rule_judge_def fst_conv path_cat_granted [OF *(3,1,5)] option.case Let_def delete_plan.simps
        kd kf cs by auto
  qed
  then show "agrees xxh ?pl (rule_judge m synced sk rules)"
    unfolding agrees_def by (auto simp: rule_judge_def Let_def)
qed

text \<open>What the caller must provide: sizes within the machine's limits.\<close>

definition in_limits :: "string list \<Rightarrow> string list option \<Rightarrow> listing \<Rightarrow> bool" where
  "in_limits m synced cs \<longleftrightarrow>
     length m \<le> SIZE_MAX div 8 \<and> (case synced of None \<Rightarrow> True | Some s \<Rightarrow> length s \<le> SIZE_MAX div 8) \<and>
     room_below [] cs \<and> int (listing_weight cs) \<le> Prelude.INT_MAX div 2"

lemma delete_indexes_granted:
  assumes "in_limits m synced cs"
  obtains kp ix where "delete_indexes granted xxh (Some m) synced = Some (kp, ix)"
proof -
  have returns: "\<exists>i. path_index_build granted xxh s = Some (Some i)" if "length s \<le> SIZE_MAX div 8" for s
    using path_index_returns [OF that, of granted xxh] by simp
  obtain kp where "path_index_build granted xxh m = Some (Some kp)" using returns assms by (auto simp: in_limits_def)
  moreover have "\<exists>i. path_index_build granted xxh s = Some (Some i)" if "synced = Some s" for s
    using returns assms that by (simp add: in_limits_def)
  ultimately have "\<exists>kp ix. delete_indexes granted xxh (Some m) synced = Some (kp, ix)"
    by (cases synced) (fastforce simp: delete_indexes_def build_keep_index_def)+
  then show ?thesis using that by blast
qed

lemma run_exact:
  assumes "calm d" and "listing_ok cs" and "\<forall>e\<in>set m. cstring e" and "in_limits m synced cs" and "listing_weight cs \<le> limit"
  shows "delete_extras_limited_observed granted xxh d (Some cs) (Some m) synced limit sk rules =
    (DELETE_WALK_OK, Some (prune (rule_judge m synced sk rules) (dir_synced synced) False [] cs),
     length (removals (rule_judge m synced sk rules) (dir_synced synced) False [] cs), 0,
     removals (rule_judge m synced sk rules) (dir_synced synced) False [] cs)"
proof -
  obtain kp ix where ix: "delete_indexes granted xxh (Some m) synced = Some (kp, ix)"
    by (rule delete_indexes_granted [OF assms(4)])
  note ag = rule_judge_agrees(1) [OF ix assms(3), of sk rules] rule_judge_agrees(2) [OF ix assms(3)]
  let ?pl = "\<lparr>keep = kp, dirs = ix, skips = sk, protect_rules = rules\<rparr>"
  let ?st = "\<lparr>mode = DELETE_WALK_MODE_DELETE, max_delete = limit, deleted = 0, skipped = 0, limit_hit = False,
    out = \<lparr>elems = [], acap = 0\<rparr>, recorded = 0, observed = []\<rparr>"
  have "room ?st (listing_weight cs)" using assms(5) by (simp add: room_def)
  from walk_exact [OF ag(1) assms(1,2) _ _ _ this, of "[]" False] assms(4)
  obtain st' where "delete_walk_fd granted xxh d ?pl False [] cs ?st =
      (prune (rule_judge m synced sk rules) (dir_synced synced) False [] cs, st', True,
       prune (rule_judge m synced sk rules) (dir_synced synced) False [] cs = [])"
    "logged ?st (removals (rule_judge m synced sk rules) (dir_synced synced) False [] cs) st'"
    by (auto simp: open_path_def cstring_def in_limits_def ag(2) left_def)
  with assms(1) ix show ?thesis by (simp add: delete_extras_limited_observed_def logged_def calmD)
qed

lemma list_exact:
  assumes "calm d" and "listing_ok cs" and "\<forall>e\<in>set m. cstring e" and "in_limits m synced cs" and "elems l = []"
  shows "\<exists>l'. delete_extras_list granted xxh d (Some cs) (Some m) synced sk rules l =
      (True, length (removals (rule_judge m synced sk rules) (dir_synced synced) False [] cs), l') \<and>
    elems l' = removals (rule_judge m synced sk rules) (dir_synced synced) False [] cs"
proof -
  obtain kp ix where ix: "delete_indexes granted xxh (Some m) synced = Some (kp, ix)"
    by (rule delete_indexes_granted [OF assms(4)])
  note ag = rule_judge_agrees(1) [OF ix assms(3), of sk rules] rule_judge_agrees(2) [OF ix assms(3)]
  let ?pl = "\<lparr>keep = kp, dirs = ix, skips = sk, protect_rules = rules\<rparr>"
  let ?st = "\<lparr>mode = DELETE_WALK_MODE_LIST, max_delete = 0, deleted = 0, skipped = 0, limit_hit = False,
    out = l, recorded = 0, observed = []\<rparr>"
  have "room ?st (listing_weight cs)" using assms(4,5) by (simp add: room_def in_limits_def)
  from walk_exact [OF ag(1) assms(1,2) _ _ _ this, of "[]" False] assms(4)
  obtain st' where "delete_walk_fd granted xxh d ?pl False [] cs ?st =
      (cs, st', True, prune (rule_judge m synced sk rules) (dir_synced synced) False [] cs = [])"
    and l: "logged ?st (removals (rule_judge m synced sk rules) (dir_synced synced) False [] cs) st'"
    by (auto simp: open_path_def cstring_def in_limits_def ag(2) left_def)
  moreover from l have "st' = ?st\<lparr>out := out st', recorded := length (removals (rule_judge m synced sk rules) (dir_synced synced) False [] cs)\<rparr>"
    "elems (out st') = removals (rule_judge m synced sk rules) (dir_synced synced) False [] cs"
    using assms(5) by (simp_all add: logged_def)
  then have "recorded st' = length (removals (rule_judge m synced sk rules) (dir_synced synced) False [] cs)"
    by (metis walk_state.select_convs(7) walk_state.surjective walk_state.update_convs(6,7))
  ultimately show ?thesis using assms(1) ix \<open>elems (out st') = _\<close> by (simp add: delete_extras_list_def calmD)
qed

text \<open>C13: when no call fails and the limit is large enough, the delete pass leaves exactly the pruned tree: an entry goes
  when it lies in a synchronised directory or anywhere below one and neither the manifest, the prefixes nor the rules
  keep it, a directory only when nothing of its content stays. The observer is told every removed path, in the order of
  rsync: in each directory the extra directories by descending names, each after its own content, then the extra files by
  descending names, then what goes below the directories that stay, by ascending names.\<close>

theorem delete_run_prunes:
  assumes "calm d" and "listing_ok cs" and "\<forall>e\<in>set m. cstring e" and "in_limits m synced cs" and "listing_weight cs \<le> limit"
  shows "delete_extras_limited_observed granted xxh d (Some cs) (Some m) synced limit sk rules =
    (DELETE_WALK_OK, Some (prune (rule_judge m synced sk rules) (dir_synced synced) False [] cs),
     length (removals (rule_judge m synced sk rules) (dir_synced synced) False [] cs), 0,
     removals (rule_judge m synced sk rules) (dir_synced synced) False [] cs)"
  by (rule run_exact [OF assms])

text \<open>C14: the list of a dry run is the sequence of removals: when no call fails, \<open>--dry-run\<close> lists, without touching the
  destination, the paths that the deleting run removes, in the same order, and counts them.\<close>

theorem dry_run_lists_removals:
  assumes "calm d" and "listing_ok cs" and "\<forall>e\<in>set m. cstring e" and "in_limits m synced cs" and "listing_weight cs \<le> limit"
    and "delete_extras_limited_observed granted xxh d (Some cs) (Some m) synced limit sk rules = (res, root, dels, skip, obs)"
    and "delete_extras_list granted xxh d (Some cs) (Some m) synced sk rules \<lparr>elems = [], acap = c\<rparr> = (ok, count, l)"
  shows "ok \<and> res = DELETE_WALK_OK \<and> elems l = obs \<and> count = dels"
  using run_exact [OF assms(1-5), of xxh sk rules] list_exact [OF assms(1-4), of "\<lparr>elems = [], acap = c\<rparr>" xxh sk rules] assms(6,7)
  by auto

definition demo_tree :: listing where
  "demo_tree = [(''b'', Plain), (''a'', Folder [(''x'', Plain), (''k'', Plain)]), (''old'', Folder [(''u'', Plain), (''v'', Folder [])])]"

definition demo_disk :: disk where
  "demo_disk = \<lparr>scan_ok = \<lambda>_. True, stat_err = \<lambda>_. None, open_err = \<lambda>_. None, unlink_err = \<lambda>_. None, close_ok = True\<rparr>"

lemma demo_ok:
  "calm demo_disk" "listing_ok demo_tree" "\<forall>e\<in>set [''a/k'']. cstring e" "in_limits [''a/k''] None demo_tree" "listing_weight demo_tree \<le> 100"
proof -
  show "calm demo_disk" by (simp add: calm_def demo_disk_def)
  show "listing_ok demo_tree" "\<forall>e\<in>set [''a/k'']. cstring e" by code_simp+
  have w: "listing_weight demo_tree = 7" "chars (Folder demo_tree) = 23" by code_simp+
  then show "in_limits [''a/k''] None demo_tree" "listing_weight demo_tree \<le> 100"
    by (simp_all add: in_limits_def room_below_def limits)
qed

theorem delete_run_prunes_witness:
  "delete_extras_limited_observed granted length demo_disk (Some demo_tree) (Some [''a/k'']) None 100 [] None =
    (DELETE_WALK_OK, Some [(''a'', Folder [(''k'', Plain)])], 5, 0, [''old/v/'', ''old/u'', ''old/'', ''b'', ''a/x''])"
proof -
  have "prune (rule_judge [''a/k''] None [] None) (dir_synced None) False [] demo_tree = [(''a'', Folder [(''k'', Plain)])]"
    by code_simp
  moreover have "removals (rule_judge [''a/k''] None [] None) (dir_synced None) False [] demo_tree =
      [''old/v/'', ''old/u'', ''old/'', ''b'', ''a/x'']"
    by code_simp
  ultimately show ?thesis using delete_run_prunes [OF demo_ok, of length "[]" None] by simp
qed

theorem dry_run_lists_removals_witness:
  "case (delete_extras_limited_observed granted length demo_disk (Some demo_tree) (Some [''a/k'']) None 100 [] None,
         delete_extras_list granted length demo_disk (Some demo_tree) (Some [''a/k'']) None [] None \<lparr>elems = [], acap = 1\<rparr>) of
     ((res, _, dels, _, obs), (ok, count, l)) \<Rightarrow> ok \<and> res = DELETE_WALK_OK \<and> elems l = obs \<and> count = dels"
proof -
  obtain res root dels skip obs where
    run: "delete_extras_limited_observed granted length demo_disk (Some demo_tree) (Some [''a/k'']) None 100 [] None =
      (res, root, dels, skip, obs)"
    by (metis prod.exhaust)
  obtain ok count l where
    dry: "delete_extras_list granted length demo_disk (Some demo_tree) (Some [''a/k'']) None [] None \<lparr>elems = [], acap = 1\<rparr> = (ok, count, l)"
    by (metis prod.exhaust)
  from dry_run_lists_removals [OF demo_ok run dry] show ?thesis unfolding run dry by simp
qed

end
