(* ===== verification/Spec2Isabelle.thy ===== *)
theory Spec2Isabelle
  imports Delta Pipeline Selection Chunk Chmod Delete_Exact
begin

text \<open>
  A verification development of FastSync, a file synchroniser in C with the command line of rsync
  (\<open>src/src/client\<close>, \<open>src/src/server\<close>, \<open>src/src/shared\<close>).

  \<^bold>\<open>The program.\<close> A client scans a source tree, decides entry by entry what belongs to the transfer, packs
  the selected files into chunks and sends them over a socket; the receiver unpacks the chunks, confines
  every path below its root, rebuilds changed files from deltas, applies metadata, and in the end deletes
  what the sender no longer has. Loading and sending overlap in two threads over a bounded queue.

  \<^bold>\<open>Conventions.\<close> The targets are LP64 and little-endian. Bytes are \<open>8 word\<close>; a C integer is a word where
  its width matters (checksums, modes, wire fields, \<open>sint\<close> for signed reading) and a \<open>nat\<close> where it is a size
  or a count, with the range test of the code written out. C strings are \<open>string\<close> without NUL, and
  \<open>char_at\<close> reads the terminator. Memory is an allocator \<open>mem\<close>, the verdict on a request by its size, and
  every refusal of the source is a branch of the model; freeing is not modelled. Where one operation allocates
  twice at the same size and undoes the first on a failure of the second (\<open>Hardlink\<close>), each call has its own
  allocator. A signed overflow that the code does not exclude is the result \<open>None\<close> (\<open>queue_pop\<close>). Errors are \<open>option\<close>, sum or
  enumeration values. System calls and libraries (\<open>XXH64\<close>, \<open>iconv\<close>, \<open>fopen\<close>, \<open>lstat\<close>, \<open>readlink\<close>, \<open>openat\<close>,
  \<open>unlinkat\<close>, \<open>getenv\<close>, the umask) are arguments of the definitions that use them; theorems hold for all of
  them unless a hypothesis names what is relied on.

  \<^bold>\<open>The theories.\<close>
  \<^item> \<open>Prelude\<close>: machine types, limits, native byte encodings, C strings, the allocator, and the locales
    \<open>codec\<close> and \<open>strict_codec\<close>, the contract of a byte-level encoder with its decoder, from which counted
    sequences of records inherit round trip and canonicity. Interpreted for 32 and 64 bit integers, block
    signatures, delta instructions and metadata frames.
  \<^item> \<open>Adler\<close>, \<open>Delta_Index\<close>, \<open>Delta\<close> (\<open>shared/delta.c\<close>): the rolling weak checksum, the bucket index over
    block signatures, and the delta transfer: signature, instruction stream, both wire formats, application.
    Shown: the rolled checksum equals recomputation; the index finds what a linear scan finds; a whole exchange
    rebuilds the sender's file, and under allocation refusals never rebuilds another one; an untrusted stream
    is applied only within bounds; the decoders accept exactly the buffers that begin with the encoding of a
    value in range. The index is the one array of the code, with the 32 bit offset of its links; it is transparent below
    \<open>2 ^ 31\<close> buckets, which \<open>delta_compute\<close> keeps. The one hypothesis on the checksums is that the pair does not collide on the two files at hand.
  \<^item> \<open>Queue\<close> (\<open>shared/queue.c\<close>, \<open>shared/array_list.c\<close>): the ring buffer, shown to refine a double-ended
    sequence (locale \<open>deque_spec\<close>) as long as the index of a pop does not overflow, and growing arrays.
  \<^item> \<open>Pipeline\<close> (\<open>shared/multiprocessing.c\<close> and the loader and sender threads of \<open>client/client_send.c\<close>): the two
    threads, the mutex and the condition variables as an inductive step relation, with a sender that may fail or
    be stopped at any point. Shown: no reachable state with work left is stuck, chunks keep their order, the byte
    counter stays within its limit.
  \<^item> \<open>Paths\<close> and \<open>Glob\<close> (\<open>shared/utils.c\<close>): path validation, confinement below the authorised root,
    output escaping, bounded line reading; the rolling-row glob matcher against its recursive meaning.
  \<^item> \<open>Str_Index\<close> (\<open>shared/utils.c\<close>): the open-addressing string set (locale \<open>string_set\<close>), the sorted array
    and the path index built of them. Shown: it answers membership and descendant queries for exactly its
    entries, and building it ends.
  \<^item> \<open>Filter_Rules\<close> (\<open>shared/filter.c\<close>), \<open>File_List\<close> (\<open>shared/file_list.c\<close>), \<open>Hardlink\<close>
    (\<open>shared/hardlink.c\<close>), \<open>Symlink\<close> (the link policy of \<open>shared/file.c\<close>): the rule language with merge files
    (locale \<open>list_step\<close> for everything that edits a rule list), the files-from list, the table of hard-link
    groups, and the lexical test for escaping symlinks. Shown of the rules: printing and parsing agree, every list
    is well formed, merge files that include each other are refused, and which rules a clear rule leaves without
    an owner.
  \<^item> \<open>Selection\<close> (\<open>client/scanner_filter.c\<close>): composes the four into the decision on one directory entry.
    Shown: the walk over per-directory filters gives the verdict of the first matching rule for each side, and
    under \<open>--safe-links\<close> no accepted symlink leaves the tree.
  \<^item> \<open>Metadata\<close> (\<open>shared/metadata.c\<close>, \<open>shared/file_attr.h\<close>), \<open>Chmod\<close> (\<open>shared/chmod.c\<close>): the metadata
    record and its framing, the window of modification times, the rule for the applied mode; the \<open>--chmod\<close>
    interpreter against the meaning of its clauses.
  \<^item> \<open>Chunk\<close> (\<open>shared/chunk.c\<close>, \<open>shared/data.c\<close>): packing and unpacking of chunks with the memory budget of a
    connection. Shown: the round trip, and that every byte sequence is refused with the budget restored or
    accepted with bounded, well-formed files within the budget.
  \<^item> \<open>Delete_Walk\<close>, \<open>Delete_Facts\<close>, \<open>Delete_Exact\<close> (\<open>shared/delete.c\<close>): the delete engine on a tree of the
    destination with an outcome for every system call. \<open>Delete_Walk\<close> is the model and shows that its three
    passes are one pass over an agenda; \<open>Delete_Facts\<close> shows, for every failure and limit, what is spared and
    that the books are exact; \<open>Delete_Exact\<close> shows, for runs without failures, that the walk computes the
    pruned tree and removes in the order of the names as byte strings, and that a dry run lists the removals.

  \<^bold>\<open>Fuel and bounds.\<close> \<open>delta_compute_loop\<close> gets \<open>length new_data\<close> iterations: every step advances the position
    (\<open>delta_compute_loop_returns\<close>). \<open>chain_walk\<close> gets one more than the number of blocks, the longest chain
    (\<open>index_inv_chain\<close>). \<open>probe\<close> gets the number of slots: the load factor leaves one free, and
    \<open>path_index_build_total\<close> shows that no lookup or insertion runs out. \<open>init_capacity\<close> doubles 16 at most
    60 times, to the range of \<open>size_t\<close>. Merge files nest 17 levels deep, the limit of the code. All other recursions are
    structural or have a termination proof, so they are total.

  \<^bold>\<open>Not modelled.\<close> The socket conversation and its order (\<open>protocol.c\<close>, \<open>client_send.c\<close> outside the two threads,
  \<open>receiver.c\<close>, \<open>file_receive.c\<close>, \<open>incremental_check.c\<close>, the transports), because it is input and output on
  descriptors whose peers are outside the program; writing files (\<open>file_save.c\<close>, \<open>file_store.c\<close>,
  \<open>delay_updates.c\<close>) and restoring attributes (\<open>xattr.c\<close>, parts of \<open>metadata.c\<close>), which are sequences of
  system calls; digests, compression and character conversion, which are library calls and parameters here;
  option parsing, configuration, usage texts, reports, logging; daemon configuration, credentials and identity
  maps, which rest on the user database, OpenSSL and \<open>fork\<close>; the streaming variant of deletion
  (\<open>delete_plan.c\<close>, \<open>delete_commit.c\<close>), which interleaves the primitives of \<open>delete.c\<close> with messages. The
  two size heuristics of \<open>delta.c\<close> compare floating-point numbers and are left out.
\<close>

end
